(* ===== verification/Prelude.thy ===== *)
theory Prelude
  imports Main "HOL-Library.Word" "HOL-Library.Multiset"
begin

text \<open>
  Shared vocabulary of the development: machine integers and pointers, the outcome type of a
  piece of C code (it may run for ever, do something undefined, or return), checked array
  accesses, and the generic facts on lists, words and outcomes that the component theories use.
\<close>

section \<open>Machine integers, bytes and pointers\<close>

text \<open>
  The code is compiled for 64-bit Linux: \<open>size_t\<close>, \<open>ssize_t\<close>, \<open>long\<close> and
  \<open>loff_t\<close> are 64 bits wide, \<open>int\<close> and \<open>uint32_t\<close> 32, \<open>uint8_t\<close> 8. Signed
  types are the same words read with \<^const>\<open>sint\<close>. A C \<open>char\<close> is a HOL
  \<^typ>\<open>char\<close>, which is exactly one byte.
\<close>

type_synonym u8 = "8 word"
type_synonym u32 = "32 word"
type_synonym u64 = "64 word"
type_synonym i64 = "64 word"
type_synonym i32 = "32 word"
type_synonym byte = char

abbreviation newline :: byte where
  "newline \<equiv> CHR 0x0A"

abbreviation nul :: byte where
  "nul \<equiv> CHR 0x00"

text \<open>
  A pointer to dynamically allocated memory: \<open>NULL\<close>, the kernel's \<open>ZERO_SIZE_PTR\<close>
  (what \<open>kmalloc(0)\<close> returns: not \<open>NULL\<close>, not an allocation), or the address of an
  allocated block.
\<close>

datatype ptr = Null | Zero_Size | Ptr nat

fun ptr_addrs :: "ptr \<Rightarrow> nat list" where
  "ptr_addrs (Ptr a) = [a]"
| "ptr_addrs _ = []"

text \<open>The pointer to the first of a list of nodes.\<close>

definition first_of :: "nat list \<Rightarrow> ptr" where
  "first_of xs = (case xs of [] \<Rightarrow> Null | a # as \<Rightarrow> Ptr a)"

lemma first_of_simps [simp]: "first_of [] = Null" "first_of (a # as) = Ptr a"
  by (simp_all add: first_of_def)

section \<open>Outcomes of C code\<close>

text \<open>
  The undefined behaviours that the models make visible. A checked operation that would leave
  defined behaviour answers with one of these instead of an invented value.
\<close>

datatype fault =
    Null_Deref        \<comment> \<open>access through \<open>NULL\<close>\<close>
  | Out_Of_Bounds     \<comment> \<open>access outside an array or an allocated block\<close>
  | Use_After_Free    \<comment> \<open>access to a block that is not allocated\<close>
  | Invalid_Free      \<comment> \<open>free or reallocation of a block that is not allocated\<close>
  | Not_Locked        \<comment> \<open>unlocking a mutex that is not held\<close>
  | Deadlock          \<comment> \<open>locking a mutex that the caller already holds\<close>

text \<open>
  \<^term>\<open>None\<close>: the code does not return. \<open>Some (Inl f)\<close>: it runs into the fault
  \<open>f\<close>. \<open>Some (Inr x)\<close>: it returns \<open>x\<close>.
\<close>

type_synonym 'a comp = "(fault + 'a) option"

abbreviation returns :: "'a \<Rightarrow> 'a comp" where
  "returns x \<equiv> Some (Inr x)"

abbreviation fails :: "fault \<Rightarrow> 'a comp" where
  "fails f \<equiv> Some (Inl f)"

definition bindC :: "'a comp \<Rightarrow> ('a \<Rightarrow> 'b comp) \<Rightarrow> 'b comp" where
  "bindC m k = (case m of None \<Rightarrow> None | Some (Inl f) \<Rightarrow> fails f | Some (Inr x) \<Rightarrow> k x)"

lemma bindC_simps [simp]:
  "bindC None k = None"
  "bindC (fails f) k = fails f"
  "bindC (returns x) k = k x"
  by (simp_all add: bindC_def)

lemma bindC_assoc: "bindC (bindC m f) g = bindC m (\<lambda>x. bindC (f x) g)"
  by (auto simp: bindC_def split: option.splits sum.splits)

lemma bindC_eq_returns:
  "bindC m k = returns y \<longleftrightarrow> (\<exists>x. m = returns x \<and> k x = returns y)"
  by (auto simp: bindC_def split: option.splits sum.splits)

lemma bindC_cong [fundef_cong]:
  "m = m' \<Longrightarrow> (\<And>x. m' = returns x \<Longrightarrow> k x = k' x) \<Longrightarrow> bindC m k = bindC m' k'"
  by (auto simp: bindC_def split: option.splits sum.splits)

lemma bindC_mono [partial_function_mono]:
  fixes m :: "('a \<Rightarrow> 'b option) \<Rightarrow> 'c comp"
  assumes "mono_option m" and "\<And>x. mono_option (\<lambda>g. k g x)"
  shows "mono_option (\<lambda>g. bindC (m g) (k g))"
proof (rule monotoneI)
  fix f g :: "'a \<Rightarrow> 'b option"
  assume fg: "option.le_fun f g"
  from assms(1) fg have m: "option_ord (m f) (m g)" by (simp add: monotone_on_def)
  from assms(2) fg have k: "option_ord (k f x) (k g x)" for x by (simp add: monotone_on_def)
  show "option_ord (bindC (m f) (k f)) (bindC (m g) (k g))"
  proof (cases "m f")
    case None
    then show ?thesis by (simp add: flat_ord_def)
  next
    case (Some r)
    with m have mg: "m g = Some r" by (simp add: flat_ord_def)
    show ?thesis
    proof (cases r)
      case (Inl e)
      with Some mg show ?thesis by (simp add: flat_ord_def)
    next
      case (Inr x)
      with Some mg k show ?thesis by simp
    qed
  qed
qed

text \<open>Collection of the locking operations, for proofs that run a call from lock to unlock.\<close>

named_theorems locking

text \<open>What a test of a computation looks at: a part of the returned value.\<close>

definition observe :: "('a \<Rightarrow> 'b) \<Rightarrow> 'a comp \<Rightarrow> 'b comp" where
  "observe f m = map_option (map_sum id f) m"

lemma observe_returnsE:
  assumes "observe f m = returns y"
  obtains x where "m = returns x" and "f x = y"
  using assms by (cases m; cases "the m") (auto simp: observe_def)

lemma observe_failsE: "observe f m = fails e \<Longrightarrow> m = fails e"
  by (cases m; cases "the m") (auto simp: observe_def)

text \<open>A loop over a list whose body may fault.\<close>

fun foldC :: "('s \<Rightarrow> 'a \<Rightarrow> 's comp) \<Rightarrow> 's \<Rightarrow> 'a list \<Rightarrow> 's comp" where
  "foldC body s [] = returns s"
| "foldC body s (x # xs) = bindC (body s x) (\<lambda>s'. foldC body s' xs)"

lemma foldC_append: "foldC body s (xs @ ys) = bindC (foldC body s xs) (\<lambda>s'. foldC body s' ys)"
  by (induction xs arbitrary: s) (simp_all add: bindC_assoc)

lemma foldC_returns: "foldC (\<lambda>s x. returns (f s x)) s xs = returns (foldl f s xs)"
  by (induction xs arbitrary: s) simp_all

section \<open>Checked array accesses\<close>

definition arr_get :: "'a list \<Rightarrow> nat \<Rightarrow> 'a comp" where
  "arr_get xs i = (if i < length xs then returns (xs ! i) else fails Out_Of_Bounds)"

definition arr_set :: "'a list \<Rightarrow> nat \<Rightarrow> 'a \<Rightarrow> 'a list comp" where
  "arr_set xs i v = (if i < length xs then returns (xs[i := v]) else fails Out_Of_Bounds)"

lemma arr_get_in [simp]: "i < length xs \<Longrightarrow> arr_get xs i = returns (xs ! i)"
  by (simp add: arr_get_def)

lemma arr_get_out [simp]: "length xs \<le> i \<Longrightarrow> arr_get xs i = fails Out_Of_Bounds"
  by (simp add: arr_get_def)

lemma arr_set_in [simp]: "i < length xs \<Longrightarrow> arr_set xs i v = returns (xs[i := v])"
  by (simp add: arr_set_def)

section \<open>Lists\<close>

text \<open>The last \<open>n\<close> elements of a list.\<close>

definition last_n :: "nat \<Rightarrow> 'a list \<Rightarrow> 'a list" where
  "last_n n xs = drop (length xs - n) xs"

lemma length_last_n [simp]: "length (last_n n xs) = min (length xs) n"
  by (simp add: last_n_def)

lemma last_n_all [simp]: "length xs \<le> n \<Longrightarrow> last_n n xs = xs"
  by (simp add: last_n_def)

lemma map_last_n: "map f (last_n n xs) = last_n n (map f xs)"
  by (simp add: last_n_def drop_map)

lemma last_n_rev: "last_n n xs = rev (take n (rev xs))"
  by (simp add: last_n_def rev_take)

lemma last_n_snoc:
  assumes "0 < n"
  shows "last_n n (xs @ [x]) = (if length xs < n then xs @ [x] else tl (last_n n xs) @ [x])"
proof (cases "length xs < n")
  case False
  then have "Suc (length xs) - n = Suc (length xs - n)" by (simp add: Suc_diff_le)
  with False assms show ?thesis by (simp add: last_n_def tl_drop drop_Suc)
qed (simp add: last_n_def)

lemma last_n_snoc_butlast: "0 < n \<Longrightarrow> last_n n (xs @ [x]) = last_n (n - 1) xs @ [x]"
  by (cases n) (simp_all add: last_n_def)

lemma last_n_last_n_append [simp]: "last_n n (last_n n xs @ ys) = last_n n (xs @ ys)"
  by (simp add: last_n_rev)

lemma take_Suc_update: "i < length xs \<Longrightarrow> take (Suc i) (xs[i := x]) = take i xs @ [x]"
  by (simp add: take_Suc_conv_app_nth)

text \<open>Overwriting the oldest slot of a ring and advancing its start is a shift of the list.\<close>

lemma rotate_update_shift:
  assumes "i < length xs"
  shows "rotate (Suc i mod length xs) (xs[i := x]) = tl (rotate i xs) @ [x]"
proof (cases "Suc i = length xs")
  case True
  then have "xs[i := x] = take i xs @ [x]"
    using assms take_Suc_update [of i xs x] by simp
  with True assms show ?thesis by (simp add: rotate_drop_take tl_append Cons_nth_drop_Suc [symmetric])
next
  case False
  with assms show ?thesis
    by (simp add: rotate_drop_take take_Suc_update tl_append Cons_nth_drop_Suc [symmetric])
qed

lemma hd_rotate: "i < length xs \<Longrightarrow> hd (rotate i xs) = xs ! i"
  by (simp add: rotate_drop_take hd_append hd_drop_conv_nth)

lemma mset_rotate [simp]: "mset (rotate n xs) = mset xs"
  by (metis append_take_drop_id mset_append rotate_drop_take union_commute)

section \<open>Library functions on bytes\<close>

text \<open>\<open>memchr\<close> on the bytes it scans: the index of the first occurrence.\<close>

fun memchr :: "byte list \<Rightarrow> byte \<Rightarrow> nat option" where
  "memchr [] c = None"
| "memchr (b # bs) c = (if b = c then Some 0 else map_option Suc (memchr bs c))"

lemma memchr_None_iff: "memchr bs c = None \<longleftrightarrow> c \<notin> set bs"
  by (induction bs) auto

lemma memchr_SomeD:
  "memchr bs c = Some i \<Longrightarrow> i < length bs \<and> bs ! i = c \<and> c \<notin> set (take i bs)"
  by (induction bs arbitrary: i) (auto split: if_splits)

lemma memchr_append_newline: "c \<notin> set bs \<Longrightarrow> memchr (bs @ [c]) c = Some (length bs)"
  by (induction bs) auto

lemma memchr_takeWhile:
  "memchr bs c = Some i \<Longrightarrow> takeWhile (\<lambda>b. b \<noteq> c) bs @ [c] = take (Suc i) bs"
  by (induction bs arbitrary: i) (auto split: if_splits)

section \<open>Words\<close>

lemma unat_succ_mod_10_u8: "unat (w :: u8) < 10 \<Longrightarrow> unat ((w + 1) mod 10) = Suc (unat w) mod 10"
  by (simp add: unat_mod unat_word_ariths)

lemma unat_succ_mod_10_u64: "unat (w :: u64) < 10 \<Longrightarrow> unat ((w + 1) mod 10) = Suc (unat w) mod 10"
  by (simp add: unat_mod unat_word_ariths)

lemma unat_add_u64: "unat a + unat b < 2 ^ 64 \<Longrightarrow> unat (a + b :: u64) = unat a + unat b"
  by (simp add: unat_word_ariths)

lemma unat_sub_u64: "b \<le> a \<Longrightarrow> unat (a - b :: u64) = unat a - unat b"
  by (rule unat_sub)

lemma unat_bound_u64: "unat (w :: u64) < 2 ^ 64"
proof -
  have "unat w < 2 ^ LENGTH(64)" by (rule unsigned_less)
  then show ?thesis by simp
qed

lemma sint_unat_u64:
  assumes "unat (w :: u64) < 2 ^ 63"
  shows "sint w = int (unat w)"
proof -
  have "int (unat w) < int (2 ^ 63)" using assms by (simp only: of_nat_less_iff)
  then have "uint w < 2 ^ 63" by simp
  moreover have "- (2 ^ 63) \<le> uint w" by (rule order_trans [of _ 0]) simp_all
  ultimately have "signed_take_bit 63 (uint w) = uint w" by (intro signed_take_bit_int_eq_self)
  then show ?thesis by (simp add: sint_uint)
qed

lemma unat_of_nat_u64: "n < 2 ^ 64 \<Longrightarrow> unat (of_nat n :: u64) = n"
  by (simp add: unat_of_nat take_bit_nat_eq_self)

lemma unat_of_nat_less: "n \<le> unat (w :: u64) \<Longrightarrow> unat (of_nat n :: u64) = n"
  using unat_bound_u64 [of w] by (intro unat_of_nat_u64) simp

lemma unat_ucast_u8_u64 [simp]: "unat (ucast (w :: u8) :: u64) = unat w"
proof -
  have "unat w < 2 ^ LENGTH(8)" by (rule unsigned_less)
  then show ?thesis by (simp add: unsigned_ucast_eq take_bit_nat_eq_self)
qed

lemma unat_ucast_u32_u64 [simp]: "unat (ucast (w :: u32) :: u64) = unat w"
proof -
  have "unat w < 2 ^ LENGTH(32)" by (rule unsigned_less)
  then show ?thesis by (simp add: unsigned_ucast_eq take_bit_nat_eq_self)
qed

lemma ring_step_neq: "n < 9 \<Longrightarrow> (i + Suc (Suc n)) mod 10 \<noteq> Suc i mod (10 :: nat)"
  using mod_eq_dvd_iff_nat [of "Suc i" "i + Suc (Suc n)" 10] by (auto dest: dvd_imp_le)

end
