(* ===== verification/Circular_Buffer.thy ===== *)
theory Circular_Buffer
  imports Prelude
begin

text \<open>
  The circular buffer of the character driver (\<open>aesd-char-driver/aesd-circular-buffer.h\<close>
  and \<open>.c\<close>): a ring of ten entries, each a pointer and a length, that keeps the ten most
  recent write commands. The theory holds its data, its three operations and the iteration
  macro as the code has them, the invariant \<open>ring_wf\<close>, the abstraction \<open>ring_list\<close> to a
  list of entries, oldest first, and the proofs that every operation implements its list
  counterpart. What its clients may rely on is the locale \<open>command_log\<close>, interpreted here on
  the model of the code.
\<close>

section \<open>Data\<close>

definition AESDCHAR_MAX_WRITE_OPERATIONS_SUPPORTED :: nat where
  "AESDCHAR_MAX_WRITE_OPERATIONS_SUPPORTED = 10"

record aesd_buffer_entry =
  buffptr :: ptr
  entry_size :: u64

record aesd_circular_buffer =
  entry :: "aesd_buffer_entry list"
  in_offs :: u8
  out_offs :: u8
  full :: bool

text \<open>An entry of all-zero bytes, as \<open>memset\<close> leaves it.\<close>

definition zero_entry :: aesd_buffer_entry where
  "zero_entry = \<lparr>buffptr = Null, entry_size = 0\<rparr>"

section \<open>Operations\<close>

text \<open>
  \<open>aesd_circular_buffer_init\<close> is one \<open>memset\<close> of the whole structure with zero.
\<close>

definition aesd_circular_buffer_init :: "aesd_circular_buffer \<Rightarrow> aesd_circular_buffer" where
  "aesd_circular_buffer_init b =
     b\<lparr>entry := replicate AESDCHAR_MAX_WRITE_OPERATIONS_SUPPORTED zero_entry,
       in_offs := 0, out_offs := 0, full := False\<rparr>"

text \<open>
  The \<open>do \<dots> while\<close> loop of the search. It stops when the index reaches \<open>in_offs\<close>; on a
  structure whose \<open>in_offs\<close> is no valid index it need not stop, so it is a partial function.
  The result is the index of the entry and the offset in it, or \<open>None\<close> when the loop ends
  without a match. All sums and differences wrap at 64 bits, as \<open>size_t\<close> does.
\<close>

partial_function (option) find_loop ::
  "aesd_circular_buffer \<Rightarrow> u64 \<Rightarrow> u64 \<Rightarrow> u64 \<Rightarrow> ((nat \<times> u64) option) comp" where
  "find_loop b char_offset offset idx =
     bindC (arr_get (entry b) (unat idx)) (\<lambda>e.
       let offset' = offset + entry_size e;
           byte_to_ret = entry_size e
       in if offset' > char_offset
          then returns (Some (unat idx, byte_to_ret - (offset' - char_offset)))
          else let idx' = (idx + 1) mod of_nat AESDCHAR_MAX_WRITE_OPERATIONS_SUPPORTED
               in if idx' \<noteq> ucast (in_offs b)
                  then find_loop b char_offset offset' idx'
                  else returns None)"

declare find_loop.simps [code]

text \<open>
  Either pointer argument may be \<open>NULL\<close> (\<open>None\<close>); \<open>Some v\<close> is the cell behind
  \<open>entry_offset_byte_rtn\<close> with its present value. The result is the entry pointer, as an
  index into the array or \<open>None\<close> for \<open>NULL\<close>, and the cell afterwards.
\<close>

definition aesd_circular_buffer_find_entry_offset_for_fpos ::
  "aesd_circular_buffer option \<Rightarrow> u64 \<Rightarrow> u64 option \<Rightarrow> (nat option \<times> u64 option) comp" where
  "aesd_circular_buffer_find_entry_offset_for_fpos buffer char_offset entry_offset_byte_rtn =
     (case buffer of
        None \<Rightarrow> returns (None, entry_offset_byte_rtn)
      | Some b \<Rightarrow>
          (case entry_offset_byte_rtn of
             None \<Rightarrow> returns (None, None)
           | Some _ \<Rightarrow>
               bindC (find_loop b char_offset 0 (ucast (out_offs b))) (\<lambda>r.
                 case r of
                   None \<Rightarrow> returns (None, entry_offset_byte_rtn)
                 | Some (idx, byte_to_ret) \<Rightarrow> returns (Some idx, Some byte_to_ret))))"

text \<open>
  Adding an entry answers with the pointer that the new entry replaces (\<open>NULL\<close> when the
  buffer was not full) and the changed buffer. The 8-bit offsets are incremented, then reduced.
\<close>

definition aesd_circular_buffer_add_entry ::
  "aesd_circular_buffer option \<Rightarrow> aesd_buffer_entry option \<Rightarrow>
   (ptr \<times> aesd_circular_buffer option) comp" where
  "aesd_circular_buffer_add_entry buffer add_entry =
     (case buffer of
        None \<Rightarrow> returns (Null, None)
      | Some b \<Rightarrow>
          (case add_entry of
             None \<Rightarrow> returns (Null, Some b)
           | Some e \<Rightarrow>
               bindC (if full b
                      then bindC (arr_get (entry b) (unat (in_offs b))) (\<lambda>old. returns (buffptr old))
                      else returns Null) (\<lambda>buf_to_ret.
               bindC (arr_set (entry b) (unat (in_offs b)) e) (\<lambda>entries.
                 let b1 = b\<lparr>entry := entries\<rparr>;
                     b2 = b1\<lparr>in_offs := in_offs b1 + 1\<rparr>;
                     b3 = b2\<lparr>in_offs := in_offs b2 mod of_nat AESDCHAR_MAX_WRITE_OPERATIONS_SUPPORTED\<rparr>;
                     b4 = (if full b3
                           then let c = b3\<lparr>out_offs := out_offs b3 + 1\<rparr>
                                in c\<lparr>out_offs := out_offs c mod of_nat AESDCHAR_MAX_WRITE_OPERATIONS_SUPPORTED\<rparr>
                           else if in_offs b3 = out_offs b3 then b3\<lparr>full := True\<rparr>
                           else b3)
                 in returns (buf_to_ret, Some b4)))))"

text \<open>
  The macro \<open>AESD_CIRCULAR_BUFFER_FOREACH\<close> visits all ten slots in array order, whatever the
  offsets say; its body is any computation on a state of the caller. After the last round it
  forms, but does not read, the address one past the array.
\<close>

function foreach_entry ::
  "aesd_circular_buffer \<Rightarrow> ('s \<Rightarrow> aesd_buffer_entry \<Rightarrow> 's comp) \<Rightarrow> nat \<Rightarrow> 's \<Rightarrow> 's comp" where
  "foreach_entry b body index s =
     (if index < AESDCHAR_MAX_WRITE_OPERATIONS_SUPPORTED
      then bindC (arr_get (entry b) index) (\<lambda>e.
             bindC (body s e) (\<lambda>s'. foreach_entry b body (Suc index) s'))
      else returns s)"
  by pat_completeness auto
termination
  by (relation "measure (\<lambda>(b, body, index, s). AESDCHAR_MAX_WRITE_OPERATIONS_SUPPORTED - index)") auto

declare foreach_entry.simps [simp del]

definition AESD_CIRCULAR_BUFFER_FOREACH ::
  "aesd_circular_buffer \<Rightarrow> ('s \<Rightarrow> aesd_buffer_entry \<Rightarrow> 's comp) \<Rightarrow> 's \<Rightarrow> 's comp" where
  "AESD_CIRCULAR_BUFFER_FOREACH b body s = foreach_entry b body 0 s"

section \<open>Invariant and abstraction\<close>

text \<open>
  While the buffer is not full the live entries start at slot 0 and the rest of the array still
  holds the zeros of the initialisation; once it is full, all ten slots are live and the next
  one to be overwritten is also the oldest.
\<close>

definition ring_wf :: "aesd_circular_buffer \<Rightarrow> bool" where
  "ring_wf b \<longleftrightarrow>
     length (entry b) = AESDCHAR_MAX_WRITE_OPERATIONS_SUPPORTED \<and>
     unat (in_offs b) < AESDCHAR_MAX_WRITE_OPERATIONS_SUPPORTED \<and>
     unat (out_offs b) < AESDCHAR_MAX_WRITE_OPERATIONS_SUPPORTED \<and>
     (if full b then in_offs b = out_offs b
      else out_offs b = 0 \<and>
           (\<forall>i < AESDCHAR_MAX_WRITE_OPERATIONS_SUPPORTED.
              unat (in_offs b) \<le> i \<longrightarrow> entry b ! i = zero_entry))"

definition ring_list :: "aesd_circular_buffer \<Rightarrow> aesd_buffer_entry list" where
  "ring_list b =
     (if full b then rotate (unat (out_offs b)) (entry b) else take (unat (in_offs b)) (entry b))"

text \<open>
  The specification of the search: in a list of entry sizes, find the entry that holds the
  \<open>n\<close>-th byte of their concatenation, and the offset of that byte in it.
\<close>

fun locate :: "nat list \<Rightarrow> nat \<Rightarrow> (nat \<times> nat) option" where
  "locate [] n = None"
| "locate (s # ss) n =
     (if n < s then Some (0, n) else map_option (\<lambda>(k, off). (Suc k, off)) (locate ss (n - s)))"

lemma max_ops [simp]: "AESDCHAR_MAX_WRITE_OPERATIONS_SUPPORTED = 10"
  by (simp add: AESDCHAR_MAX_WRITE_OPERATIONS_SUPPORTED_def)

lemma zero_entry_simps [simp]: "buffptr zero_entry = Null" "entry_size zero_entry = 0"
  by (simp_all add: zero_entry_def)

lemma length_ring_list:
  "ring_wf b \<Longrightarrow> length (ring_list b) = (if full b then 10 else unat (in_offs b))"
  by (simp add: ring_wf_def ring_list_def)

lemma ring_full_iff: "ring_wf b \<Longrightarrow> full b \<longleftrightarrow> length (ring_list b) = 10"
  by (auto simp: length_ring_list) (auto simp: ring_wf_def)

section \<open>Initialisation and insertion\<close>

lemma init_wf: "ring_wf (aesd_circular_buffer_init b)"
  by (simp add: ring_wf_def aesd_circular_buffer_init_def)

lemma init_list: "ring_list (aesd_circular_buffer_init b) = []"
  by (simp add: ring_list_def aesd_circular_buffer_init_def)

lemma unat_succ_in_offs:
  "ring_wf b \<Longrightarrow> unat ((in_offs b + 1) mod 10) = Suc (unat (in_offs b)) mod 10"
  by (rule unat_succ_mod_10_u8) (simp add: ring_wf_def)

lemma add_entry_full:
  fixes e :: aesd_buffer_entry
  assumes "ring_wf b" and full: "full b"
  defines "b' \<equiv> b\<lparr>entry := (entry b)[unat (in_offs b) := e], in_offs := (in_offs b + 1) mod 10,
                 out_offs := (out_offs b + 1) mod 10\<rparr>"
  shows "aesd_circular_buffer_add_entry (Some b) (Some e) = returns (buffptr (hd (ring_list b)), Some b')"
    and "ring_wf b'" and "ring_list b' = tl (ring_list b) @ [e]"
proof -
  let ?i = "unat (in_offs b)"
  have len: "length (entry b) = 10" and i: "?i < 10" and io: "in_offs b = out_offs b"
    using assms(1,2) by (simp_all add: ring_wf_def)
  show "ring_wf b'"
    using full len io unat_succ_in_offs [OF assms(1)] by (simp add: ring_wf_def b'_def)
  show "ring_list b' = tl (ring_list b) @ [e]"
    using full len i io unat_succ_in_offs [OF assms(1)] rotate_update_shift [of ?i "entry b" e]
    by (simp add: ring_list_def b'_def)
  show "aesd_circular_buffer_add_entry (Some b) (Some e) = returns (buffptr (hd (ring_list b)), Some b')"
    using full len i io
    by (simp add: aesd_circular_buffer_add_entry_def ring_list_def hd_rotate Let_def b'_def)
qed

lemma add_entry_room:
  fixes e :: aesd_buffer_entry
  assumes "ring_wf b" and room: "\<not> full b"
  defines "b' \<equiv> b\<lparr>entry := (entry b)[unat (in_offs b) := e], in_offs := (in_offs b + 1) mod 10,
                 full := ((in_offs b + 1) mod 10 = out_offs b)\<rparr>"
  shows "aesd_circular_buffer_add_entry (Some b) (Some e) = returns (Null, Some b')"
    and "ring_wf b'" and "ring_list b' = ring_list b @ [e]"
proof -
  let ?i = "unat (in_offs b)"
  have len: "length (entry b) = 10" and i: "?i < 10" and out: "out_offs b = 0"
    and z: "\<forall>j<10. ?i \<le> j \<longrightarrow> entry b ! j = zero_entry"
    using assms(1,2) by (simp_all add: ring_wf_def)
  note step = unat_succ_in_offs [OF assms(1)]
  have "(in_offs b + 1) mod 10 = out_offs b \<longleftrightarrow> Suc ?i mod 10 = 0"
    using step out by (simp add: word_unat_eq_iff)
  also have "\<dots> \<longleftrightarrow> Suc ?i = 10" using i by presburger
  finally have f: "(in_offs b + 1) mod 10 = out_offs b \<longleftrightarrow> Suc ?i = 10" .
  show "ring_wf b'"
    using z out f i len step by (auto simp: ring_wf_def nth_list_update b'_def)
  show "ring_list b' = ring_list b @ [e]"
    using room out f i len step take_Suc_update [of ?i "entry b" e]
    by (auto simp: ring_list_def b'_def)
  show "aesd_circular_buffer_add_entry (Some b) (Some e) = returns (Null, Some b')"
    using room len i by (simp add: aesd_circular_buffer_add_entry_def Let_def b'_def)
qed

lemma add_entry_cases:
  assumes "ring_wf b"
  shows "\<exists>b'. aesd_circular_buffer_add_entry (Some b) (Some e) =
             returns (if length (ring_list b) = 10 then buffptr (hd (ring_list b)) else Null, Some b') \<and>
           ring_wf b' \<and> ring_list b' = last_n 10 (ring_list b @ [e])"
proof (cases "full b")
  case True
  show ?thesis
    using add_entry_full [OF assms True, of e] True assms by (simp add: length_ring_list last_n_snoc)
next
  case False
  have "unat (in_offs b) < 10" using assms by (simp add: ring_wf_def)
  then show ?thesis
    using add_entry_room [OF assms False, of e] False assms by (simp add: length_ring_list)
qed

section \<open>Search\<close>

abbreviation esize :: "aesd_buffer_entry \<Rightarrow> nat" where
  "esize e \<equiv> unat (entry_size e)"

text \<open>The entries the search loop visits in \<open>n\<close> rounds, starting at slot \<open>i\<close>.\<close>

definition slots :: "aesd_circular_buffer \<Rightarrow> nat \<Rightarrow> nat \<Rightarrow> aesd_buffer_entry list" where
  "slots b i n = map (\<lambda>k. entry b ! ((i + k) mod 10)) [0..<n]"

lemma slots_Suc: "slots b i (Suc n) = entry b ! (i mod 10) # slots b (Suc i mod 10) n"
  by (simp add: slots_def map_upt_Suc mod_simps del: upt_Suc)

lemma slots_0 [simp]: "slots b i 0 = []"
  by (simp add: slots_def)

text \<open>One round of the loop: the byte lies in the present entry, or the loop moves on.\<close>

lemma offset_past_entry:
  fixes offset size char_offset :: u64
  assumes "offset \<le> char_offset" and "unat offset + unat size < 2 ^ 64"
  shows "char_offset < offset + size \<longleftrightarrow> unat char_offset - unat offset < unat size"
  using assms by (auto simp: word_less_nat_alt word_le_nat_alt unat_add_u64)

lemma find_loop_hit:
  assumes "unat idx < length (entry b)" and "offset \<le> char_offset"
    and "unat offset + esize (entry b ! unat idx) < 2 ^ 64"
    and "unat char_offset - unat offset < esize (entry b ! unat idx)"
  shows "find_loop b char_offset offset idx =
    returns (Some (unat idx, of_nat (unat char_offset - unat offset)))"
proof -
  have "of_nat (unat char_offset - unat offset) = char_offset - offset"
    using assms(2) by (simp flip: unat_sub_u64)
  with assms show ?thesis
    by (subst find_loop.simps) (simp add: offset_past_entry Let_def algebra_simps)
qed

lemma find_loop_miss:
  assumes "length (entry b) = 10" and "unat idx < 10" and "offset \<le> char_offset"
    and "unat offset + esize (entry b ! unat idx) < 2 ^ 64"
    and "\<not> unat char_offset - unat offset < esize (entry b ! unat idx)"
  shows "find_loop b char_offset offset idx =
    (if Suc (unat idx) mod 10 = unat (in_offs b) then returns None
     else find_loop b char_offset (offset + entry_size (entry b ! unat idx)) ((idx + 1) mod 10))"
proof -
  have "(idx + 1) mod 10 = ucast (in_offs b) \<longleftrightarrow> Suc (unat idx) mod 10 = unat (in_offs b)"
    using assms(2) by (simp add: word_unat_eq_iff unat_succ_mod_10_u64)
  with assms show ?thesis
    by (subst find_loop.simps) (simp add: offset_past_entry Let_def)
qed

lemma find_loop_locate:
  assumes "length (entry b) = 10"
    and "unat idx < 10" and "n < 10" and "(unat idx + Suc n) mod 10 = unat (in_offs b)"
    and "offset \<le> char_offset"
    and "unat offset + sum_list (map esize (slots b (unat idx) (Suc n))) < 2 ^ 64"
  shows "find_loop b char_offset offset idx =
    returns (map_option (\<lambda>(k, off). ((unat idx + k) mod 10, of_nat off))
      (locate (map esize (slots b (unat idx) (Suc n))) (unat char_offset - unat offset)))"
  using assms(2-)
proof (induction n arbitrary: idx offset)
  case 0
  have bound: "unat offset + esize (entry b ! unat idx) < 2 ^ 64"
    using 0 by (simp add: slots_Suc)
  then show ?case
    using 0 assms(1) by (cases "unat char_offset - unat offset < esize (entry b ! unat idx)")
      (simp_all add: find_loop_hit find_loop_miss slots_Suc)
next
  case (Suc n)
  let ?e = "entry b ! unat idx"
  let ?idx = "(idx + 1) mod 10" and ?offset = "offset + entry_size ?e"
  have idx: "unat ?idx = Suc (unat idx) mod 10"
    using Suc.prems(1) by (rule unat_succ_mod_10_u64)
  have slots: "slots b (unat idx) (Suc (Suc n)) = ?e # slots b (unat ?idx) (Suc n)"
    using Suc.prems(1) by (simp add: slots_Suc [of b _ "Suc n"] idx)
  have bound: "unat offset + esize ?e + sum_list (map esize (slots b (unat ?idx) (Suc n))) < 2 ^ 64"
    using Suc.prems(5) by (simp add: slots add.assoc)
  show ?case
  proof (cases "unat char_offset - unat offset < esize ?e")
    case True
    with Suc.prems bound assms(1) show ?thesis by (simp add: find_loop_hit slots)
  next
    case False
    have "Suc (unat idx) mod 10 \<noteq> unat (in_offs b)"
      using Suc.prems(1-3) ring_step_neq [of n "unat idx"] by simp
    then have "find_loop b char_offset offset idx = find_loop b char_offset ?offset ?idx"
      using find_loop_miss [OF assms(1) Suc.prems(1,4) _ False] bound by simp
    also have "\<dots> = returns (map_option (\<lambda>(k, off). ((unat ?idx + k) mod 10, of_nat off))
      (locate (map esize (slots b (unat ?idx) (Suc n))) (unat char_offset - unat ?offset)))"
    proof (rule Suc.IH)
      show "unat ?idx < 10" "n < 10" using idx Suc.prems(2) by simp_all
      show "(unat ?idx + Suc n) mod 10 = unat (in_offs b)" 
        using Suc.prems(3) idx mod_add_left_eq [of "Suc (unat idx)" 10 "Suc n"] by simp
      show "?offset \<le> char_offset"
        using False Suc.prems(4) bound by (simp add: word_le_nat_alt unat_add_u64)
      show "unat ?offset + sum_list (map esize (slots b (unat ?idx) (Suc n))) < 2 ^ 64"
        using bound by (simp add: unat_add_u64)
    qed
    finally show ?thesis
      using False bound idx
      by (simp add: slots unat_add_u64 option.map_comp comp_def case_prod_unfold mod_simps)
  qed
qed

text \<open>What \<^const>\<open>locate\<close> computes, as arithmetic and as an access to a concatenation.\<close>

lemma locate_None_iff: "locate ss n = None \<longleftrightarrow> sum_list ss \<le> n"
  by (induction ss n rule: locate.induct) auto

lemma locate_SomeD:
  "locate ss n = Some (k, off) \<Longrightarrow> k < length ss \<and> off < ss ! k \<and> n = sum_list (take k ss) + off"
  by (induction ss n arbitrary: k off rule: locate.induct) (auto split: if_splits)

lemma locate_drop_concat:
  "locate (map length xss) n = Some (k, off) \<Longrightarrow>
   drop n (concat xss) = drop off (xss ! k) @ concat (drop (Suc k) xss)"
  by (induction xss arbitrary: n k off) (auto split: if_splits)

lemma locate_append:
  "locate (xs @ ys) (sum_list xs + j) = map_option (\<lambda>(k, off). (length xs + k, off)) (locate ys j)"
  by (induction xs) (cases "locate ys j"; auto simp: add.assoc)+

lemma locate_zeros [simp]: "locate (replicate m 0) n = None"
  by (simp add: locate_None_iff sum_list_replicate)

text \<open>The entries of a well-formed buffer, oldest first, are the slots from \<open>out_offs\<close> on.\<close>

lemma ring_list_nth:
  assumes "ring_wf b" and "k < length (ring_list b)"
  shows "ring_list b ! k = entry b ! ((unat (out_offs b) + k) mod 10)"
proof (cases "full b")
  case True
  with assms show ?thesis by (simp add: ring_list_def ring_wf_def nth_rotate)
next
  case False
  with assms have "k < unat (in_offs b)" "unat (in_offs b) < 10" "out_offs b = 0"
    by (auto simp: ring_list_def ring_wf_def)
  with False show ?thesis by (simp add: ring_list_def)
qed

lemma ring_list_slots:
  assumes "ring_wf b"
  shows "slots b (unat (out_offs b)) (length (ring_list b)) = ring_list b"
  using assms by (auto simp: slots_def ring_list_nth intro: nth_equalityI)

lemma ring_empty_slots:
  assumes "ring_wf b" and "ring_list b = []"
  shows "slots b (unat (out_offs b)) 10 = replicate 10 zero_entry"
  using assms length_ring_list [OF assms(1)]
  by (auto simp: slots_def ring_wf_def intro!: nth_equalityI split: if_splits)

lemma find_loop_ring:
  assumes "ring_wf b" and "sum_list (map esize (ring_list b)) < 2 ^ 64"
  shows "find_loop b char_offset 0 (ucast (out_offs b)) =
    returns (map_option (\<lambda>(k, off). ((unat (out_offs b) + k) mod 10, of_nat off))
      (locate (map esize (ring_list b)) (unat char_offset)))"
proof -
  let ?o = "unat (out_offs b)" and ?n = "length (ring_list b)"
  have len: "length (entry b) = 10" and io: "unat (in_offs b) < 10" "?o < 10"
    using assms(1) by (simp_all add: ring_wf_def)
  show ?thesis
  proof (cases "ring_list b = []")
    case True
    then have "\<not> full b" "in_offs b = 0" "out_offs b = 0"
      using assms(1) length_ring_list [OF assms(1)]
      by (auto simp: ring_wf_def unat_eq_0 split: if_splits)
    moreover have "slots b ?o (Suc 9) = replicate 10 zero_entry"
      using ring_empty_slots [OF assms(1) True] by simp
    ultimately show ?thesis
      using find_loop_locate [of b "ucast (out_offs b)" 9 0 char_offset] True len io
      by (simp add: sum_list_replicate)
  next
    case False
    then obtain n where n: "?n = Suc n" by (cases "?n") auto
    have "n < 10" "(?o + Suc n) mod 10 = unat (in_offs b)"
      using n io assms(1) length_ring_list [OF assms(1)] by (auto simp: ring_wf_def split: if_splits)
    then show ?thesis
      using find_loop_locate [of b "ucast (out_offs b)" n 0 char_offset] len io assms
        ring_list_slots [OF assms(1)] n
      by simp
  qed
qed

lemma find_entry_locate:
  assumes "ring_wf b" and "sum_list (map esize (ring_list b)) < 2 ^ 64"
  shows "aesd_circular_buffer_find_entry_offset_for_fpos (Some b) c (Some v) =
    returns (case locate (map esize (ring_list b)) (unat c) of
               None \<Rightarrow> (None, Some v)
             | Some (k, off) \<Rightarrow> (Some ((unat (out_offs b) + k) mod 10), Some (of_nat off)))"
  using assms
  by (simp add: aesd_circular_buffer_find_entry_offset_for_fpos_def find_loop_ring
      split: option.splits prod.splits)

lemma entry_slot_get:
  assumes "ring_wf b" and "k < length (ring_list b)"
  shows "arr_get (entry b) ((unat (out_offs b) + k) mod 10) = returns (ring_list b ! k)"
  using assms by (simp add: ring_list_nth) (simp add: ring_wf_def)

lemma foldl_sizes: "foldl (\<lambda>s e. s + entry_size e) x xs = x + of_nat (sum_list (map esize xs))"
  by (induction xs arbitrary: x) (simp_all add: add.assoc)

section \<open>The slots as a multiset, and the iteration macro\<close>

lemma ring_mset:
  assumes "ring_wf b"
  shows "mset (entry b) = mset (ring_list b) + replicate_mset (10 - length (ring_list b)) zero_entry"
proof (cases "full b")
  case True
  with assms show ?thesis
    by (simp add: ring_list_def ring_wf_def)
next
  case False
  let ?i = "unat (in_offs b)"
  from False assms have "drop ?i (entry b) = replicate (10 - ?i) zero_entry"
    by (auto simp: ring_wf_def intro!: nth_equalityI)
  then have "mset (entry b) = mset (take ?i (entry b) @ replicate (10 - ?i) zero_entry)"
    by (metis append_take_drop_id)
  with False assms show ?thesis
    by (simp add: ring_list_def ring_wf_def mset_replicate)
qed

lemma ring_sum_sizes:
  assumes "ring_wf b"
  shows "sum_list (map esize (entry b)) = sum_list (map esize (ring_list b))"
proof -
  have "sum_list (map esize xs) = sum_mset (image_mset esize (mset xs))" for xs
    by (simp flip: sum_mset_sum_list)
  with ring_mset [OF assms] show ?thesis by simp
qed

lemma foreach_entry_foldC:
  "length (entry b) = 10 \<Longrightarrow> index \<le> 10 \<Longrightarrow>
   foreach_entry b body index s = foldC body s (drop index (entry b))"
proof (induction b body index s rule: foreach_entry.induct)
  case (1 b body index s)
  show ?case
  proof (cases "index < 10")
    case True
    with 1 have "foreach_entry b body index s =
      bindC (body s (entry b ! index)) (\<lambda>s'. foldC body s' (drop (Suc index) (entry b)))"
      by (subst foreach_entry.simps) (auto intro: bindC_cong)
    with True 1(2) show ?thesis by (simp add: Cons_nth_drop_Suc [symmetric])
  next
    case False
    with 1 show ?thesis by (subst foreach_entry.simps) simp
  qed
qed

lemma FOREACH_foldC:
  "ring_wf b \<Longrightarrow> AESD_CIRCULAR_BUFFER_FOREACH b body s = foldC body s (entry b)"
  by (simp add: AESD_CIRCULAR_BUFFER_FOREACH_def foreach_entry_foldC ring_wf_def)

section \<open>The interface to clients\<close>

text \<open>
  What a client of the buffer relies on: a bounded log of the most recent entries, where adding
  an entry answers with the pointer that must be freed, and where the byte at a position of the
  concatenated entries can be found. \<open>view\<close> is the content, oldest entry first.
\<close>

locale command_log =
  fixes init :: "'b \<Rightarrow> 'b"
    and add :: "'b \<Rightarrow> 'e \<Rightarrow> ('p \<times> 'b) comp"
    and evicted :: "'e list \<Rightarrow> 'p"
    and view :: "'b \<Rightarrow> 'e list"
    and wf :: "'b \<Rightarrow> bool"
    and cap :: nat
  assumes cap_pos: "0 < cap"
    and wf_init: "wf (init b)"
    and view_init: "view (init b) = []"
    and view_bound: "wf b \<Longrightarrow> length (view b) \<le> cap"
    and add_ok: "wf b \<Longrightarrow> \<exists>b'. add b e = returns (evicted (view b), b') \<and> wf b' \<and>
                                view b' = last_n cap (view b @ [e])"
begin

lemma add_all:
  "wf b \<Longrightarrow> \<exists>b'. foldC (\<lambda>b e. bindC (add b e) (\<lambda>(p, b'). returns b')) b es = returns b' \<and>
                wf b' \<and> view b' = last_n cap (view b @ es)"
proof (induction es arbitrary: b)
  case Nil
  then show ?case by (simp add: view_bound)
next
  case (Cons e es)
  obtain b' where b': "add b e = returns (evicted (view b), b')" "wf b'"
    "view b' = last_n cap (view b @ [e])"
    using add_ok [OF Cons.prems] by blast
  with Cons.IH [OF b'(2)] show ?case by simp
qed

lemma add_all_fresh:
  "\<exists>b'. foldC (\<lambda>b e. bindC (add b e) (\<lambda>(p, b'). returns b')) (init b) es = returns b' \<and>
        wf b' \<and> view b' = last_n cap es"
  using add_all [OF wf_init, of b es] by (simp add: view_init)

end

text \<open>A log in which positions can be looked up: \<open>find\<close> answers with a reference to the entry.\<close>

locale searchable_log = command_log init add evicted view wf cap
  for init :: "'b \<Rightarrow> 'b" and add :: "'b \<Rightarrow> 'e \<Rightarrow> ('p \<times> 'b) comp" and evicted view wf cap +
  fixes find_pos :: "'b \<Rightarrow> u64 \<Rightarrow> (nat \<times> u64) option comp"
    and fetch :: "'b \<Rightarrow> nat \<Rightarrow> 'e comp"
    and esz :: "'e \<Rightarrow> nat"
  assumes find_ok: "wf b \<Longrightarrow> sum_list (map esz (view b)) < 2 ^ 64 \<Longrightarrow>
    (case locate (map esz (view b)) (unat c) of
       None \<Rightarrow> find_pos b c = returns None
     | Some (k, off) \<Rightarrow> \<exists>i. find_pos b c = returns (Some (i, of_nat off)) \<and>
                           fetch b i = returns (view b ! k))"
begin

lemma find_beyond:
  assumes "wf b" and "sum_list (map esz (view b)) < 2 ^ 64" and "sum_list (map esz (view b)) \<le> unat c"
  shows "find_pos b c = returns None"
  using find_ok [OF assms(1,2), of c] assms(3) by (auto simp flip: locate_None_iff)

lemma find_within:
  assumes "wf b" and "sum_list (map esz (view b)) < 2 ^ 64" and "unat c < sum_list (map esz (view b))"
  shows "\<exists>i off k. find_pos b c = returns (Some (i, of_nat off)) \<and> fetch b i = returns (view b ! k) \<and>
    locate (map esz (view b)) (unat c) = Some (k, off)"
proof -
  have "locate (map esz (view b)) (unat c) \<noteq> None"
    using assms(3) by (simp add: locate_None_iff)
  then obtain k off where "locate (map esz (view b)) (unat c) = Some (k, off)" by auto
  with find_ok [OF assms(1,2), of c] show ?thesis by auto
qed

text \<open>Insert, then look up: every byte of the new entry is found at the end of the log.\<close>

lemma added_is_found:
  assumes wf: "wf b" and small: "sum_list (map esz (last_n cap (view b @ [e]))) < 2 ^ 64" and j: "j < esz e"
  shows "\<exists>p b' i. add b e = returns (p, b') \<and> wf b' \<and>
    find_pos b' (of_nat (sum_list (map esz (last_n (cap - 1) (view b))) + j)) = returns (Some (i, of_nat j)) \<and>
    fetch b' i = returns e"
proof -
  obtain b' where b': "add b e = returns (evicted (view b), b')" "wf b'" "view b' = last_n cap (view b @ [e])"
    using add_ok [OF wf] by blast
  let ?old = "last_n (cap - 1) (view b)"
  have view: "view b' = ?old @ [e]" using b'(3) last_n_snoc_butlast [OF cap_pos] by metis
  let ?c = "sum_list (map esz ?old) + j"
  have "?c < 2 ^ 64" using small j by (simp add: b'(3) [symmetric] view)
  then have c: "unat (of_nat ?c :: u64) = ?c" by (simp only: unat_of_nat_u64)
  have "locate (map esz (view b')) ?c = Some (length ?old, j)"
    using j by (simp add: view locate_append)
  with find_ok [OF b'(2), of "of_nat ?c"] small c obtain i where
    "find_pos b' (of_nat ?c) = returns (Some (i, of_nat j))" "fetch b' i = returns (view b' ! length ?old)"
    by (auto simp del: of_nat_add simp: b'(3))
  moreover have "view b' ! length ?old = e" by (simp only: view nth_append_length)
  ultimately show ?thesis using b'(1,2) by metis
qed

end

text \<open>The driver's calls: the buffer pointer is never \<open>NULL\<close>, the result cell always given.\<close>

definition ring_add :: "aesd_circular_buffer \<Rightarrow> aesd_buffer_entry \<Rightarrow> (ptr \<times> aesd_circular_buffer) comp" where
  "ring_add b e =
     bindC (aesd_circular_buffer_add_entry (Some b) (Some e)) (\<lambda>(p, b').
       case b' of None \<Rightarrow> fails Null_Deref | Some b'' \<Rightarrow> returns (p, b''))"

definition ring_find :: "aesd_circular_buffer \<Rightarrow> u64 \<Rightarrow> (nat \<times> u64) option comp" where
  "ring_find b c =
     bindC (aesd_circular_buffer_find_entry_offset_for_fpos (Some b) c (Some 0)) (\<lambda>(i, off).
       case (i, off) of (Some i', Some off') \<Rightarrow> returns (Some (i', off')) | _ \<Rightarrow> returns None)"

definition ring_evicted :: "aesd_buffer_entry list \<Rightarrow> ptr" where
  "ring_evicted es = (if length es = 10 then buffptr (hd es) else Null)"

interpretation ring: command_log aesd_circular_buffer_init ring_add ring_evicted ring_list ring_wf 10
proof unfold_locales
  show "ring_wf b \<Longrightarrow> \<exists>b'. ring_add b e = returns (ring_evicted (ring_list b), b') \<and> ring_wf b' \<and>
      ring_list b' = last_n 10 (ring_list b @ [e])" for b e
    using add_entry_cases [of b e] by (auto simp: ring_add_def ring_evicted_def)
  show "length (ring_list b) \<le> 10" if "ring_wf b" for b
    using that by (auto simp: length_ring_list ring_wf_def)
qed (simp_all add: init_wf init_list)

interpretation ring: searchable_log aesd_circular_buffer_init ring_add ring_evicted ring_list ring_wf 10
  ring_find "\<lambda>b. arr_get (entry b)" esize
proof unfold_locales
  show "case locate (map esize (ring_list b)) (unat c) of
       None \<Rightarrow> ring_find b c = returns None
     | Some (k, off) \<Rightarrow> \<exists>i. ring_find b c = returns (Some (i, of_nat off)) \<and>
                           arr_get (entry b) i = returns (ring_list b ! k)"
    if "ring_wf b" and "sum_list (map esize (ring_list b)) < 2 ^ 64" for b c
  proof (cases "locate (map esize (ring_list b)) (unat c)")
    case None
    with that show ?thesis
      by (simp add: ring_find_def aesd_circular_buffer_find_entry_offset_for_fpos_def find_loop_ring)
  next
    case (Some r)
    obtain k off where r: "r = (k, off)" by (cases r)
    have "k < length (ring_list b)" using locate_SomeD [of _ _ k off] Some r by fastforce
    with that have "arr_get (entry b) ((unat (out_offs b) + k) mod 10) = returns (ring_list b ! k)"
      by (simp add: ring_list_nth) (simp add: ring_wf_def)
    with that Some r show ?thesis
      by (simp add: ring_find_def aesd_circular_buffer_find_entry_offset_for_fpos_def find_loop_ring)
  qed
qed

section \<open>Properties\<close>

text \<open>
  C17: On a well-formed buffer whose sizes do not overflow \<open>size_t\<close>, the search for a byte
  position returns, and it returns exactly the entry that holds that byte when all entries are
  concatenated, oldest first, with the offset of the byte in it; the result cell is written only
  when an entry is found.
\<close>

theorem find_entry_correct:
  assumes "ring_wf b" and "sum_list (map esize (ring_list b)) < 2 ^ 64"
  shows "\<exists>i cell. aesd_circular_buffer_find_entry_offset_for_fpos (Some b) c (Some v) = returns (i, cell) \<and>
    (case locate (map esize (ring_list b)) (unat c) of
       None \<Rightarrow> i = None \<and> cell = Some v
     | Some (k, off) \<Rightarrow> (\<exists>slot<10. i = Some slot \<and> entry b ! slot = ring_list b ! k) \<and>
                       cell = Some (of_nat off))"
proof (cases "locate (map esize (ring_list b)) (unat c)")
  case None
  with assms show ?thesis
    by (simp add: aesd_circular_buffer_find_entry_offset_for_fpos_def find_loop_ring)
next
  case (Some r)
  obtain k off where r: "r = (k, off)" by (cases r)
  have "k < length (ring_list b)" using locate_SomeD [of _ _ k off] Some r by fastforce
  with assms Some r show ?thesis
    by (simp add: aesd_circular_buffer_find_entry_offset_for_fpos_def find_loop_ring ring_list_nth)
qed

definition two_entries :: aesd_circular_buffer where
  "two_entries = \<lparr>entry = [\<lparr>buffptr = Ptr 1, entry_size = 3\<rparr>, \<lparr>buffptr = Ptr 2, entry_size = 5\<rparr>] @
     replicate 8 zero_entry, in_offs = 2, out_offs = 0, full = False\<rparr>"

lemma two_entries_wf: "ring_wf two_entries"
  by (simp add: ring_wf_def two_entries_def nth_Cons')

lemma two_entries_list:
  "ring_list two_entries = [\<lparr>buffptr = Ptr 1, entry_size = 3\<rparr>, \<lparr>buffptr = Ptr 2, entry_size = 5\<rparr>]"
  by (simp add: ring_list_def two_entries_def)

theorem find_entry_correct_witness:
  "\<exists>slot<10. aesd_circular_buffer_find_entry_offset_for_fpos (Some two_entries) 4 (Some 0) =
      returns (Some slot, Some 1) \<and> entry two_entries ! slot = \<lparr>buffptr = Ptr 2, entry_size = 5\<rparr>"
  using find_entry_correct [OF two_entries_wf, of 4 0] by (auto simp: two_entries_list)

text \<open>
  However many entries are added to a freshly initialised buffer, every addition returns and
  the buffer then holds exactly the ten most recent of them, in order.
\<close>

theorem buffer_keeps_last_ten:
  "\<exists>b'. foldC (\<lambda>b e. bindC (ring_add b e) (\<lambda>(p, b'). returns b')) (aesd_circular_buffer_init b) es =
          returns b' \<and> ring_wf b' \<and> ring_list b' = last_n 10 es"
  by (rule ring.add_all_fresh)

text \<open>
  C18: Adding an entry to a well-formed buffer hands back \<open>NULL\<close> while there is room and the
  pointer of the oldest entry, which is the one dropped, once ten are stored; the buffer stays
  well-formed and the new entry becomes the newest.
\<close>

theorem add_entry_correct:
  assumes "ring_wf b"
  shows "\<exists>b'. aesd_circular_buffer_add_entry (Some b) (Some e) =
             returns (if full b then buffptr (hd (ring_list b)) else Null, Some b') \<and>
           ring_wf b' \<and>
           ring_list b' = (if full b then tl (ring_list b) @ [e] else ring_list b @ [e])"
  using add_entry_cases [OF assms, of e] ring_full_iff [OF assms] ring.view_bound [OF assms]
  by (auto simp: last_n_snoc)

theorem add_entry_correct_witness:
  "\<exists>b'. aesd_circular_buffer_add_entry (Some two_entries) (Some \<lparr>buffptr = Ptr 7, entry_size = 1\<rparr>) =
      returns (Null, Some b') \<and> ring_wf b' \<and> length (ring_list b') = 3"
  using add_entry_correct [OF two_entries_wf, of "\<lparr>buffptr = Ptr 7, entry_size = 1\<rparr>"]
  by (auto simp: two_entries_list) (auto simp: two_entries_def)

text \<open>
  What is added can be found again: after an addition, the search for any byte position in the
  last entry's part of the contents returns the slot that holds exactly the added entry, and the
  offset of the byte in it, whether the ring was full or not.
\<close>

theorem added_entry_found:
  assumes "ring_wf b" and "sum_list (map esize (last_n 10 (ring_list b @ [e]))) < 2 ^ 64" and "j < esize e"
  shows "\<exists>p b' i. ring_add b e = returns (p, b') \<and> ring_wf b' \<and>
    ring_find b' (of_nat (sum_list (map esize (last_n 9 (ring_list b))) + j)) = returns (Some (i, of_nat j)) \<and>
    arr_get (entry b') i = returns e"
  using ring.added_is_found [OF assms] by simp

theorem added_entry_found_witness:
  "\<exists>p b' i. ring_add two_entries \<lparr>buffptr = Ptr 7, entry_size = 4\<rparr> = returns (p, b') \<and>
    ring_find b' 10 = returns (Some (i, 2)) \<and> arr_get (entry b') i = returns \<lparr>buffptr = Ptr 7, entry_size = 4\<rparr>"
  using added_entry_found [OF two_entries_wf, of "\<lparr>buffptr = Ptr 7, entry_size = 4\<rparr>" 2]
  by (auto simp: two_entries_list)

end
