(* ===== verification/Kernel_API.thy ===== *)
theory Kernel_API
  imports Prelude
begin

text \<open>
  The services of the Linux kernel that the character driver calls. They are not part of the
  repository, so they are a parameter: a record of functions, \<open>kernel\<close>, that every driver
  operation takes as an argument. What the driver relies on is \<open>kernel_laws\<close>, their documented
  behaviour. The theory also holds the kernel heap and the user memory these services act on,
  the checked accesses to a heap block, and \<open>small_kernel\<close>, a concrete executable
  instance for which all laws hold.
\<close>

section \<open>Memory\<close>

text \<open>
  The kernel heap maps the address of an allocated block to its bytes; user memory maps an
  accessible address to its byte. Address 0 is \<open>NULL\<close>.
\<close>

type_synonym kheap = "nat \<Rightarrow> byte list option"
type_synonym umem = "nat \<Rightarrow> byte option"

definition heap_read :: "kheap \<Rightarrow> ptr \<Rightarrow> nat \<Rightarrow> nat \<Rightarrow> byte list comp" where
  "heap_read h p off n =
     (case p of
        Null \<Rightarrow> if n = 0 then returns [] else fails Null_Deref
      | Zero_Size \<Rightarrow> if n = 0 then returns [] else fails Out_Of_Bounds
      | Ptr a \<Rightarrow> (case h a of
                   None \<Rightarrow> fails Use_After_Free
                 | Some blk \<Rightarrow> if off + n \<le> length blk then returns (take n (drop off blk))
                               else fails Out_Of_Bounds))"

definition heap_write :: "kheap \<Rightarrow> ptr \<Rightarrow> nat \<Rightarrow> byte list \<Rightarrow> kheap comp" where
  "heap_write h p off bs =
     (case p of
        Null \<Rightarrow> if bs = [] then returns h else fails Null_Deref
      | Zero_Size \<Rightarrow> if bs = [] then returns h else fails Out_Of_Bounds
      | Ptr a \<Rightarrow> (case h a of
                   None \<Rightarrow> fails Use_After_Free
                 | Some blk \<Rightarrow>
                     if off + length bs \<le> length blk
                     then returns (h(a \<mapsto> take off blk @ bs @ drop (off + length bs) blk))
                     else fails Out_Of_Bounds))"

text \<open>The bytes at \<open>n\<close> consecutive user addresses, and storing bytes there.\<close>

definition user_bytes :: "umem \<Rightarrow> nat \<Rightarrow> byte list \<Rightarrow> bool" where
  "user_bytes m u bs \<longleftrightarrow> (\<forall>i<length bs. m (u + i) = Some (bs ! i))"

definition user_store :: "umem \<Rightarrow> nat \<Rightarrow> byte list \<Rightarrow> umem" where
  "user_store m u bs = (\<lambda>a. if u \<le> a \<and> a < u + length bs then Some (bs ! (a - u)) else m a)"

section \<open>The services\<close>

text \<open>
  \<open>copy_from_user\<close> and \<open>copy_to_user\<close> answer with the number of bytes they could not copy;
  the former also with the new contents of the kernel buffer, the latter with the new user
  memory. \<open>fixed_size_llseek\<close> takes the file position, the offset, \<open>whence\<close> and the size.
\<close>

record kernel =
  kmalloc :: "kheap \<Rightarrow> u64 \<Rightarrow> ptr \<times> kheap"
  krealloc :: "kheap \<Rightarrow> ptr \<Rightarrow> u64 \<Rightarrow> ptr \<times> kheap"
  kfree :: "kheap \<Rightarrow> ptr \<Rightarrow> kheap"
  copy_from_user :: "umem \<Rightarrow> nat \<Rightarrow> u64 \<Rightarrow> u64 \<times> byte list"
  copy_to_user :: "umem \<Rightarrow> nat \<Rightarrow> byte list \<Rightarrow> u64 \<times> umem"
  fixed_size_llseek :: "i64 \<Rightarrow> i64 \<Rightarrow> i32 \<Rightarrow> i64 \<Rightarrow> i64"

definition KMALLOC_MAX_SIZE :: nat where
  "KMALLOC_MAX_SIZE = 2 ^ 32"

text \<open>
  A fresh allocation of \<open>n > 0\<close> bytes: \<open>NULL\<close> with nothing changed, or a block that was
  not allocated, with unspecified contents, and no larger than the allocator can serve.
\<close>

definition fresh_block :: "kheap \<Rightarrow> nat \<Rightarrow> ptr \<times> kheap \<Rightarrow> bool" where
  "fresh_block h n r \<longleftrightarrow>
     (case r of
        (Null, h') \<Rightarrow> h' = h
      | (Zero_Size, h') \<Rightarrow> False
      | (Ptr a, h') \<Rightarrow> h a = None \<and> n \<le> KMALLOC_MAX_SIZE \<and> (\<exists>blk. length blk = n \<and> h' = h(a \<mapsto> blk)))"

text \<open>
  Reallocation to \<open>n > 0\<close> bytes of the block \<open>blk\<close> at \<open>a\<close>: \<open>NULL\<close> with nothing changed
  (the old block stays allocated), or a block, moved or not, that keeps the old contents up to
  the smaller of the two lengths.
\<close>

definition moved_block :: "kheap \<Rightarrow> nat \<Rightarrow> byte list \<Rightarrow> nat \<Rightarrow> ptr \<times> kheap \<Rightarrow> bool" where
  "moved_block h a blk n r \<longleftrightarrow>
     (case r of
        (Null, h') \<Rightarrow> h' = h
      | (Zero_Size, h') \<Rightarrow> False
      | (Ptr a', h') \<Rightarrow> (a' = a \<or> h a' = None) \<and> n \<le> KMALLOC_MAX_SIZE \<and>
          (\<exists>blk'. length blk' = n \<and> take (length blk) blk' = take n blk \<and>
                  h' = (h(a := None))(a' \<mapsto> blk')))"

definition kernel_laws :: "kernel \<Rightarrow> bool" where
  "kernel_laws K \<longleftrightarrow>
     (\<forall>h n. if n = 0 then kmalloc K h n = (Zero_Size, h) else fresh_block h (unat n) (kmalloc K h n)) \<and>
     (\<forall>h p. krealloc K h p 0 = (Zero_Size, kfree K h p)) \<and>
     (\<forall>h n. n \<noteq> 0 \<longrightarrow> fresh_block h (unat n) (krealloc K h Null n) \<and>
                       fresh_block h (unat n) (krealloc K h Zero_Size n)) \<and>
     (\<forall>h a blk n. n \<noteq> 0 \<longrightarrow> h a = Some blk \<longrightarrow> moved_block h a blk (unat n) (krealloc K h (Ptr a) n)) \<and>
     (\<forall>h. kfree K h Null = h \<and> kfree K h Zero_Size = h) \<and>
     (\<forall>h a. h a \<noteq> None \<longrightarrow> kfree K h (Ptr a) = h(a := None)) \<and>
     (\<forall>m u n left bs. copy_from_user K m u n = (left, bs) \<longrightarrow>
        length bs = unat n \<and> (left = 0 \<longrightarrow> user_bytes m u bs)) \<and>
     (\<forall>m u bs left m'. copy_to_user K m u bs = (left, m') \<longrightarrow> left = 0 \<longrightarrow> m' = user_store m u bs)"

text \<open>
  The documented results of \<open>fixed_size_llseek\<close> for the three classical \<open>whence\<close> values and a
  size that is not negative: the new position if it lies between 0 and the size, an error number
  otherwise; \<open>SEEK_CUR\<close> with offset 0 only reports the position.
\<close>

definition seek_law :: "kernel \<Rightarrow> bool" where
  "seek_law K \<longleftrightarrow>
     (\<forall>pos off size. 0 \<le> sint size \<longrightarrow>
        (let within = (\<lambda>t. if 0 \<le> t \<and> t \<le> sint size then word_of_int t else - (22 :: i64))
         in fixed_size_llseek K pos off 0 size = within (sint off) \<and>
            fixed_size_llseek K pos off 1 size =
              (if off = 0 then pos else within (sint (pos + off))) \<and>
            fixed_size_llseek K pos off 2 size = within (sint (size + off))))"

section \<open>Checked calls\<close>

text \<open>Freeing or reallocating a pointer that is not an allocated block is undefined.\<close>

definition live :: "kheap \<Rightarrow> ptr \<Rightarrow> bool" where
  "live h p \<longleftrightarrow> (case p of Ptr a \<Rightarrow> h a \<noteq> None | _ \<Rightarrow> True)"

definition call_kfree :: "kernel \<Rightarrow> kheap \<Rightarrow> ptr \<Rightarrow> kheap comp" where
  "call_kfree K h p = (if live h p then returns (kfree K h p) else fails Invalid_Free)"

definition call_krealloc :: "kernel \<Rightarrow> kheap \<Rightarrow> ptr \<Rightarrow> u64 \<Rightarrow> (ptr \<times> kheap) comp" where
  "call_krealloc K h p n = (if live h p then returns (krealloc K h p n) else fails Invalid_Free)"

section \<open>The laws, in the form the proofs use\<close>

text \<open>The bytes behind a pointer, and the heap without them.\<close>

definition block_of :: "kheap \<Rightarrow> ptr \<Rightarrow> byte list" where
  "block_of h p = (case p of Ptr a \<Rightarrow> the (h a) | _ \<Rightarrow> [])"

definition unmap :: "kheap \<Rightarrow> ptr \<Rightarrow> kheap" where
  "unmap h p = (case p of Ptr a \<Rightarrow> h(a := None) | _ \<Rightarrow> h)"

lemma block_of_simps [simp]:
  "block_of h Null = []" "block_of h Zero_Size = []" "block_of h (Ptr a) = the (h a)"
  by (simp_all add: block_of_def)

lemma unmap_simps [simp]:
  "unmap h Null = h" "unmap h Zero_Size = h" "unmap h (Ptr a) = h(a := None)"
  by (simp_all add: unmap_def)

lemma live_simps [simp]:
  "live h Null" "live h Zero_Size" "live h (Ptr a) \<longleftrightarrow> h a \<noteq> None"
  by (simp_all add: live_def)

lemma kmalloc_cases:
  assumes "kernel_laws K"
  obtains "kmalloc K h n = (Null, h)" and "n \<noteq> 0"
  | "kmalloc K h n = (Zero_Size, h)" and "n = 0"
  | a blk where "kmalloc K h n = (Ptr a, h(a \<mapsto> blk))" and "h a = None" and "length blk = unat n"
      and "unat n \<le> KMALLOC_MAX_SIZE" and "n \<noteq> 0"
proof (cases "n = 0")
  case True
  with assms that(2) show thesis by (simp add: kernel_laws_def)
next
  case False
  with assms have "fresh_block h (unat n) (kmalloc K h n)" by (simp add: kernel_laws_def)
  with False that show thesis
    by (cases "kmalloc K h n") (auto simp: fresh_block_def split: ptr.splits)
qed

lemma call_kfree_live:
  "kernel_laws K \<Longrightarrow> live h p \<Longrightarrow> call_kfree K h p = returns (unmap h p)"
  by (cases p) (simp_all add: call_kfree_def kernel_laws_def)

lemma call_krealloc_cases:
  assumes "kernel_laws K" and "live h p"
  obtains "call_krealloc K h p n = returns (Null, h)" and "n \<noteq> 0"
  | "call_krealloc K h p n = returns (Zero_Size, unmap h p)" and "n = 0"
  | a blk where "call_krealloc K h p n = returns (Ptr a, (unmap h p)(a \<mapsto> blk))"
      and "unmap h p a = None" and "length blk = unat n" and "unat n \<le> KMALLOC_MAX_SIZE"
      and "take (length (block_of h p)) blk = take (unat n) (block_of h p)" and "n \<noteq> 0"
proof (cases "n = 0")
  case True
  moreover have "kfree K h p = unmap h p"
    using assms call_kfree_live [OF assms] by (simp add: call_kfree_def)
  ultimately show thesis using assms that(2) by (simp add: call_krealloc_def kernel_laws_def)
next
  case False
  show thesis
  proof (cases p)
    case (Ptr b)
    with assms(2) obtain bb where bb: "h b = Some bb" by auto
    with assms(1) False have "moved_block h b bb (unat n) (krealloc K h (Ptr b) n)"
      by (simp add: kernel_laws_def)
    with False Ptr bb that show thesis
      by (cases "krealloc K h (Ptr b) n")
        (auto simp: moved_block_def call_krealloc_def split: ptr.splits)
  next
    case Null
    with assms(1) False have "fresh_block h (unat n) (krealloc K h p n)" by (simp add: kernel_laws_def)
    with False Null that show thesis
      by (cases "krealloc K h p n") (auto simp: fresh_block_def call_krealloc_def split: ptr.splits)
  next
    case Zero_Size
    with assms(1) False have "fresh_block h (unat n) (krealloc K h p n)" by (simp add: kernel_laws_def)
    with False Zero_Size that show thesis
      by (cases "krealloc K h p n") (auto simp: fresh_block_def call_krealloc_def split: ptr.splits)
  qed
qed

lemma copy_from_user_law:
  "kernel_laws K \<Longrightarrow> copy_from_user K m u n = (left, bs) \<Longrightarrow>
   length bs = unat n \<and> (left = 0 \<longrightarrow> user_bytes m u bs)"
  unfolding kernel_laws_def by blast

lemma copy_to_user_law:
  "kernel_laws K \<Longrightarrow> copy_to_user K m u bs = (0, m') \<Longrightarrow> m' = user_store m u bs"
  unfolding kernel_laws_def by blast

lemma heap_read_block:
  "h a = Some blk \<Longrightarrow> off + n \<le> length blk \<Longrightarrow> heap_read h (Ptr a) off n = returns (take n (drop off blk))"
  by (simp add: heap_read_def)

lemma heap_write_block:
  "h a = Some blk \<Longrightarrow> off + length bs \<le> length blk \<Longrightarrow>
   heap_write h (Ptr a) off bs = returns (h(a \<mapsto> take off blk @ bs @ drop (off + length bs) blk))"
  by (simp add: heap_write_def)

lemma user_bytes_unique:
  "user_bytes m u bs \<Longrightarrow> user_bytes m u cs \<Longrightarrow> length bs = length cs \<Longrightarrow> bs = cs"
  by (auto simp: user_bytes_def intro!: nth_equalityI)

lemma user_bytes_store [simp]: "user_bytes (user_store m u bs) u bs"
  by (simp add: user_bytes_def user_store_def)

section \<open>A concrete kernel\<close>

text \<open>
  An executable instance: at most 63 blocks, reallocation in place, copies that succeed exactly
  when all user addresses are accessible.
\<close>

definition small_kmalloc :: "kheap \<Rightarrow> u64 \<Rightarrow> ptr \<times> kheap" where
  "small_kmalloc h n =
     (if n = 0 then (Zero_Size, h)
      else if 4294967296 < n then (Null, h)
      else case find (\<lambda>a. h a = None) [1..<64] of
             None \<Rightarrow> (Null, h)
           | Some a \<Rightarrow> (Ptr a, h(a \<mapsto> replicate (unat n) nul)))"

definition small_krealloc :: "kheap \<Rightarrow> ptr \<Rightarrow> u64 \<Rightarrow> ptr \<times> kheap" where
  "small_krealloc h p n =
     (if n = 0 then (Zero_Size, unmap h p)
      else case p of
             Ptr a \<Rightarrow> (case h a of
                         None \<Rightarrow> (Null, h)
                       | Some blk \<Rightarrow>
                           if 4294967296 < n then (Null, h)
                           else (Ptr a, h(a \<mapsto> take (unat n) blk @ replicate (unat n - length blk) nul)))
           | _ \<Rightarrow> small_kmalloc h n)"

definition small_copy_from_user :: "umem \<Rightarrow> nat \<Rightarrow> u64 \<Rightarrow> u64 \<times> byte list" where
  "small_copy_from_user m u n =
     (if list_all (\<lambda>i. m (u + i) \<noteq> None) [0..<unat n]
      then (0, map (\<lambda>i. the (m (u + i))) [0..<unat n])
      else (n, replicate (unat n) nul))"

definition small_copy_to_user :: "umem \<Rightarrow> nat \<Rightarrow> byte list \<Rightarrow> u64 \<times> umem" where
  "small_copy_to_user m u bs =
     (if list_all (\<lambda>i. m (u + i) \<noteq> None) [0..<length bs]
      then (0, user_store m u bs) else (1, m))"

definition small_llseek :: "i64 \<Rightarrow> i64 \<Rightarrow> i32 \<Rightarrow> i64 \<Rightarrow> i64" where
  "small_llseek pos off wh sz =
     (let within = (\<lambda>t. if 0 \<le> t \<and> t \<le> sint sz then word_of_int t else - (22 :: i64))
      in if wh = 0 then within (sint off)
         else if wh = 1 then (if off = 0 then pos else within (sint (pos + off)))
         else if wh = 2 then within (sint (sz + off))
         else - 22)"

definition small_kernel :: kernel where
  "small_kernel = \<lparr>kmalloc = small_kmalloc, krealloc = small_krealloc, kfree = unmap,
     copy_from_user = small_copy_from_user, copy_to_user = small_copy_to_user,
     fixed_size_llseek = small_llseek\<rparr>"

lemma small_limit: "\<not> (4294967296 :: u64) < n \<Longrightarrow> unat n \<le> KMALLOC_MAX_SIZE"
  by (simp add: KMALLOC_MAX_SIZE_def word_less_nat_alt)

lemma small_kmalloc_fresh: "n \<noteq> 0 \<Longrightarrow> fresh_block h (unat n) (small_kmalloc h n)"
  by (auto simp: fresh_block_def small_kmalloc_def find_Some_iff small_limit split: option.splits ptr.splits
      intro!: exI [of _ "replicate (unat n) nul"])

lemma take_resized: "take (length xs) (take n xs @ replicate (n - length xs) c) = take n xs"
  by (cases "n \<le> length xs") simp_all

lemma small_krealloc_moved:
  "n \<noteq> 0 \<Longrightarrow> h a = Some blk \<Longrightarrow> moved_block h a blk (unat n) (small_krealloc h (Ptr a) n)"
  by (auto simp: moved_block_def small_krealloc_def take_resized small_limit simp del: take_append
      intro!: exI [of _ "take (unat n) blk @ replicate (unat n - length blk) nul"])

lemma small_kernel_laws: "kernel_laws small_kernel"
  unfolding kernel_laws_def
proof (intro conjI)
  show "\<forall>h n. if n = 0 then kmalloc small_kernel h n = (Zero_Size, h)
          else fresh_block h (unat n) (kmalloc small_kernel h n)"
    by (auto simp: small_kernel_def small_kmalloc_fresh) (simp add: small_kmalloc_def)
  show "\<forall>h n. n \<noteq> 0 \<longrightarrow> fresh_block h (unat n) (krealloc small_kernel h Null n) \<and>
                     fresh_block h (unat n) (krealloc small_kernel h Zero_Size n)"
    using small_kmalloc_fresh by (auto simp: small_kernel_def small_krealloc_def)
  show "\<forall>h a blk n. n \<noteq> 0 \<longrightarrow> h a = Some blk \<longrightarrow>
          moved_block h a blk (unat n) (krealloc small_kernel h (Ptr a) n)"
    by (auto simp: small_kernel_def small_krealloc_moved)
qed (auto simp: small_kernel_def small_krealloc_def small_copy_from_user_def small_copy_to_user_def
      user_bytes_def list_all_iff split: if_splits)

lemma small_kernel_seek: "seek_law small_kernel"
  by (simp add: seek_law_def small_kernel_def small_llseek_def Let_def)

end
