(* ===== verification/Char_Driver.thy ===== *)
theory Char_Driver
  imports Circular_Buffer Kernel_API
begin

text \<open>
  The character driver \<open>/dev/aesdchar\<close> (\<open>aesd-char-driver/main.c\<close>, \<open>aesdchar.h\<close>,
  \<open>aesd_ioctl.h\<close>): its device structure, every file operation and the module's load and
  unload functions, each with all its guards, error returns, allocations, frees and lock calls in
  the order of the code. The kernel's services are the parameter \<open>K\<close> of type \<open>kernel\<close>.
  The theory also holds the device invariant and the lemmas that no operation runs into a fault.
\<close>

unbundle bit_operations_syntax

section \<open>Data\<close>

abbreviation EPERM :: i64 where "EPERM \<equiv> 1"
abbreviation ENOMEM :: i64 where "ENOMEM \<equiv> 12"
abbreviation EFAULT :: i64 where "EFAULT \<equiv> 14"
abbreviation EINVAL :: i64 where "EINVAL \<equiv> 22"
abbreviation ENOTTY :: i64 where "ENOTTY \<equiv> 25"
abbreviation ERESTARTSYS :: i64 where "ERESTARTSYS \<equiv> 512"

text \<open>
  The device: \<open>buf_mutex\<close> is whether the mutex is held. The open file: there is one device, so
  \<open>private_data\<close> is whether the pointer to it is set. The whole state a call works on is the
  device, the kernel heap and the memory of the calling process.
\<close>

record aesd_dev =
  buf_mutex :: bool
  buffer :: aesd_circular_buffer
  working_entry :: aesd_buffer_entry

record open_file =
  private_data :: bool
  f_pos :: i64

record kworld =
  device :: aesd_dev
  heap :: kheap
  umem :: umem

record aesd_seekto =
  write_cmd :: u32
  write_cmd_offset :: u32

text \<open>
  The request number \<open>_IOWR(AESD_IOC_MAGIC, 1, struct aesd_seekto)\<close>: direction, argument size
  (two \<open>uint32_t\<close>), type and number, packed as Linux packs them.
\<close>

definition IOWR :: "u32 \<Rightarrow> u32 \<Rightarrow> u32 \<Rightarrow> u32" where
  "IOWR type nr size_bytes = push_bit 30 3 OR push_bit 16 size_bytes OR push_bit 8 type OR nr"

definition AESD_IOC_MAGIC :: u32 where
  "AESD_IOC_MAGIC = 0x16"

definition AESDCHAR_IOCSEEKTO :: u32 where
  "AESDCHAR_IOCSEEKTO = IOWR AESD_IOC_MAGIC 1 8"

section \<open>The mutex\<close>

text \<open>
  \<open>mutex_lock_interruptible\<close> answers non-zero (here \<^const>\<open>True\<close>) when a signal arrives
  while waiting, which the argument \<open>intr\<close> decides. Here each call is one function, so a mutex
  that is held at the call is held by the caller; \<open>Driver_Concurrency\<close> lets calls wait for it.
\<close>

definition mutex_lock_interruptible :: "bool \<Rightarrow> kworld \<Rightarrow> (bool \<times> kworld) comp" where
  "mutex_lock_interruptible intr w =
     (if intr then returns (True, w)
      else if buf_mutex (device w) then fails Deadlock
      else returns (False, w\<lparr>device := (device w)\<lparr>buf_mutex := True\<rparr>\<rparr>))"

definition mutex_unlock :: "kworld \<Rightarrow> kworld comp" where
  "mutex_unlock w =
     (if buf_mutex (device w) then returns (w\<lparr>device := (device w)\<lparr>buf_mutex := False\<rparr>\<rparr>)
      else fails Not_Locked)"

lemmas mutex_defs [locking] = mutex_lock_interruptible_def mutex_unlock_def

section \<open>File operations\<close>

text \<open>\<open>aesd_open\<close> finds the device from the inode and stores it in the file.\<close>

definition aesd_open :: "open_file \<Rightarrow> i32 \<times> open_file" where
  "aesd_open filp = (0, filp\<lparr>private_data := True\<rparr>)"

definition aesd_release :: "open_file \<Rightarrow> i32 \<times> open_file" where
  "aesd_release filp = (0, filp)"

text \<open>
  \<open>aesd_read\<close> answers with its return value, the new \<open>*f_pos\<close> and the new state. \<open>filp\<close>
  may be \<open>NULL\<close> (\<^const>\<open>None\<close>), the user address \<open>buf\<close> may be 0.
\<close>

definition aesd_read ::
  "kernel \<Rightarrow> bool \<Rightarrow> open_file option \<Rightarrow> nat \<Rightarrow> u64 \<Rightarrow> i64 \<Rightarrow> kworld \<Rightarrow> (i64 \<times> i64 \<times> kworld) comp" where
  "aesd_read K intr filp buf cnt fpos w =
     (if filp = None \<or> buf = 0 then returns (- EINVAL, fpos, w)
      else if \<not> private_data (the filp) then returns (- EPERM, fpos, w)
      else bindC (mutex_lock_interruptible intr w) (\<lambda>(err, w1).
        if err then returns (- ERESTARTSYS, fpos, w1)
        else bindC (aesd_circular_buffer_find_entry_offset_for_fpos
                      (Some (buffer (device w1))) fpos (Some 0)) (\<lambda>r.
          case r of
            (Some i, Some ret_offset) \<Rightarrow>
              bindC (arr_get (entry (buffer (device w1))) i) (\<lambda>ret_entry.
                let bytes_left_in_entry = entry_size ret_entry - ret_offset;
                    bytes_to_read_out = (if bytes_left_in_entry > cnt then cnt
                                         else bytes_left_in_entry)
                in bindC (heap_read (heap w1) (buffptr ret_entry) (unat ret_offset)
                            (unat bytes_to_read_out)) (\<lambda>bs.
                     let (not_copied, m) = copy_to_user K (umem w1) buf bs;
                         w2 = w1\<lparr>umem := m\<rparr>
                     in if not_copied \<noteq> 0
                        then bindC (mutex_unlock w2) (\<lambda>w3. returns (- EFAULT, fpos, w3))
                        else bindC (mutex_unlock w2) (\<lambda>w3.
                               returns (bytes_to_read_out, fpos + bytes_to_read_out, w3))))
          | _ \<Rightarrow> bindC (mutex_unlock w1) (\<lambda>w2. returns (0, fpos, w2)))))"

text \<open>
  The part of \<open>aesd_write\<close> that enlarges the working entry and appends the new bytes to it.
  \<open>krealloc\<close>'s result is stored before it is tested.
\<close>

definition append_working :: "kernel \<Rightarrow> ptr \<Rightarrow> u64 \<Rightarrow> kworld \<Rightarrow> (bool \<times> kworld) comp" where
  "append_working K write_buf bytes_to_write w =
     (let we = working_entry (device w)
      in bindC (call_krealloc K (heap w) (buffptr we) (entry_size we + bytes_to_write)) (\<lambda>(p, h1).
           let w1 = w\<lparr>heap := h1, device := (device w)\<lparr>working_entry := we\<lparr>buffptr := p\<rparr>\<rparr>\<rparr>
           in if p = Null then returns (False, w1)
              else bindC (heap_read h1 write_buf 0 (unat bytes_to_write)) (\<lambda>bs.
                   bindC (heap_write h1 p (unat (entry_size we)) bs) (\<lambda>h2.
                     returns (True, w1\<lparr>heap := h2, device := (device w1)\<lparr>working_entry :=
                       \<lparr>buffptr = p, entry_size = entry_size we + bytes_to_write\<rparr>\<rparr>\<rparr>)))))"

text \<open>
  The part that moves a complete command into the circular buffer, frees the command it replaces
  and empties the working entry.
\<close>

definition commit_working :: "kernel \<Rightarrow> kworld \<Rightarrow> kworld comp" where
  "commit_working K w =
     (let new_entry = \<lparr>buffptr = buffptr (working_entry (device w)),
                       entry_size = entry_size (working_entry (device w))\<rparr>
      in bindC (ring_add (buffer (device w)) new_entry) (\<lambda>(ret_buf, b).
         bindC (if ret_buf \<noteq> Null then call_kfree K (heap w) ret_buf else returns (heap w)) (\<lambda>h.
           returns (w\<lparr>heap := h, device := (device w)\<lparr>buffer := b,
             working_entry := \<lparr>buffptr = Null, entry_size = 0\<rparr>\<rparr>\<rparr>))))"

definition aesd_write ::
  "kernel \<Rightarrow> bool \<Rightarrow> open_file option \<Rightarrow> nat \<Rightarrow> u64 \<Rightarrow> i64 \<Rightarrow> kworld \<Rightarrow> (i64 \<times> i64 \<times> kworld) comp" where
  "aesd_write K intr filp buf cnt fpos w =
     (if filp = None \<or> buf = 0 then returns (- EINVAL, fpos, w)
      else let (write_buf, h1) = kmalloc K (heap w) cnt;
               w1 = w\<lparr>heap := h1\<rparr>
      in if write_buf = Null then returns (- ENOMEM, fpos, w1)
      else if \<not> private_data (the filp) then returns (- EPERM, fpos, w1)
      else let (not_copied, bs) = copy_from_user K (umem w1) buf cnt
      in bindC (heap_write (heap w1) write_buf 0 bs) (\<lambda>h2.
         let w2 = w1\<lparr>heap := h2\<rparr>
         in if not_copied \<noteq> 0
            then bindC (call_kfree K (heap w2) write_buf) (\<lambda>h.
                   returns (- EFAULT, fpos, w2\<lparr>heap := h\<rparr>))
            else bindC (heap_read (heap w2) write_buf 0 (unat cnt)) (\<lambda>data.
              let new_line_found = memchr data newline;
                  bytes_to_write = (case new_line_found of Some i \<Rightarrow> 1 + of_nat i | None \<Rightarrow> cnt)
              in bindC (mutex_lock_interruptible intr w2) (\<lambda>(err, w3).
                if err
                then bindC (call_kfree K (heap w3) write_buf) (\<lambda>h.
                       returns (- ERESTARTSYS, fpos, w3\<lparr>heap := h\<rparr>))
                else bindC (append_working K write_buf bytes_to_write w3) (\<lambda>(appended, w4).
                  if \<not> appended
                  then bindC (mutex_unlock w4) (\<lambda>w5.
                       bindC (call_kfree K (heap w5) write_buf) (\<lambda>h.
                         returns (- ENOMEM, fpos, w5\<lparr>heap := h\<rparr>)))
                  else bindC (if new_line_found \<noteq> None then commit_working K w4 else returns w4) (\<lambda>w5.
                       bindC (mutex_unlock w5) (\<lambda>w6.
                       bindC (call_kfree K (heap w6) write_buf) (\<lambda>h.
                         returns (cnt, fpos + cnt, w6\<lparr>heap := h\<rparr>)))))))))"

text \<open>
  \<open>aesd_llseek\<close> answers with its return value, the file (whose \<open>f_pos\<close> it sets) and the new
  state.
\<close>

definition aesd_llseek ::
  "kernel \<Rightarrow> bool \<Rightarrow> open_file option \<Rightarrow> i64 \<Rightarrow> i32 \<Rightarrow> kworld \<Rightarrow> (i64 \<times> open_file option \<times> kworld) comp" where
  "aesd_llseek K intr filp off whence w =
     (case filp of
        None \<Rightarrow> returns (- EINVAL, None, w)
      | Some f \<Rightarrow>
          if \<not> private_data f then returns (- EPERM, filp, w)
          else bindC (mutex_lock_interruptible intr w) (\<lambda>(err, w1).
            if err then returns (- ERESTARTSYS, filp, w1)
            else bindC (AESD_CIRCULAR_BUFFER_FOREACH (buffer (device w1))
                          (\<lambda>buf_size e. returns (buf_size + entry_size e)) 0) (\<lambda>buf_size.
              let seek = fixed_size_llseek K (f_pos f) off whence buf_size;
                  retval = (if sint seek < 0 then - EINVAL else seek);
                  f' = (if sint seek < 0 then f else f\<lparr>f_pos := seek\<rparr>)
              in bindC (mutex_unlock w1) (\<lambda>w2. returns (retval, Some f', w2)))))"

text \<open>The argument structure as it lies in memory: two little-endian 32-bit numbers.\<close>

definition le32 :: "byte list \<Rightarrow> u32" where
  "le32 bs = foldr (\<lambda>b acc. word_of_nat (of_char b) + 256 * acc) bs 0"

definition seekto_of_bytes :: "byte list \<Rightarrow> aesd_seekto" where
  "seekto_of_bytes bs = \<lparr>write_cmd = le32 (take 4 bs), write_cmd_offset = le32 (take 4 (drop 4 bs))\<rparr>"

text \<open>The loop of \<open>aesd_ioctl\<close> that adds up the sizes of the slots before the wanted one.\<close>

function sum_slots :: "aesd_circular_buffer \<Rightarrow> nat \<Rightarrow> nat \<Rightarrow> i64 \<Rightarrow> i64 comp" where
  "sum_slots b buf_idx cmd offset =
     (if buf_idx < cmd
      then bindC (arr_get (entry b) buf_idx) (\<lambda>e. sum_slots b (Suc buf_idx) cmd (offset + entry_size e))
      else returns offset)"
  by pat_completeness auto
termination
  by (relation "measure (\<lambda>(b, buf_idx, cmd, offset). cmd - buf_idx)") auto

declare sum_slots.simps [simp del]

definition aesd_ioctl ::
  "kernel \<Rightarrow> bool \<Rightarrow> open_file option \<Rightarrow> u32 \<Rightarrow> u64 \<Rightarrow> kworld \<Rightarrow> (i64 \<times> open_file option \<times> kworld) comp" where
  "aesd_ioctl K intr filp cmd arg w =
     (case filp of
        None \<Rightarrow> returns (- EINVAL, None, w)
      | Some f \<Rightarrow>
          if \<not> private_data f then returns (- EPERM, filp, w)
          else if cmd \<noteq> AESDCHAR_IOCSEEKTO then returns (- ENOTTY, filp, w)
          else let (not_copied, bs) = copy_from_user K (umem w) (unat arg) 8
          in if not_copied \<noteq> 0 then returns (- EFAULT, filp, w)
          else let seek_to = seekto_of_bytes bs
          in bindC (mutex_lock_interruptible intr w) (\<lambda>(err, w1).
            if err then returns (- ERESTARTSYS, filp, w1)
            else bindC (if unat (write_cmd seek_to) > AESDCHAR_MAX_WRITE_OPERATIONS_SUPPORTED
                        then returns True
                        else bindC (arr_get (entry (buffer (device w1))) (unat (write_cmd seek_to))) (\<lambda>e.
                               returns (ucast (write_cmd_offset seek_to) \<ge> entry_size e))) (\<lambda>out_of_range.
              if out_of_range
              then bindC (mutex_unlock w1) (\<lambda>w2. returns (- EINVAL, filp, w2))
              else bindC (sum_slots (buffer (device w1)) 0 (unat (write_cmd seek_to)) 0) (\<lambda>offset.
                   bindC (mutex_unlock w1) (\<lambda>w2.
                     returns (0, Some (f\<lparr>f_pos := offset + ucast (write_cmd_offset seek_to)\<rparr>), w2))))))"

section \<open>Loading and unloading the module\<close>

text \<open>
  The module's own state beside the device: the device number it obtained and whether the number
  region and the \<open>cdev\<close> are registered with the kernel.
\<close>

record module = kworld +
  aesd_major :: u32
  region_registered :: bool
  cdev_registered :: bool

text \<open>\<open>cdev_err\<close> is the answer of \<open>cdev_add\<close>.\<close>

definition aesd_setup_cdev :: "i32 \<Rightarrow> module \<Rightarrow> i32 \<times> module" where
  "aesd_setup_cdev cdev_err m = (cdev_err, if cdev_err = 0 then m\<lparr>cdev_registered := True\<rparr> else m)"

text \<open>
  \<open>alloc_result\<close> and \<open>dev\<close> are the answers of \<open>alloc_chrdev_region\<close>; a major number is
  the device number without its 20 low bits. A device structure of all-zero bytes has an unlocked
  mutex, an empty buffer and an empty working entry.
\<close>

definition zero_device :: aesd_dev where
  "zero_device = \<lparr>buf_mutex = False,
     buffer = \<lparr>entry = replicate AESDCHAR_MAX_WRITE_OPERATIONS_SUPPORTED zero_entry,
               in_offs = 0, out_offs = 0, full = False\<rparr>,
     working_entry = zero_entry\<rparr>"

definition aesd_init_module :: "i32 \<Rightarrow> u32 \<Rightarrow> i32 \<Rightarrow> module \<Rightarrow> i32 \<times> module" where
  "aesd_init_module alloc_result dev cdev_err m =
     (let m1 = m\<lparr>aesd_major := drop_bit 20 dev\<rparr>
      in if sint alloc_result < 0 then (alloc_result, m1)
      else let m2 = m1\<lparr>region_registered := True, device := zero_device\<rparr>;
               m3 = m2\<lparr>device := (device m2)\<lparr>buf_mutex := False\<rparr>\<rparr>;
               m4 = m3\<lparr>device := (device m3)\<lparr>buffer := aesd_circular_buffer_init (buffer (device m3))\<rparr>\<rparr>;
               (result, m5) = aesd_setup_cdev cdev_err m4
      in if result \<noteq> 0 then (result, m5\<lparr>region_registered := False\<rparr>) else (result, m5))"

definition aesd_cleanup_module :: "kernel \<Rightarrow> module \<Rightarrow> module comp" where
  "aesd_cleanup_module K m =
     (let m1 = m\<lparr>cdev_registered := False\<rparr>;
          m2 = m1\<lparr>device := (device m1)\<lparr>working_entry := (working_entry (device m1))\<lparr>buffptr := Null\<rparr>\<rparr>\<rparr>
      in bindC (AESD_CIRCULAR_BUFFER_FOREACH (buffer (device m2))
                  (\<lambda>h e. call_kfree K h (buffptr e)) (heap m2)) (\<lambda>h.
           returns (m2\<lparr>heap := h, region_registered := False\<rparr>)))"

end
