(* ===== verification/Driver_Invariant.thy ===== *)
theory Driver_Invariant
  imports Char_Driver
begin

text \<open>
  The invariant of the character device between calls: a well-formed ring, whose entries own
  distinct, live heap blocks of exactly the recorded length, and a working entry that either owns
  such a block or none. From it follow, for every operation, that no fault occurs, that the mutex
  is released on every path and which heap blocks are allocated and freed.
\<close>

section \<open>The invariant\<close>

definition entry_ok :: "kheap \<Rightarrow> aesd_buffer_entry \<Rightarrow> bool" where
  "entry_ok h e \<longleftrightarrow> (\<exists>a blk. buffptr e = Ptr a \<and> h a = Some blk \<and> length blk = esize e \<and> blk \<noteq> [] \<and>
                          esize e \<le> KMALLOC_MAX_SIZE)"

text \<open>
  After a failed reallocation the working entry has lost its block but kept its size; that state
  is part of the invariant too.
\<close>

definition working_ok :: "kheap \<Rightarrow> aesd_buffer_entry \<Rightarrow> bool" where
  "working_ok h e \<longleftrightarrow> entry_ok h e \<or> (buffptr e = Zero_Size \<and> entry_size e = 0) \<or>
                      (buffptr e = Null \<and> esize e \<le> KMALLOC_MAX_SIZE)"

text \<open>The heap addresses the device owns, and the rest of the heap.\<close>

definition ring_addrs :: "aesd_dev \<Rightarrow> nat list" where
  "ring_addrs d = concat (map (ptr_addrs \<circ> buffptr) (ring_list (buffer d)))"

definition owned :: "aesd_dev \<Rightarrow> nat list" where
  "owned d = ring_addrs d @ ptr_addrs (buffptr (working_entry d))"

definition foreign :: "aesd_dev \<Rightarrow> kheap \<Rightarrow> kheap" where
  "foreign d h = h |` (- set (owned d))"

definition storage_inv :: "aesd_dev \<Rightarrow> kheap \<Rightarrow> bool" where
  "storage_inv d h \<longleftrightarrow> ring_wf (buffer d) \<and> (\<forall>e \<in> set (ring_list (buffer d)). entry_ok h e) \<and>
     working_ok h (working_entry d) \<and> distinct (owned d)"

definition dev_inv :: "kworld \<Rightarrow> bool" where
  "dev_inv w \<longleftrightarrow> \<not> buf_mutex (device w) \<and> storage_inv (device w) (heap w)"

lemma dev_invD [dest]:
  "dev_inv w \<Longrightarrow> \<not> buf_mutex (device w)" "dev_inv w \<Longrightarrow> storage_inv (device w) (heap w)"
  by (simp_all add: dev_inv_def)

text \<open>The process may change its own memory at any time.\<close>

lemma dev_inv_umem [simp]: "dev_inv (w\<lparr>umem := m\<rparr>) = dev_inv w"
  by (simp add: dev_inv_def)

text \<open>The working entry is intact: no reallocation has failed since the last command.\<close>

definition working_intact :: "aesd_dev \<Rightarrow> bool" where
  "working_intact d \<longleftrightarrow> buffptr (working_entry d) = Null \<longrightarrow> entry_size (working_entry d) = 0"

section \<open>Framing\<close>

lemma entry_ok_cong:
  "(\<And>a. buffptr e = Ptr a \<Longrightarrow> h' a = h a) \<Longrightarrow> entry_ok h' e = entry_ok h e"
  by (cases "buffptr e") (simp_all add: entry_ok_def)

lemma working_ok_cong:
  "(\<And>a. buffptr e = Ptr a \<Longrightarrow> h' a = h a) \<Longrightarrow> working_ok h' e = working_ok h e"
  using entry_ok_cong [of e h' h] by (simp add: working_ok_def)

lemma in_ring_addrs:
  "e \<in> set (ring_list (buffer d)) \<Longrightarrow> buffptr e = Ptr a \<Longrightarrow> a \<in> set (ring_addrs d)"
  by (force simp: ring_addrs_def)

lemma storage_inv_frame:
  assumes "storage_inv d h" and "\<And>a. a \<in> set (owned d) \<Longrightarrow> h' a = h a"
  shows "storage_inv d h'"
proof -
  have "entry_ok h' e" if "e \<in> set (ring_list (buffer d))" for e
    using that assms in_ring_addrs [OF that] entry_ok_cong [of e h' h]
    by (auto simp: storage_inv_def owned_def)
  moreover have "working_ok h' (working_entry d)"
    using assms working_ok_cong [of "working_entry d" h' h] by (auto simp: storage_inv_def owned_def)
  ultimately show ?thesis using assms(1) by (simp add: storage_inv_def)
qed

lemma owned_live:
  assumes "storage_inv d h" and "a \<in> set (owned d)"
  shows "h a \<noteq> None"
proof -
  consider e where "e \<in> set (ring_list (buffer d))" "a \<in> set (ptr_addrs (buffptr e))"
    | "a \<in> set (ptr_addrs (buffptr (working_entry d)))"
    using assms(2) by (auto simp: owned_def ring_addrs_def)
  then show ?thesis
  proof cases
    case 1
    with assms(1) have "entry_ok h e" by (simp add: storage_inv_def)
    with 1 show ?thesis by (auto simp: entry_ok_def)
  next
    case 2
    with assms(1) show ?thesis by (auto simp: storage_inv_def working_ok_def entry_ok_def)
  qed
qed

text \<open>No two stored entries share a block.\<close>

lemma distinct_buffers:
  assumes "storage_inv d h"
  shows "distinct (map buffptr (ring_list (buffer d)))"
proof -
  have "distinct (map buffptr es)" if "distinct (concat (map (ptr_addrs \<circ> buffptr) es))" "\<forall>e \<in> set es. entry_ok h e" for es
    using that
  proof (induction es)
    case (Cons e es)
    then obtain a where a: "buffptr e = Ptr a" by (auto simp: entry_ok_def)
    have "a \<notin> set (ptr_addrs (buffptr e'))" if "e' \<in> set es" for e' using Cons.prems(1) a that by auto
    then have "Ptr a \<notin> buffptr ` set es" by (metis imageE list.set_intros(1) ptr_addrs.simps(1))
    moreover have "distinct (map buffptr es)" using Cons by simp
    ultimately show ?case using a by simp
  qed simp
  with assms show ?thesis by (auto simp: storage_inv_def owned_def ring_addrs_def)
qed

lemma working_live: "storage_inv d h \<Longrightarrow> live h (buffptr (working_entry d))"
  by (auto simp: storage_inv_def working_ok_def entry_ok_def)

lemma foreign_not_owned: "foreign d h a = Some blk \<Longrightarrow> a \<notin> set (owned d) \<and> h a = Some blk"
  by (auto simp: foreign_def restrict_map_def split: if_splits)

section \<open>The locked part of a write\<close>

lemma KMALLOC_MAX_SIZE_value: "KMALLOC_MAX_SIZE = 4294967296"
  by (simp add: KMALLOC_MAX_SIZE_def)

lemma working_size_bound: "working_ok h e \<Longrightarrow> esize e \<le> KMALLOC_MAX_SIZE"
  by (auto simp: working_ok_def entry_ok_def)

lemma working_zero_size:
  "working_ok h e \<Longrightarrow> entry_size e = 0 \<Longrightarrow> buffptr e = Null \<or> buffptr e = Zero_Size"
  by (auto simp: working_ok_def entry_ok_def)

lemma working_block_length:
  "working_ok h e \<Longrightarrow> buffptr e \<noteq> Null \<or> entry_size e = 0 \<Longrightarrow> length (block_of h (buffptr e)) = esize e"
  by (auto simp: working_ok_def entry_ok_def)

lemma heap_read_length: "heap_read h p off n = returns bs \<Longrightarrow> length bs = n"
  by (auto simp: heap_read_def split: ptr.splits option.splits if_splits)

lemma heap_read_cong:
  "(\<And>a. p = Ptr a \<Longrightarrow> h' a = h a) \<Longrightarrow> heap_read h' p off n = heap_read h p off n"
  by (cases p) (simp_all add: heap_read_def)

lemma heap_read_live:
  "heap_read h p off n = returns bs \<Longrightarrow> p = Ptr a \<Longrightarrow> h a \<noteq> None"
  by (auto simp: heap_read_def split: option.splits)

lemma word_add_eq_0_small:
  fixes a b :: u64
  assumes "unat a \<le> KMALLOC_MAX_SIZE" and "unat b \<le> KMALLOC_MAX_SIZE"
  shows "unat (a + b) = unat a + unat b" and "a + b = 0 \<longleftrightarrow> a = 0 \<and> b = 0"
proof -
  show *: "unat (a + b) = unat a + unat b"
    using assms by (intro unat_add_u64) (simp add: KMALLOC_MAX_SIZE_value)
  have "a + b = 0 \<longleftrightarrow> unat (a + b) = 0" by (simp add: unat_eq_0)
  then show "a + b = 0 \<longleftrightarrow> a = 0 \<and> b = 0" by (simp only: *) (simp add: unat_eq_0)
qed

text \<open>An append whose reallocation gives a block: the pending bytes, then the bytes of the write.\<close>

lemma append_working_moved:
  assumes inv: "storage_inv (device w) (heap w)"
    and src: "heap_read (heap w) write_buf 0 (unat n) = returns bs"
    and disj: "set (ptr_addrs write_buf) \<inter> set (owned (device w)) = {}"
    and sz: "unat sz = esize (working_entry (device w)) + unat n" "sz = entry_size (working_entry (device w)) + n"
    and re: "call_krealloc K (heap w) (buffptr (working_entry (device w))) sz =
      returns (Ptr a, (unmap (heap w) (buffptr (working_entry (device w))))(a \<mapsto> blk))"
    and free: "unmap (heap w) (buffptr (working_entry (device w))) a = None" and blk: "length blk = unat sz"
  shows "append_working K write_buf n w = returns (True, w\<lparr>heap := (unmap (heap w)
      (buffptr (working_entry (device w))))(a \<mapsto> take (esize (working_entry (device w))) blk @ bs),
      device := (device w)\<lparr>working_entry := \<lparr>buffptr = Ptr a, entry_size = sz\<rparr>\<rparr>\<rparr>)"
proof -
  let ?q = "buffptr (working_entry (device w))" and ?s = "esize (working_entry (device w))"
  let ?h1 = "(unmap (heap w) ?q)(a \<mapsto> blk)"
  have "?h1 b = heap w b" if "write_buf = Ptr b" for b
  proof -
    have "heap w b \<noteq> None" using src that by (rule heap_read_live)
    moreover have "?q \<noteq> Ptr b" using disj that by (auto simp: owned_def)
    ultimately show ?thesis using free by (cases ?q) auto
  qed
  then have "heap_read ?h1 write_buf 0 (unat n) = returns bs"
    using src heap_read_cong [of write_buf ?h1 "heap w"] by simp
  moreover have "heap_write ?h1 (Ptr a) ?s bs = returns ((unmap (heap w) ?q)(a \<mapsto> take ?s blk @ bs))"
    using heap_write_block [of ?h1 a blk ?s bs] blk sz(1) heap_read_length [OF src] by simp
  ultimately show ?thesis
    using re by (simp add: append_working_def Let_def sz(2))
qed

text \<open>
  Replacing the block of the working entry by a block \<open>blk\<close> at an address that is free once the
  old block is gone keeps the invariant, the ring's blocks and the rest of the heap.
\<close>

lemma replace_working_block:
  assumes inv: "storage_inv d h" and q: "q = buffptr (working_entry d)"
    and free: "unmap h q a = None"
    and blk: "length blk = unat sz" "sz \<noteq> 0" "unat sz \<le> KMALLOC_MAX_SIZE"
  defines "d' \<equiv> d\<lparr>working_entry := \<lparr>buffptr = Ptr a, entry_size = sz\<rparr>\<rparr>"
    and "h' \<equiv> (unmap h q)(a \<mapsto> blk)"
  shows "storage_inv d' h'" and "foreign d' h' = foreign d h"
    and "r \<in> set (ring_addrs d) \<Longrightarrow> h' r = h r"
proof -
  have dist: "distinct (owned d)" using inv by (simp add: storage_inv_def)
  have ring: "r \<noteq> a \<and> unmap h q r = h r" if r: "r \<in> set (ring_addrs d)" for r
  proof -
    have "h r \<noteq> None" using owned_live [OF inv, of r] r by (simp add: owned_def)
    moreover have "q \<noteq> Ptr r" using dist r q by (auto simp: owned_def)
    ultimately show ?thesis using free by (cases q) auto
  qed
  then show ring': "r \<in> set (ring_addrs d) \<Longrightarrow> h' r = h r" for r by (simp add: h'_def)
  have "entry_ok h' e" if "e \<in> set (ring_list (buffer d))" for e
    using that inv in_ring_addrs [OF that] ring' entry_ok_cong [of e h' h]
    by (auto simp: storage_inv_def)
  moreover have "working_ok h' (working_entry d')"
    using blk by (auto simp: working_ok_def entry_ok_def d'_def h'_def unat_eq_0)
  moreover have "distinct (owned d')"
    using dist ring by (auto simp: owned_def ring_addrs_def d'_def)
  ultimately show "storage_inv d' h'"
    using inv by (simp add: storage_inv_def d'_def)
  have old: "set (owned d) = set (ring_addrs d) \<union> set (ptr_addrs q)"
    using q by (simp add: owned_def)
  have new: "set (owned d') = set (ring_addrs d) \<union> {a}"
    by (auto simp: owned_def ring_addrs_def d'_def)
  show "foreign d' h' = foreign d h"
  proof
    fix x
    show "foreign d' h' x = foreign d h x"
      using free by (cases q) (auto simp: foreign_def old new h'_def restrict_map_def)
  qed
qed

lemma append_working_cases:
  assumes laws: "kernel_laws K" and inv: "storage_inv (device w) (heap w)"
    and src: "heap_read (heap w) write_buf 0 (unat n) = returns bs"
    and disj: "set (ptr_addrs write_buf) \<inter> set (owned (device w)) = {}"
    and n: "unat n \<le> KMALLOC_MAX_SIZE"
  obtains
    "append_working K write_buf n w = returns (False, w\<lparr>device := (device w)\<lparr>working_entry :=
       (working_entry (device w))\<lparr>buffptr := Null\<rparr>\<rparr>\<rparr>)"
  | p d' h' where
    "append_working K write_buf n w = returns (True, w\<lparr>heap := h', device := d'\<rparr>)"
    and "d' = (device w)\<lparr>working_entry := \<lparr>buffptr = p, entry_size = entry_size (working_entry (device w)) + n\<rparr>\<rparr>"
    and "p \<noteq> Null" and "storage_inv d' h'" and "foreign d' h' = foreign (device w) (heap w)"
    and "\<And>r. r \<in> set (ring_addrs (device w)) \<Longrightarrow> h' r = heap w r"
    and "working_intact (device w) \<Longrightarrow>
         block_of h' p = block_of (heap w) (buffptr (working_entry (device w))) @ bs"
proof -
  let ?d = "device w" and ?h = "heap w"
  let ?we = "working_entry ?d"
  let ?q = "buffptr ?we" and ?sz = "entry_size ?we + n"
  have wok: "working_ok ?h ?we" using inv by (simp add: storage_inv_def)
  have len: "length bs = unat n" using src by (rule heap_read_length)
  note bound = working_size_bound [OF wok]
  note sum = word_add_eq_0_small [OF bound n]
  from laws working_live [OF inv] show thesis
  proof (cases rule: call_krealloc_cases [where n = ?sz])
    case 1
    then show thesis using that(1) by (simp add: append_working_def Let_def)
  next
    case 2
    then have z: "entry_size ?we = 0" "n = 0" using sum(2) by auto
    then have bs: "bs = []" and q: "?q = Null \<or> ?q = Zero_Size"
      using len working_zero_size [OF wok] by auto
    then have um: "unmap ?h ?q = ?h" by auto
    let ?d' = "?d\<lparr>working_entry := \<lparr>buffptr = Zero_Size, entry_size = ?sz\<rparr>\<rparr>"
    have "append_working K write_buf n w = returns (True, w\<lparr>heap := ?h, device := ?d'\<rparr>)"
      using 2 um src bs z by (simp add: append_working_def Let_def heap_write_def)
    moreover have "owned ?d' = owned ?d"
      using q by (auto simp: owned_def ring_addrs_def)
    then have "storage_inv ?d' ?h" "foreign ?d' ?h = foreign ?d ?h"
      using inv z by (simp_all add: storage_inv_def working_ok_def foreign_def)
    moreover have "block_of ?h Zero_Size = block_of ?h ?q @ bs" using bs q by auto
    ultimately show thesis using that(2) [where p = Zero_Size and d' = ?d' and h' = ?h] by simp
  next
    case (3 a blk)
    let ?d' = "?d\<lparr>working_entry := \<lparr>buffptr = Ptr a, entry_size = ?sz\<rparr>\<rparr>"
    let ?s = "esize ?we"
    let ?blk = "take ?s blk @ bs"
    let ?h' = "(unmap ?h ?q)(a \<mapsto> ?blk)"
    have lblk: "length blk = ?s + unat n" using 3 sum(1) by simp
    have "append_working K write_buf n w = returns (True, w\<lparr>heap := ?h', device := ?d'\<rparr>)"
      using append_working_moved [OF inv src disj sum(1) refl 3(1,2)] lblk sum(1) by simp
    moreover have "storage_inv ?d' ?h'" "foreign ?d' ?h' = foreign ?d ?h"
      "\<And>r. r \<in> set (ring_addrs ?d) \<Longrightarrow> ?h' r = ?h r"
      using replace_working_block [OF inv refl 3(2), of ?blk ?sz] 3 len lblk sum(1) by simp_all
    moreover have "block_of ?h' (Ptr a) = block_of ?h ?q @ bs" if "working_intact ?d"
    proof -
      have "length (block_of ?h ?q) = ?s"
        using working_block_length [OF wok] that by (auto simp: working_intact_def)
      then show ?thesis using 3(5) sum(1) by simp
    qed
    ultimately show thesis using that(2) [where p = "Ptr a" and d' = ?d' and h' = ?h'] by blast
  qed
qed

text \<open>Taking a block out of what the device owns, and freeing it.\<close>

lemma release_owned:
  assumes inv: "storage_inv d' h" and own: "set (owned d') = set (owned d) - {r}" and r: "r \<in> set (owned d)"
  shows "storage_inv d' (h(r := None))" and "foreign d' (h(r := None)) = foreign d h"
proof -
  show "storage_inv d' (h(r := None))" using inv by (rule storage_inv_frame) (simp add: own)
  show "foreign d' (h(r := None)) = foreign d h"
    using r by (auto simp: foreign_def own restrict_map_def fun_eq_iff)
qed

text \<open>
  Committing a working entry that owns a block moves it into the ring, frees the entry it replaces
  and nothing else.
\<close>

lemma commit_working_ok:
  assumes laws: "kernel_laws K" and inv: "storage_inv (device w) (heap w)"
    and ok: "entry_ok (heap w) (working_entry (device w))"
  obtains d' h' where "commit_working K w = returns (w\<lparr>heap := h', device := d'\<rparr>)"
    and "buf_mutex d' = buf_mutex (device w)"
    and "storage_inv d' h'" and "foreign d' h' = foreign (device w) (heap w)"
    and "working_entry d' = zero_entry"
    and "ring_list (buffer d') = last_n 10 (ring_list (buffer (device w)) @ [working_entry (device w)])"
    and "\<And>r. r \<in> set (owned d') \<Longrightarrow> h' r = heap w r"
proof -
  let ?d = "device w" and ?h = "heap w"
  let ?we = "working_entry ?d" and ?l = "ring_list (buffer ?d)"
  have wf: "ring_wf (buffer ?d)" and dist: "distinct (owned ?d)"
    and eok: "\<And>e. e \<in> set ?l \<Longrightarrow> entry_ok ?h e" using inv by (simp_all add: storage_inv_def)
  obtain b where b: "ring_add (buffer ?d) ?we = returns (ring_evicted ?l, b)" "ring_wf b"
    "ring_list b = last_n 10 (?l @ [?we])"
    using ring.add_ok [OF wf] by blast
  let ?d' = "?d\<lparr>buffer := b, working_entry := zero_entry\<rparr>"
  obtain a where a: "buffptr ?we = Ptr a" using ok by (auto simp: entry_ok_def)
  have we: "\<lparr>buffptr = buffptr ?we, entry_size = entry_size ?we\<rparr> = ?we" by simp
  show thesis
  proof (cases "length ?l = 10")
    case False
    then have rl: "ring_list b = ?l @ [?we]"
      using b(3) ring.view_bound [OF wf] by (simp add: last_n_def)
    then have own: "owned ?d' = owned ?d" using a by (simp add: owned_def ring_addrs_def)
    have "commit_working K w = returns (w\<lparr>heap := ?h, device := ?d'\<rparr>)"
      using b(1) False by (simp add: commit_working_def ring_evicted_def zero_entry_def we)
    moreover have "storage_inv ?d' ?h"
      using b(2) rl eok ok own dist by (auto simp: storage_inv_def working_ok_def)
    moreover have "foreign ?d' ?h = foreign ?d ?h" by (simp add: foreign_def own)
    ultimately show thesis using that [where d' = ?d' and h' = ?h] b(3) by simp
  next
    case True
    then obtain e l where l: "?l = e # l" by (cases ?l) auto
    with True b(3) have rl: "ring_list b = l @ [?we]" by (simp add: last_n_def)
    obtain r where r: "buffptr e = Ptr r" "?h r \<noteq> None"
      using eok [of e] l by (auto simp: entry_ok_def)
    have own: "set (owned ?d') = set (owned ?d) - {r}" "distinct (owned ?d')"
      using dist a l r rl by (auto simp: owned_def ring_addrs_def)
    have "commit_working K w = returns (w\<lparr>heap := ?h(r := None), device := ?d'\<rparr>)"
      using b(1) True l r call_kfree_live [OF laws, of ?h "Ptr r"]
      by (simp add: commit_working_def ring_evicted_def zero_entry_def we)
    moreover have "storage_inv ?d' ?h"
      using b(2) rl eok ok own(2) l by (auto simp: storage_inv_def working_ok_def)
    then have "storage_inv ?d' (?h(r := None))" "foreign ?d' (?h(r := None)) = foreign ?d ?h"
      using release_owned [OF _ own(1), of ?h] l r by (simp_all add: owned_def ring_addrs_def)
    ultimately show thesis using that [where d' = ?d' and h' = "?h(r := None)"] b(3) own by auto
  qed
qed

end
