(* ===== verification/Driver_Refinement.thy ===== *)
theory Driver_Refinement
  imports Driver_Invariant
begin

text \<open>
  What the character device promises, as operations on the bytes written so far: the ten most
  recent complete commands and the unfinished one (\<open>command_store\<close>). The theory proves that
  every outcome of \<open>aesd_write\<close>, \<open>aesd_read\<close>, \<open>aesd_llseek\<close> and \<open>aesd_ioctl\<close>
  implements its counterpart there.
\<close>

section \<open>The abstract device\<close>

record command_store =
  commands :: "byte list list"
  pending :: "byte list"

definition contents :: "command_store \<Rightarrow> byte list" where
  "contents s = concat (commands s)"

text \<open>
  A write takes the bytes up to and including the first newline; with a newline the command is
  complete and becomes the most recent of at most ten.
\<close>

definition store_write :: "byte list \<Rightarrow> command_store \<Rightarrow> command_store" where
  "store_write bs s =
     (case memchr bs newline of
        None \<Rightarrow> s\<lparr>pending := pending s @ bs\<rparr>
      | Some i \<Rightarrow> s\<lparr>commands := last_n 10 (commands s @ [pending s @ take (Suc i) bs]), pending := []\<rparr>)"

definition complete_pending :: "command_store \<Rightarrow> command_store" where
  "complete_pending s = s\<lparr>commands := last_n 10 (commands s @ [pending s]), pending := []\<rparr>"

definition store_of :: "aesd_dev \<Rightarrow> kheap \<Rightarrow> command_store" where
  "store_of d h = \<lparr>commands = map (\<lambda>e. block_of h (buffptr e)) (ring_list (buffer d)),
                   pending = block_of h (buffptr (working_entry d))\<rparr>"

lemma store_of_frame:
  assumes "\<And>a. a \<in> set (owned d) \<Longrightarrow> h' a = h a"
  shows "store_of d h' = store_of d h"
proof -
  have "block_of h' (buffptr e) = block_of h (buffptr e)" if "e \<in> set (ring_list (buffer d))" for e
    using assms in_ring_addrs [OF that] by (cases "buffptr e") (auto simp: owned_def)
  moreover have "block_of h' (buffptr (working_entry d)) = block_of h (buffptr (working_entry d))"
    using assms by (cases "buffptr (working_entry d)") (auto simp: owned_def)
  ultimately show ?thesis by (simp add: store_of_def)
qed

lemma unlock_twice [simp]: "\<not> buf_mutex d \<Longrightarrow> d\<lparr>buf_mutex := False\<rparr> = d"
  by simp

lemma mutex_irrelevant [simp]:
  "owned (d\<lparr>buf_mutex := x\<rparr>) = owned d" "ring_addrs (d\<lparr>buf_mutex := x\<rparr>) = ring_addrs d"
  "storage_inv (d\<lparr>buf_mutex := x\<rparr>) h = storage_inv d h" "foreign (d\<lparr>buf_mutex := x\<rparr>) h = foreign d h"
  "store_of (d\<lparr>buf_mutex := x\<rparr>) h = store_of d h" "working_intact (d\<lparr>buf_mutex := x\<rparr>) = working_intact d"
  by (simp_all add: owned_def ring_addrs_def storage_inv_def foreign_def store_of_def working_intact_def)

section \<open>The buffer of a write call\<close>

text \<open>The heap with the call's own buffer, if it needs one, holding \<open>bs\<close>.\<close>

definition with_buf :: "kheap \<Rightarrow> ptr \<Rightarrow> byte list \<Rightarrow> kheap" where
  "with_buf h p bs = (case p of Ptr a \<Rightarrow> h(a \<mapsto> bs) | _ \<Rightarrow> h)"

lemma with_buf_simps [simp]:
  "with_buf h Null bs = h" "with_buf h Zero_Size bs = h" "with_buf h (Ptr a) bs = h(a \<mapsto> bs)"
  by (simp_all add: with_buf_def)

definition fresh_buf :: "kheap \<Rightarrow> ptr \<Rightarrow> nat \<Rightarrow> bool" where
  "fresh_buf h p n \<longleftrightarrow> (case p of Null \<Rightarrow> False | Zero_Size \<Rightarrow> n = 0 | Ptr a \<Rightarrow> h a = None)"

lemma kmalloc_buffer:
  assumes "kernel_laws K"
  obtains "kmalloc K h n = (Null, h)"
  | p blk where "kmalloc K h n = (p, with_buf h p blk)" and "fresh_buf h p (unat n)"
    and "length blk = unat n" and "unat n \<le> KMALLOC_MAX_SIZE"
  using assms
proof (cases rule: kmalloc_cases [where h = h and n = n])
  case 1
  then show thesis using that(1) by simp
next
  case 2
  then show thesis using that(2) [of Zero_Size "[]"] by (simp add: fresh_buf_def)
next
  case (3 a blk)
  then show thesis using that(2) [of "Ptr a" blk] by (simp add: fresh_buf_def)
qed

lemma fresh_buf_write:
  assumes "fresh_buf h p n" and "length blk = n" and "length bs = n"
  shows "heap_write (with_buf h p blk) p 0 bs = returns (with_buf h p bs)"
  using assms by (cases p) (simp_all add: fresh_buf_def heap_write_def)

lemma fresh_buf_read:
  assumes "fresh_buf h p (length bs)" and "n \<le> length bs"
  shows "heap_read (with_buf h p bs) p 0 n = returns (take n bs)"
  using assms by (cases p) (simp_all add: fresh_buf_def heap_read_def)

lemma fresh_buf_free:
  assumes "kernel_laws K" and "fresh_buf h p n"
  shows "call_kfree K (with_buf h p bs) p = returns h"
  using assms call_kfree_live [OF assms(1), of "with_buf h p bs" p]
  by (cases p) (auto simp: fresh_buf_def fun_upd_idem)

lemma fresh_buf_disjoint:
  "storage_inv d h \<Longrightarrow> fresh_buf h p n \<Longrightarrow> set (ptr_addrs p) \<inter> set (owned d) = {}"
  using owned_live [of d h] by (cases p) (force simp: fresh_buf_def)+

lemma storage_inv_with_buf:
  assumes "storage_inv d h" and "fresh_buf h p n"
  shows "storage_inv d (with_buf h p bs)" and "store_of d (with_buf h p bs) = store_of d h"
proof -
  have *: "with_buf h p bs a = h a" if "a \<in> set (owned d)" for a
    using that assms fresh_buf_disjoint [OF assms] by (cases p) (auto simp: fresh_buf_def)
  show "storage_inv d (with_buf h p bs)" using assms(1) * by (rule storage_inv_frame)
  show "store_of d (with_buf h p bs) = store_of d h" using * by (rule store_of_frame)
qed

text \<open>
  Freeing the call's buffer at the end gives back the heap outside the device as it was before the
  call, and touches nothing the device owns.
\<close>

lemma free_call_buffer:
  assumes laws: "kernel_laws K" and inv: "storage_inv d h" and fresh: "fresh_buf h p n"
    and inv': "storage_inv d' h'" and same: "foreign d' h' = foreign d (with_buf h p bs)"
  obtains h'' where "call_kfree K h' p = returns h''" and "storage_inv d' h''"
    and "foreign d' h'' = foreign d h" and "store_of d' h'' = store_of d' h'"
proof (cases p)
  case (Ptr a)
  with fresh have ha: "h a = None" by (simp add: fresh_buf_def)
  then have "a \<notin> set (owned d)" using owned_live [OF inv] by blast
  then have "foreign d' h' a = Some bs"
    using same Ptr by (simp add: foreign_def)
  then have a: "a \<notin> set (owned d')" "h' a = Some bs" by (auto dest: foreign_not_owned)
  have "call_kfree K h' p = returns (h'(a := None))"
    using call_kfree_live [OF laws, of h' p] a Ptr by simp
  moreover have "storage_inv d' (h'(a := None))"
    using inv' by (rule storage_inv_frame) (use a in auto)
  moreover have "store_of d' (h'(a := None)) = store_of d' h'"
    by (rule store_of_frame) (use a in auto)
  moreover have "foreign d' (h'(a := None)) = (foreign d' h')(a := None)"
    using a by (auto simp: foreign_def restrict_map_def fun_eq_iff)
  then have "foreign d' (h'(a := None)) = foreign d h"
    using same Ptr ha by (auto simp: foreign_def restrict_map_def fun_eq_iff)
  ultimately show thesis using that by blast
qed (use assms that in \<open>auto simp: fresh_buf_def call_kfree_live with_buf_def\<close>)

section \<open>Writing\<close>

text \<open>How many of the bytes \<open>bs\<close> a write takes: up to the newline, or all.\<close>

definition taken :: "byte list \<Rightarrow> nat" where
  "taken bs = (case memchr bs newline of Some i \<Rightarrow> Suc i | None \<Rightarrow> length bs)"

lemma taken_le: "taken bs \<le> length bs"
  by (auto simp: taken_def dest: memchr_SomeD split: option.splits)

lemma store_write_parts:
  "store_write bs s = (let s' = s\<lparr>pending := pending s @ take (taken bs) bs\<rparr>
     in if memchr bs newline = None then s' else complete_pending s')"
  by (auto simp: store_write_def complete_pending_def taken_def split: option.splits)

lemma unat_bytes_to_write:
  fixes cnt :: u64
  assumes "length bs = unat cnt"
  shows "unat (case memchr bs newline of Some i \<Rightarrow> 1 + of_nat i | None \<Rightarrow> cnt) = taken bs"
proof (cases "memchr bs newline")
  case (Some i)
  then have "Suc i \<le> unat cnt" using assms by (auto dest: memchr_SomeD)
  then have "unat (of_nat (Suc i) :: u64) = Suc i" by (rule unat_of_nat_less)
  with Some show ?thesis by (simp add: taken_def)
qed (simp add: taken_def assms)

text \<open>Completing the pending command: it becomes the most recent of at most ten.\<close>

lemma commit_working_store:
  assumes laws: "kernel_laws K" and inv: "storage_inv (device w) (heap w)"
    and intact: "working_intact (device w)" and some: "entry_size (working_entry (device w)) \<noteq> 0"
  defines "s \<equiv> store_of (device w) (heap w)"
  obtains d' h' where "commit_working K w = returns (w\<lparr>heap := h', device := d'\<rparr>)"
    and "buf_mutex d' = buf_mutex (device w)" and "storage_inv d' h'"
    and "foreign d' h' = foreign (device w) (heap w)" and "working_intact d'"
    and "store_of d' h' = complete_pending s"
proof -
  have "entry_ok (heap w) (working_entry (device w))"
    using inv intact some by (auto simp: storage_inv_def working_ok_def working_intact_def)
  then obtain d' h' where com: "commit_working K w = returns (w\<lparr>heap := h', device := d'\<rparr>)"
    "buf_mutex d' = buf_mutex (device w)" "storage_inv d' h'" "foreign d' h' = foreign (device w) (heap w)"
    "working_entry d' = zero_entry"
    "ring_list (buffer d') = last_n 10 (ring_list (buffer (device w)) @ [working_entry (device w)])"
    "\<And>r. r \<in> set (owned d') \<Longrightarrow> h' r = heap w r"
    using commit_working_ok [OF laws, of w] inv by auto
  have "store_of d' h' = store_of d' (heap w)" using com(7) by (rule store_of_frame)
  also have "\<dots> = complete_pending s"
    using com(5,6) by (simp add: store_of_def s_def map_last_n complete_pending_def)
  finally show thesis using that com by (simp add: working_intact_def)
qed

text \<open>The commands already stored are not touched by a change outside the ring's blocks.\<close>

lemma ring_commands_frame:
  assumes "\<And>r. r \<in> set (ring_addrs d) \<Longrightarrow> h' r = h r"
  shows "map (\<lambda>e. block_of h' (buffptr e)) (ring_list (buffer d)) =
         map (\<lambda>e. block_of h (buffptr e)) (ring_list (buffer d))"
proof (rule map_cong [OF refl])
  fix e assume "e \<in> set (ring_list (buffer d))"
  then show "block_of h' (buffptr e) = block_of h (buffptr e)"
    using assms in_ring_addrs [of e d] by (cases "buffptr e") auto
qed

text \<open>Appending to the pending command: the reallocation fails, or the bytes are added.\<close>

lemma append_working_store:
  assumes laws: "kernel_laws K" and inv: "storage_inv (device w) (heap w)"
    and src: "heap_read (heap w) p 0 (unat n) = returns bs"
    and disj: "set (ptr_addrs p) \<inter> set (owned (device w)) = {}"
    and n: "unat n \<le> KMALLOC_MAX_SIZE"
  defines "s \<equiv> store_of (device w) (heap w)"
  obtains
    (lost) "append_working K p n w = returns (False, w\<lparr>device := (device w)\<lparr>working_entry :=
       (working_entry (device w))\<lparr>buffptr := Null\<rparr>\<rparr>\<rparr>)"
  | (ok) d' h' where "append_working K p n w = returns (True, w\<lparr>heap := h', device := d'\<rparr>)"
    and "buf_mutex d' = buf_mutex (device w)" and "storage_inv d' h'"
    and "foreign d' h' = foreign (device w) (heap w)" and "working_intact d'"
    and "n \<noteq> 0 \<Longrightarrow> entry_size (working_entry d') \<noteq> 0"
    and "working_intact (device w) \<Longrightarrow> store_of d' h' = s\<lparr>pending := pending s @ bs\<rparr>"
proof -
  let ?d = "device w" and ?h = "heap w"
  show thesis
  proof (rule append_working_cases [OF laws inv src disj n])
    fix q d1 h1
    assume app: "append_working K p n w = returns (True, w\<lparr>heap := h1, device := d1\<rparr>)"
      and d1: "d1 = ?d\<lparr>working_entry := \<lparr>buffptr = q, entry_size = entry_size (working_entry ?d) + n\<rparr>\<rparr>"
      and q: "q \<noteq> Null" and inv1: "storage_inv d1 h1" and fg1: "foreign d1 h1 = foreign ?d ?h"
      and ring1: "\<And>r. r \<in> set (ring_addrs ?d) \<Longrightarrow> h1 r = ?h r"
      and pend1: "working_intact ?d \<Longrightarrow> block_of h1 q = block_of ?h (buffptr (working_entry ?d)) @ bs"
    have "working_ok ?h (working_entry ?d)" using inv by (simp add: storage_inv_def)
    then have "n \<noteq> 0 \<Longrightarrow> entry_size (working_entry d1) \<noteq> 0"
      using word_add_eq_0_small(2) [OF working_size_bound n] by (simp add: d1)
    moreover have "store_of d1 h1 = s\<lparr>pending := pending s @ bs\<rparr>" if "working_intact ?d"
      using pend1 [OF that] ring_commands_frame [OF ring1] by (simp add: store_of_def s_def d1)
    ultimately show thesis
      using ok [OF app] inv1 fg1 q by (simp add: d1 working_intact_def)
  qed (rule lost)
qed

text \<open>
  Everything between taking the mutex and releasing it: either the reallocation fails and the
  working entry loses its block, or the store becomes \<open>store_write bs\<close> of what it was.
\<close>

lemma locked_write_cases:
  assumes laws: "kernel_laws K" and inv: "storage_inv (device w) (heap w)"
    and src: "heap_read (heap w) p 0 (unat n) = returns (take (taken bs) bs)"
    and disj: "set (ptr_addrs p) \<inter> set (owned (device w)) = {}"
    and n: "unat n = taken bs" and max: "length bs \<le> KMALLOC_MAX_SIZE"
  obtains "append_working K p n w = returns (False, w\<lparr>device := (device w)\<lparr>working_entry :=
       (working_entry (device w))\<lparr>buffptr := Null\<rparr>\<rparr>\<rparr>)"
  | w4 d' h' where "append_working K p n w = returns (True, w4)"
    and "(if memchr bs newline \<noteq> None then commit_working K w4 else returns w4) =
         returns (w\<lparr>heap := h', device := d'\<rparr>)"
    and "buf_mutex d' = buf_mutex (device w)"
    and "storage_inv d' h'" and "foreign d' h' = foreign (device w) (heap w)"
    and "working_intact (device w) \<Longrightarrow> working_intact d' \<and>
         store_of d' h' = store_write bs (store_of (device w) (heap w))"
proof -
  have nmax: "unat n \<le> KMALLOC_MAX_SIZE" using n max taken_le [of bs] by simp
  from laws inv src disj nmax show thesis
  proof (cases rule: append_working_store)
    case (ok d1 h1)
    let ?w1 = "w\<lparr>heap := h1, device := d1\<rparr>"
    show thesis
    proof (cases "memchr bs newline")
      case None
      then show thesis
        using that(2) [OF ok(1), where d' = d1 and h' = h1] ok by (simp add: store_write_parts)
    next
      case (Some i)
      then have "n \<noteq> 0" using n by (auto simp: taken_def)
      with ok obtain d' h' where "commit_working K ?w1 = returns (?w1\<lparr>heap := h', device := d'\<rparr>)"
        "buf_mutex d' = buf_mutex d1" "storage_inv d' h'" "foreign d' h' = foreign d1 h1" "working_intact d'"
        "store_of d' h' = complete_pending (store_of d1 h1)"
        using commit_working_store [OF laws, of ?w1] by auto
      with ok Some show thesis
        using that(2) [OF ok(1), where d' = d' and h' = h'] by (simp add: store_write_parts)
    qed
  qed (rule that(1))
qed

lemma copied_all_cases:
  assumes "kernel_laws K" and "copy_from_user K m u n = (left, bs)"
  shows "length bs = unat n" and "left = 0 \<Longrightarrow> user_bytes m u bs"
  using copy_from_user_law [OF assms] by simp_all

text \<open>A write whose bytes have been copied and that gets the mutex.\<close>

lemma aesd_write_locked:
  assumes laws: "kernel_laws K" and inv: "dev_inv w" and b0: "buf \<noteq> 0" and pf: "private_data f" and ni: "\<not> intr"
    and km: "kmalloc K (heap w) cnt = (p, with_buf (heap w) p blk)" and fresh: "fresh_buf (heap w) p (unat cnt)"
    and lblk: "length blk = unat cnt" and max: "unat cnt \<le> KMALLOC_MAX_SIZE"
    and cfu: "copy_from_user K (umem w) buf cnt = (0, bs)"
  obtains
    (lost) "aesd_write K intr (Some f) buf cnt fpos w = returns (- ENOMEM, fpos, w\<lparr>device := (device w)
       \<lparr>working_entry := (working_entry (device w))\<lparr>buffptr := Null\<rparr>\<rparr>\<rparr>)"
  | (ok) d' h' where "aesd_write K intr (Some f) buf cnt fpos w = returns (cnt, fpos + cnt, w\<lparr>heap := h', device := d'\<rparr>)"
      and "\<not> buf_mutex d'" and "storage_inv d' h'" and "foreign d' h' = foreign (device w) (heap w)"
      and "working_intact (device w) \<Longrightarrow> working_intact d' \<and>
           store_of d' h' = store_write bs (store_of (device w) (heap w))"
proof -
  let ?d = "device w" and ?h = "heap w"
  have unlocked: "\<not> buf_mutex ?d" and sinv: "storage_inv ?d ?h" using inv by blast+
  have pn: "p \<noteq> Null" using fresh by (auto simp: fresh_buf_def)
  have lbs: "length bs = unat cnt" using copied_all_cases(1) [OF laws cfu] .
  let ?h2 = "with_buf ?h p bs"
  have wr: "heap_write (with_buf ?h p blk) p 0 bs = returns ?h2"
    using fresh lblk lbs by (rule fresh_buf_write)
  have rd: "heap_read ?h2 p 0 n = returns (take n bs)" if "n \<le> unat cnt" for n
    using fresh_buf_read [of ?h p bs n] fresh lbs that by simp
  have fr: "call_kfree K ?h2 p = returns ?h" using laws fresh by (rule fresh_buf_free)
  let ?n = "case memchr bs newline of Some i \<Rightarrow> 1 + of_nat i | None \<Rightarrow> cnt"
  let ?w3 = "w\<lparr>heap := ?h2, device := ?d\<lparr>buf_mutex := True\<rparr>\<rparr>"
  note run = aesd_write_def b0 km pn cfu wr Let_def pf ni rd lbs locking unlocked
  have src: "heap_read (heap ?w3) p 0 (unat ?n) = returns (take (taken bs) bs)"
    using rd [of "taken bs"] taken_le [of bs] by (simp add: unat_bytes_to_write lbs)
  have inv3: "storage_inv (device ?w3) (heap ?w3)"
    using storage_inv_with_buf(1) [OF sinv fresh] by simp
  have disj3: "set (ptr_addrs p) \<inter> set (owned (device ?w3)) = {}"
    using fresh_buf_disjoint [OF sinv fresh] by simp
  have bound: "length bs \<le> KMALLOC_MAX_SIZE" using lbs max by simp
  from laws inv3 src disj3 unat_bytes_to_write [OF lbs] bound show thesis
  proof (cases rule: locked_write_cases)
    case 1
    then show thesis by (intro lost) (simp add: run fr)
  next
    case (2 w4 d' h')
    obtain h'' where h'': "call_kfree K h' p = returns h''" "storage_inv d' h''"
      "foreign d' h'' = foreign ?d ?h" "store_of d' h'' = store_of d' h'"
      using free_call_buffer [OF laws sinv fresh 2(4), of bs] 2(5) by auto
    have "aesd_write K intr (Some f) buf cnt fpos w =
        returns (cnt, fpos + cnt, w\<lparr>heap := h'', device := d'\<lparr>buf_mutex := False\<rparr>\<rparr>)"
      using 2(1-3) h''(1) by (simp add: run)
    then show thesis
      using ok [where d' = "d'\<lparr>buf_mutex := False\<rparr>" and h' = h''] h'' 2(6) storage_inv_with_buf(2) [OF sinv fresh]
      by simp
  qed
qed

text \<open>
  All outcomes of \<open>aesd_write\<close> from a state that satisfies the invariant: the errors, most of
  which leave the state as it was, and success.
\<close>

lemma aesd_write_cases:
  assumes laws: "kernel_laws K" and inv: "dev_inv w"
  obtains
    (einval) "filp = None \<or> buf = 0" and "aesd_write K intr filp buf cnt fpos w = returns (- EINVAL, fpos, w)"
  | (enomem) "aesd_write K intr filp buf cnt fpos w = returns (- ENOMEM, fpos, w)"
  | (eperm) f p blk where "filp = Some f" and "\<not> private_data f" and "fresh_buf (heap w) p (unat cnt)"
      and "aesd_write K intr filp buf cnt fpos w = returns (- EPERM, fpos, w\<lparr>heap := with_buf (heap w) p blk\<rparr>)"
  | (efault) "aesd_write K intr filp buf cnt fpos w = returns (- EFAULT, fpos, w)"
  | (intr) "intr" and "aesd_write K intr filp buf cnt fpos w = returns (- ERESTARTSYS, fpos, w)"
  | (lost) "aesd_write K intr filp buf cnt fpos w = returns (- ENOMEM, fpos, w\<lparr>device := (device w)
       \<lparr>working_entry := (working_entry (device w))\<lparr>buffptr := Null\<rparr>\<rparr>\<rparr>)"
  | (ok) bs d' h' where "length bs = unat cnt" and "user_bytes (umem w) buf bs" and "unat cnt \<le> KMALLOC_MAX_SIZE"
      and "aesd_write K intr filp buf cnt fpos w = returns (cnt, fpos + cnt, w\<lparr>heap := h', device := d'\<rparr>)"
      and "\<not> buf_mutex d'" and "storage_inv d' h'" and "foreign d' h' = foreign (device w) (heap w)"
      and "working_intact (device w) \<Longrightarrow> working_intact d' \<and>
           store_of d' h' = store_write bs (store_of (device w) (heap w))"
proof (cases "filp = None \<or> buf = 0")
  case True
  then show thesis by (intro einval) (simp_all add: aesd_write_def)
next
  case False
  then obtain f where f: "filp = Some f" and b0: "buf \<noteq> 0" by auto
  let ?d = "device w" and ?h = "heap w"
  have unlocked: "\<not> buf_mutex ?d" and sinv: "storage_inv ?d ?h" using inv by blast+
  show thesis
  proof (rule kmalloc_buffer [OF laws, of ?h cnt])
    assume "kmalloc K ?h cnt = (Null, ?h)"
    then show thesis using f b0 by (intro enomem) (simp add: aesd_write_def)
  next
    fix p blk
    assume km: "kmalloc K ?h cnt = (p, with_buf ?h p blk)" and fresh: "fresh_buf ?h p (unat cnt)"
      and lblk: "length blk = unat cnt" and max: "unat cnt \<le> KMALLOC_MAX_SIZE"
    have p: "p \<noteq> Null" using fresh by (auto simp: fresh_buf_def)
    obtain nc bs where cfu: "copy_from_user K (umem w) buf cnt = (nc, bs)"
      by (cases "copy_from_user K (umem w) buf cnt")
    note lbs = copied_all_cases(1) [OF laws cfu]
    let ?h2 = "with_buf ?h p bs"
    have wr: "heap_write (with_buf ?h p blk) p 0 bs = returns ?h2"
      using fresh lblk lbs by (rule fresh_buf_write)
    have rd: "heap_read ?h2 p 0 n = returns (take n bs)" if "n \<le> unat cnt" for n
      using fresh_buf_read [of ?h p bs n] fresh lbs that by simp
    have fr: "call_kfree K ?h2 p = returns ?h" using laws fresh by (rule fresh_buf_free)
    note start = aesd_write_def f b0 km p cfu wr Let_def
    consider "\<not> private_data f" | "private_data f" "nc \<noteq> 0" | "private_data f" "nc = 0" "intr"
      | (go) "private_data f" "nc = 0" "\<not> intr" by blast
    then show thesis
    proof cases
      case 1
      with f fresh show thesis by (intro eperm [of f p blk]) (simp_all add: start)
    next
      case 2
      then show thesis by (intro efault) (simp add: start fr)
    next
      case 3
      then show thesis
        by (intro intr) (simp_all add: start fr rd locking)
    next
      case go
      then have cfu': "copy_from_user K (umem w) buf cnt = (0, bs)" using cfu by simp
      note written = lost [unfolded f] ok [unfolded f, OF lbs copied_all_cases(2) [OF laws cfu go(2)] max]
      show thesis
        by (rule aesd_write_locked [OF laws inv b0 go(1,3) km fresh lblk max cfu', of fpos]) (fact written)+
    qed
  qed
qed

section \<open>Reading\<close>

lemma store_lengths:
  assumes "storage_inv d h"
  shows "map length (commands (store_of d h)) = map esize (ring_list (buffer d))"
  using assms by (auto simp: storage_inv_def store_of_def entry_ok_def)

lemma commands_nonempty: "storage_inv d h \<Longrightarrow> [] \<notin> set (commands (store_of d h))"
  by (force simp: storage_inv_def store_of_def entry_ok_def)

lemma commands_bound: "storage_inv d h \<Longrightarrow> length (commands (store_of d h)) \<le> 10"
  by (simp add: store_of_def storage_inv_def ring.view_bound)

lemma sum_list_bound: "(\<And>x. x \<in> set xs \<Longrightarrow> x \<le> m) \<Longrightarrow> sum_list xs \<le> length xs * (m :: nat)"
  by (induction xs) (auto intro: add_mono)

lemma contents_length:
  "storage_inv d h \<Longrightarrow> sum_list (map esize (ring_list (buffer d))) = length (contents (store_of d h))"
  by (simp add: contents_def length_concat store_lengths)

lemma contents_bound:
  assumes "storage_inv d h"
  shows "length (contents (store_of d h)) \<le> 10 * KMALLOC_MAX_SIZE"
proof -
  have "sum_list (map esize (ring_list (buffer d))) \<le> length (ring_list (buffer d)) * KMALLOC_MAX_SIZE"
    using sum_list_bound [of "map esize (ring_list (buffer d))" KMALLOC_MAX_SIZE] assms
    by (auto simp: storage_inv_def entry_ok_def)
  also have "\<dots> \<le> 10 * KMALLOC_MAX_SIZE"
    using assms by (intro mult_right_mono) (simp_all add: storage_inv_def ring.view_bound)
  finally show ?thesis using contents_length [OF assms] by simp
qed

text \<open>
  The body of \<open>aesd_read\<close>: return value, new position, new state, and between them what has been
  copied to the user, \<^const>\<open>None\<close> if the copy failed.
\<close>

definition read_locked ::
  "kernel \<Rightarrow> nat \<Rightarrow> u64 \<Rightarrow> i64 \<Rightarrow> kworld \<Rightarrow> (i64 \<times> i64 \<times> byte list option \<times> kworld) comp" where
  "read_locked K buf cnt fpos w =
     bindC (aesd_circular_buffer_find_entry_offset_for_fpos (Some (buffer (device w))) fpos (Some 0)) (\<lambda>r.
       case r of
         (Some i, Some ret_offset) \<Rightarrow>
           bindC (arr_get (entry (buffer (device w))) i) (\<lambda>ret_entry.
             let bytes_left_in_entry = entry_size ret_entry - ret_offset;
                 bytes_to_read_out = (if bytes_left_in_entry > cnt then cnt else bytes_left_in_entry)
             in bindC (heap_read (heap w) (buffptr ret_entry) (unat ret_offset)
                         (unat bytes_to_read_out)) (\<lambda>bs.
                  let (not_copied, m) = copy_to_user K (umem w) buf bs
                  in if not_copied \<noteq> 0 then returns (- EFAULT, fpos, None, w\<lparr>umem := m\<rparr>)
                     else returns (bytes_to_read_out, fpos + bytes_to_read_out, Some bs, w\<lparr>umem := m\<rparr>)))
       | _ \<Rightarrow> returns (0, fpos, Some [], w))"

lemma aesd_read_body:
  assumes "private_data f" and "buf \<noteq> 0" and "\<not> intr" and "\<not> buf_mutex (device w)"
  shows "aesd_read K intr (Some f) buf cnt fpos w =
    bindC (read_locked K buf cnt fpos (w\<lparr>device := (device w)\<lparr>buf_mutex := True\<rparr>\<rparr>)) (\<lambda>(r, p, bs, w1).
      bindC (mutex_unlock w1) (\<lambda>w2. returns (r, p, w2)))"
  using assms
  by (auto simp: aesd_read_def read_locked_def locking bindC_assoc Let_def case_prod_unfold
      split: option.splits intro!: bindC_cong)

lemma contents_sizes_small:
  "storage_inv d h \<Longrightarrow> sum_list (map esize (ring_list (buffer d))) < 2 ^ 64"
  using contents_bound [of d h] contents_length [of d h] by (simp add: KMALLOC_MAX_SIZE_value)

text \<open>At a position behind the contents there is nothing to read, elsewhere there is.\<close>

lemma read_locked_miss:
  assumes inv: "storage_inv (device w) (heap w)"
    and miss: "locate (map length (commands (store_of (device w) (heap w)))) (unat fpos) = None"
  shows "read_locked K buf cnt fpos w = returns (0, fpos, Some [], w)"
proof -
  have "ring_wf (buffer (device w))" using inv by (simp add: storage_inv_def)
  from find_entry_locate [OF this contents_sizes_small [OF inv]] show ?thesis
    using miss by (simp add: read_locked_def store_lengths [OF inv])
qed

lemma read_locked_hit:
  assumes inv: "storage_inv (device w) (heap w)"
  defines "s \<equiv> store_of (device w) (heap w)"
  assumes hit: "locate (map length (commands s)) (unat fpos) = Some (k, off)"
  obtains n where "unat n = min (unat cnt) (length (commands s ! k) - off)"
    and "read_locked K buf cnt fpos w =
      (let bs = take (unat cnt) (drop off (commands s ! k)); (nc, m) = copy_to_user K (umem w) buf bs
       in if nc \<noteq> 0 then returns (- EFAULT, fpos, None, w\<lparr>umem := m\<rparr>)
          else returns (n, fpos + n, Some bs, w\<lparr>umem := m\<rparr>))"
proof -
  let ?h = "heap w" and ?b = "buffer (device w)"
  have wf: "ring_wf ?b" using inv by (simp add: storage_inv_def)
  note found = hit [unfolded s_def store_lengths [OF inv]]
  have k: "k < length (ring_list ?b)" "off < esize (ring_list ?b ! k)"
    using locate_SomeD [OF found] by auto
  let ?e = "ring_list ?b ! k"
  have "entry_ok ?h ?e" using inv nth_mem [OF k(1)] by (simp add: storage_inv_def)
  then obtain a blk where e: "buffptr ?e = Ptr a" "?h a = Some blk" "length blk = esize ?e"
    by (auto simp: entry_ok_def)
  have cmd: "commands s ! k = blk" using k e by (simp add: s_def store_of_def)
  let ?left = "entry_size ?e - of_nat off" and ?bs = "take (unat cnt) (drop off blk)"
  obtain n where n_def: "n = (if ?left > cnt then cnt else ?left)" by blast
  have off: "unat (of_nat off :: u64) = off"
    using k(2) by (simp add: unat_of_nat_less [of off "entry_size ?e"])
  have left: "unat ?left = length blk - off"
    using k(2) e(3) off by (subst unat_sub_u64) (simp_all add: word_le_nat_alt)
  have n: "unat n = min (unat cnt) (length blk - off)"
    using left by (auto simp: n_def word_less_nat_alt)
  have bs: "heap_read ?h (Ptr a) off (unat n) = returns ?bs"
    using heap_read_block [of ?h a blk off "unat n"] e n k(2) by (auto simp: min_def)
  have "read_locked K buf cnt fpos w = (let (nc, m) = copy_to_user K (umem w) buf ?bs
       in if nc \<noteq> 0 then returns (- EFAULT, fpos, None, w\<lparr>umem := m\<rparr>)
          else returns (n, fpos + n, Some ?bs, w\<lparr>umem := m\<rparr>))"
    by (cases "copy_to_user K (umem w) buf ?bs")
      (simp add: read_locked_def find_entry_locate [OF wf contents_sizes_small [OF inv]]
        found entry_slot_get [OF wf k(1)] e(1) off bs Let_def n_def [symmetric])
  with n show thesis by (intro that [of n]) (simp_all only: cmd Let_def)
qed

text \<open>A read that finds an entry at the position.\<close>

lemma aesd_read_hit:
  assumes inv: "dev_inv w" and f: "private_data f" and b0: "buf \<noteq> 0" and ni: "\<not> intr"
  defines "s \<equiv> store_of (device w) (heap w)"
  assumes hit: "locate (map length (commands s)) (unat fpos) = Some (k, off)"
  obtains n where "unat n = min (unat cnt) (length (commands s ! k) - off)"
    and "aesd_read K intr (Some f) buf cnt fpos w =
      (let (nc, m) = copy_to_user K (umem w) buf (take (unat cnt) (drop off (commands s ! k)))
       in if nc \<noteq> 0 then returns (- EFAULT, fpos, w\<lparr>umem := m\<rparr>) else returns (n, fpos + n, w\<lparr>umem := m\<rparr>))"
proof -
  let ?w = "w\<lparr>device := (device w)\<lparr>buf_mutex := True\<rparr>\<rparr>"
  have unlocked: "\<not> buf_mutex (device w)" and sinv: "storage_inv (device ?w) (heap ?w)" using inv by auto
  let ?bs = "take (unat cnt) (drop off (commands s ! k))"
  obtain n where n: "unat n = min (unat cnt) (length (commands s ! k) - off)"
    and body: "read_locked K buf cnt fpos ?w = (let bs = ?bs; (nc, m) = copy_to_user K (umem ?w) buf bs
       in if nc \<noteq> 0 then returns (- EFAULT, fpos, None, ?w\<lparr>umem := m\<rparr>)
          else returns (n, fpos + n, Some bs, ?w\<lparr>umem := m\<rparr>))"
    using read_locked_hit [OF sinv, of fpos k off cnt K buf] hit by (auto simp: s_def)
  have "aesd_read K intr (Some f) buf cnt fpos w = (let (nc, m) = copy_to_user K (umem w) buf ?bs
       in if nc \<noteq> 0 then returns (- EFAULT, fpos, w\<lparr>umem := m\<rparr>) else returns (n, fpos + n, w\<lparr>umem := m\<rparr>))"
    unfolding aesd_read_body [OF f b0 ni unlocked] body
    by (cases "copy_to_user K (umem w) buf ?bs") (simp add: locking unlocked)
  with n show thesis by (rule that)
qed

text \<open>All outcomes of \<open>aesd_read\<close>.\<close>

lemma aesd_read_found:
  assumes laws: "kernel_laws K" and inv: "dev_inv w"
  defines "s \<equiv> store_of (device w) (heap w)"
  assumes f: "private_data f" "buf \<noteq> 0" "\<not> intr" and loc: "locate (map length (commands s)) (unat fpos) = Some (k, off)"
  obtains
    (efault) m bs where "unat fpos < length (contents s)" and "fst (copy_to_user K (umem w) buf bs) \<noteq> 0"
      and "aesd_read K intr (Some f) buf cnt fpos w = returns (- EFAULT, fpos, w\<lparr>umem := m\<rparr>)"
  | (ok) n where "unat n = min (unat cnt) (length (commands s ! k) - off)"
      and "aesd_read K intr (Some f) buf cnt fpos w = returns (n, fpos + n,
             w\<lparr>umem := user_store (umem w) buf (take (unat cnt) (drop off (commands s ! k)))\<rparr>)"
proof -
  have within: "unat fpos < length (contents s)"
    using loc locate_None_iff [of "map length (commands s)" "unat fpos"] by (simp add: contents_def length_concat)
  let ?bs = "take (unat cnt) (drop off (commands s ! k))"
  obtain n where n: "unat n = min (unat cnt) (length (commands s ! k) - off)"
    and run: "aesd_read K intr (Some f) buf cnt fpos w =
      (let (nc, m) = copy_to_user K (umem w) buf ?bs
       in if nc \<noteq> 0 then returns (- EFAULT, fpos, w\<lparr>umem := m\<rparr>) else returns (n, fpos + n, w\<lparr>umem := m\<rparr>))"
    using aesd_read_hit [OF inv f, of fpos k off cnt K] loc unfolding s_def by blast
  obtain nc m where ctu: "copy_to_user K (umem w) buf ?bs = (nc, m)" by (cases "copy_to_user K (umem w) buf ?bs")
  show thesis
  proof (cases "nc = 0")
    case True
    then have "m = user_store (umem w) buf ?bs" using copy_to_user_law [OF laws] ctu by simp
    then show thesis using ok [OF n] run True ctu by simp
  next
    case False
    with within run ctu show thesis by (intro efault [of ?bs m]) simp_all
  qed
qed

lemma aesd_read_cases:
  assumes laws: "kernel_laws K" and inv: "dev_inv w"
  defines "s \<equiv> store_of (device w) (heap w)"
  obtains
    (einval) "filp = None \<or> buf = 0" and "aesd_read K intr filp buf cnt fpos w = returns (- EINVAL, fpos, w)"
  | (eperm) f where "filp = Some f" and "\<not> private_data f"
      and "aesd_read K intr filp buf cnt fpos w = returns (- EPERM, fpos, w)"
  | (intr) "intr" and "aesd_read K intr filp buf cnt fpos w = returns (- ERESTARTSYS, fpos, w)"
  | (eof) "length (contents s) \<le> unat fpos" and "aesd_read K intr filp buf cnt fpos w = returns (0, fpos, w)"
  | (efault) m bs where "unat fpos < length (contents s)" and "fst (copy_to_user K (umem w) buf bs) \<noteq> 0"
      and "aesd_read K intr filp buf cnt fpos w = returns (- EFAULT, fpos, w\<lparr>umem := m\<rparr>)"
  | (ok) k off n where "locate (map length (commands s)) (unat fpos) = Some (k, off)"
      and "unat n = min (unat cnt) (length (commands s ! k) - off)"
      and "aesd_read K intr filp buf cnt fpos w = returns (n, fpos + n,
             w\<lparr>umem := user_store (umem w) buf (take (unat cnt) (drop off (commands s ! k)))\<rparr>)"
proof (cases "filp = None \<or> buf = 0")
  case True
  then show thesis by (intro einval) (simp_all add: aesd_read_def)
next
  case False
  then obtain f where f: "filp = Some f" and b0: "buf \<noteq> 0" by auto
  let ?d = "device w" and ?h = "heap w"
  let ?b = "buffer ?d"
  have unlocked: "\<not> buf_mutex ?d" and sinv: "storage_inv ?d ?h" using inv by blast+
  have wf: "ring_wf ?b" using sinv by (simp add: storage_inv_def)
  have small: "sum_list (map esize (ring_list ?b)) < 2 ^ 64"
    using contents_bound [OF sinv] contents_length [OF sinv] by (simp add: KMALLOC_MAX_SIZE_value)
  note sizes = store_lengths [OF sinv, folded s_def]
  note start = aesd_read_def f b0 locking unlocked
    find_entry_locate [OF wf small]
  consider "\<not> private_data f" | "private_data f" "intr"
    | (miss) "private_data f" "\<not> intr" "locate (map length (commands s)) (unat fpos) = None"
    | (hit) k off where "private_data f" "\<not> intr" "locate (map length (commands s)) (unat fpos) = Some (k, off)"
    by (cases "locate (map length (commands s)) (unat fpos)") auto
  then show thesis
  proof cases
    case 1
    with f show thesis by (intro eperm [of f]) (simp_all add: start)
  next
    case 2
    then show thesis by (intro intr) (simp_all add: start)
  next
    case miss
    then have "length (contents s) \<le> unat fpos"
      by (simp add: locate_None_iff contents_def length_concat)
    moreover have "aesd_read K intr filp buf cnt fpos w = returns (0, fpos, w)"
      using miss(1,2) by (simp add: start miss(3) [unfolded sizes])
    ultimately show thesis by (rule eof)
  next
    case hit
    show thesis
    proof (rule aesd_read_found [OF laws inv hit(1) b0 hit(2,3) [unfolded s_def], of cnt, folded s_def])
      fix m bs
      assume "unat fpos < length (contents s)" "fst (copy_to_user K (umem w) buf bs) \<noteq> 0"
        "aesd_read K intr (Some f) buf cnt fpos w = returns (- EFAULT, fpos, w\<lparr>umem := m\<rparr>)"
      with f show thesis by (intro efault) simp_all
    next
      fix n
      assume "unat n = min (unat cnt) (length (commands s ! k) - off)" "aesd_read K intr (Some f) buf cnt fpos w = returns (n, fpos + n,
             w\<lparr>umem := user_store (umem w) buf (take (unat cnt) (drop off (commands s ! k)))\<rparr>)"
      with f show thesis by (intro ok [OF hit(3)]) simp_all
    qed
  qed
qed

section \<open>Seeking\<close>

lemma FOREACH_size:
  assumes "storage_inv d h"
  shows "AESD_CIRCULAR_BUFFER_FOREACH (buffer d) (\<lambda>s e. returns (s + entry_size e)) 0 =
    returns (of_nat (length (contents (store_of d h))))"
  using assms ring_sum_sizes [of "buffer d"] contents_length [OF assms]
  by (simp add: FOREACH_foldC foldC_returns foldl_sizes storage_inv_def)

lemma aesd_llseek_run:
  assumes "dev_inv w" and "private_data f" and "\<not> intr"
  shows "aesd_llseek K intr (Some f) off whence w =
    (let seek = fixed_size_llseek K (f_pos f) off whence
                  (of_nat (length (contents (store_of (device w) (heap w)))))
     in returns (if sint seek < 0 then (- EINVAL, Some f, w) else (seek, Some (f\<lparr>f_pos := seek\<rparr>), w)))"
  using assms FOREACH_size [of "device w" "heap w"]
  by (simp add: aesd_llseek_def dev_inv_def locking Let_def)

lemma sum_slots_take:
  "cmd \<le> length (entry b) \<Longrightarrow> i \<le> cmd \<Longrightarrow>
   sum_slots b i cmd x = returns (x + of_nat (sum_list (map esize (drop i (take cmd (entry b))))))"
proof (induction b i cmd x rule: sum_slots.induct)
  case (1 b i cmd x)
  show ?case
  proof (cases "i < cmd")
    case True
    then have "drop i (take cmd (entry b)) = entry b ! i # drop (Suc i) (take cmd (entry b))"
      using 1(2) by (simp add: Cons_nth_drop_Suc [symmetric])
    moreover have "sum_slots b i cmd x = sum_slots b (Suc i) cmd (x + entry_size (entry b ! i))"
      using True 1(2) by (subst sum_slots.simps) simp
    ultimately show ?thesis
      using 1(1) [OF True, of "entry b ! i"] True 1(2) by (simp add: add.assoc)
  next
    case False
    with 1(3) show ?thesis by (subst sum_slots.simps) simp
  qed
qed

text \<open>The seek command after its guards, by the command number it was given.\<close>

lemma aesd_ioctl_run:
  assumes inv: "dev_inv w" and f: "private_data f" and intr: "\<not> intr"
    and cfu: "copy_from_user K (umem w) (unat arg) 8 = (0, bs)"
  defines "c \<equiv> unat (write_cmd (seekto_of_bytes bs))"
    and "x \<equiv> unat (write_cmd_offset (seekto_of_bytes bs))"
    and "slot \<equiv> entry (buffer (device w))"
  shows "aesd_ioctl K intr (Some f) AESDCHAR_IOCSEEKTO arg w =
    (if c = 10 then fails Out_Of_Bounds
     else if c > 10 \<or> x \<ge> esize (slot ! c) then returns (- EINVAL, Some f, w)
     else returns (0, Some (f\<lparr>f_pos := of_nat (sum_list (map esize (take c slot)) + x)\<rparr>), w))"
proof -
  have len: "length slot = 10" and unlocked: "\<not> buf_mutex (device w)"
    using inv by (simp_all add: dev_inv_def storage_inv_def ring_wf_def slot_def)
  have x: "ucast (write_cmd_offset (seekto_of_bytes bs)) = (of_nat x :: u64)"
    by (simp add: x_def word_unat_eq_iff unat_of_nat_less [of _ "ucast (write_cmd_offset (seekto_of_bytes bs))"])
  have cmp: "entry_size e \<le> (of_nat x :: u64) \<longleftrightarrow> esize e \<le> x" for e
    by (simp add: x [symmetric] word_le_nat_alt x_def)
  have run: "aesd_ioctl K intr (Some f) AESDCHAR_IOCSEEKTO arg w =
    bindC (if c > 10 then returns True
           else bindC (arr_get slot c) (\<lambda>e. returns (esize e \<le> x))) (\<lambda>out_of_range.
      if out_of_range then returns (- EINVAL, Some f, w)
      else bindC (sum_slots (buffer (device w)) 0 c 0) (\<lambda>offset.
        returns (0, Some (f\<lparr>f_pos := offset + of_nat x\<rparr>), w)))"
    using unlocked f intr cfu
    by (simp add: aesd_ioctl_def locking Let_def x cmp
        flip: c_def slot_def cong: if_cong)
  show ?thesis
    using len sum_slots_take [of c "buffer (device w)" 0 0]
    by (auto simp: run slot_def)
qed

end
