(* ===== verification/Driver_Runs.thy ===== *)
theory Driver_Runs
  imports Driver_Refinement
begin

text \<open>
  The driver as a whole: loading and unloading the module, a client that reads until end of file,
  the states that any sequence of system calls can reach, and the properties of the driver that
  the development claims, each with a concrete run that shows it applies.
\<close>

section \<open>Unloading\<close>

lemma mset_concat_map: "mset (concat (map f xs)) = sum_mset (image_mset (\<lambda>x. mset (f x)) (mset xs))"
  by (induction xs) simp_all

lemma entry_addrs:
  assumes "ring_wf (buffer d)"
  shows "mset (concat (map (ptr_addrs \<circ> buffptr) (entry (buffer d)))) = mset (ring_addrs d)"
  by (simp add: ring_addrs_def mset_concat_map ring_mset [OF assms])

lemma foldC_kfree:
  assumes "kernel_laws K"
  shows "distinct (concat (map (ptr_addrs \<circ> buffptr) es)) \<Longrightarrow>
    (\<And>a. a \<in> set (concat (map (ptr_addrs \<circ> buffptr) es)) \<Longrightarrow> h a \<noteq> None) \<Longrightarrow>
    foldC (\<lambda>h e. call_kfree K h (buffptr e)) h es =
      returns (h |` (- set (concat (map (ptr_addrs \<circ> buffptr) es))))"
proof (induction es arbitrary: h)
  case Nil
  show ?case by simp
next
  case (Cons e es)
  have "live h (buffptr e)" using Cons.prems(2) by (cases "buffptr e") auto
  then have free: "call_kfree K h (buffptr e) = returns (unmap h (buffptr e))"
    by (rule call_kfree_live [OF assms])
  have "foldC (\<lambda>h e. call_kfree K h (buffptr e)) (unmap h (buffptr e)) es =
      returns (unmap h (buffptr e) |` (- set (concat (map (ptr_addrs \<circ> buffptr) es))))"
    using Cons.prems by (intro Cons.IH) (cases "buffptr e"; auto)+
  moreover have "unmap h (buffptr e) |` (- A) = h |` (- (set (ptr_addrs (buffptr e)) \<union> A))" for A
    by (cases "buffptr e") (auto simp: restrict_map_def fun_eq_iff)
  ultimately show ?case
    by (simp only: foldC.simps free bindC_simps list.map concat.simps set_append o_def)
qed

lemma cleanup_run:
  assumes laws: "kernel_laws K" and inv: "storage_inv (device m) (heap m)"
  shows "\<exists>m'. aesd_cleanup_module K m = returns m' \<and>
    heap m' = heap m |` (- set (ring_addrs (device m))) \<and>
    \<not> region_registered m' \<and> \<not> cdev_registered m'"
proof -
  let ?b = "buffer (device m)"
  have wf: "ring_wf ?b" using inv by (simp add: storage_inv_def)
  have addrs: "mset (concat (map (ptr_addrs \<circ> buffptr) (entry ?b))) = mset (ring_addrs (device m))"
    using wf by (rule entry_addrs)
  then have set: "set (concat (map (ptr_addrs \<circ> buffptr) (entry ?b))) = set (ring_addrs (device m))"
    by (metis set_mset_mset)
  have "distinct (ring_addrs (device m))" using inv by (simp add: storage_inv_def owned_def)
  then have "distinct (concat (map (ptr_addrs \<circ> buffptr) (entry ?b)))"
    using mset_eq_imp_distinct_iff [OF addrs] by simp
  then have "foldC (\<lambda>h e. call_kfree K h (buffptr e)) (heap m) (entry ?b) =
      returns (heap m |` (- set (ring_addrs (device m))))"
    using foldC_kfree [OF laws, of "entry ?b" "heap m"] owned_live [OF inv]
    unfolding set by (auto simp: owned_def)
  then show ?thesis
    using wf by (simp add: aesd_cleanup_module_def FOREACH_foldC Let_def)
qed

section \<open>Reading to the end of the file\<close>

text \<open>
  A client that reads into the same user buffer until a read answers 0, collecting the bytes of
  each read: \<open>reads K f buf cnt w pos bs\<close> says that it ends and has collected \<open>bs\<close>.
\<close>

inductive reads :: "kernel \<Rightarrow> open_file \<Rightarrow> nat \<Rightarrow> u64 \<Rightarrow> kworld \<Rightarrow> i64 \<Rightarrow> byte list \<Rightarrow> bool"
  for K f buf cnt where
  reads_eof: "aesd_read K False (Some f) buf cnt pos w = returns (0, pos', w') \<Longrightarrow>
    reads K f buf cnt w pos []"
| reads_more: "aesd_read K False (Some f) buf cnt pos w = returns (n, pos', w') \<Longrightarrow>
    0 < sint n \<Longrightarrow> length chunk = unat n \<Longrightarrow> user_bytes (umem w') buf chunk \<Longrightarrow>
    reads K f buf cnt w' pos' rest \<Longrightarrow> reads K f buf cnt w pos (chunk @ rest)"

inductive_cases reads_cases: "reads K f buf cnt w pos bs"

text \<open>One read, when nothing can fail: the end of file, or a non-empty piece of what is left.\<close>

lemma aesd_read_step:
  assumes laws: "kernel_laws K" and inv: "dev_inv w" and f: "private_data f" and buf: "buf \<noteq> 0"
    and cnt: "cnt \<noteq> 0" and copies: "\<And>m u bs. fst (copy_to_user K m u bs) = 0"
  defines "s \<equiv> store_of (device w) (heap w)"
  obtains (eof) "length (contents s) \<le> unat pos" and
      "aesd_read K False (Some f) buf cnt pos w = returns (0, pos, w)"
  | (more) n bs where "unat pos < length (contents s)" and "bs \<noteq> []" and "length bs = unat n" and "0 < sint n"
      and "drop (unat pos) (contents s) = bs @ drop (unat (pos + n)) (contents s)"
      and "unat (pos + n) = unat pos + length bs"
      and "aesd_read K False (Some f) buf cnt pos w =
             returns (n, pos + n, w\<lparr>umem := user_store (umem w) buf bs\<rparr>)"
  using laws inv
proof (cases rule: aesd_read_cases [where filp = "Some f" and buf = buf and cnt = cnt and fpos = pos
      and intr = False])
  case (ok k off n)
  let ?cmd = "commands s ! k"
  let ?bs = "take (unat cnt) (drop off ?cmd)"
  have k: "k < length (commands s)" "off < length ?cmd"
    using locate_SomeD [OF ok(1)] by (auto simp: s_def)
  have bound: "length (contents s) \<le> 10 * KMALLOC_MAX_SIZE"
    using inv by (simp add: s_def dev_inv_def contents_bound)
  have len: "length ?bs = unat n" using ok(2) by (simp add: s_def min.commute)
  have ne: "?bs \<noteq> []" using k(2) cnt by (simp add: unat_eq_0)
  have rest: "drop (unat pos) (contents s) = drop off ?cmd @ concat (drop (Suc k) (commands s))"
    using locate_drop_concat [OF ok(1)] by (simp add: contents_def s_def)
  have within: "unat pos + length ?bs \<le> length (contents s)"
    using arg_cong [OF rest, of length] k ne by (cases "unat pos \<le> length (contents s)") auto
  have pos': "unat (pos + n) = unat pos + length ?bs"
    using within bound len by (subst unat_add_u64) (simp_all add: KMALLOC_MAX_SIZE_value)
  have "drop (unat (pos + n)) (contents s) = drop (length ?bs) (drop (unat pos) (contents s))"
    using pos' by (simp add: add.commute)
  also have "\<dots> = drop (length ?bs) (drop off ?cmd) @ concat (drop (Suc k) (commands s))"
    by (simp add: rest)
  finally have tail: "drop (unat (pos + n)) (contents s) =
    drop (length ?bs) (drop off ?cmd) @ concat (drop (Suc k) (commands s))" .
  have "?bs = take (length ?bs) (drop off ?cmd)" by (simp add: min_def)
  then have split: "drop (unat pos) (contents s) = ?bs @ drop (unat (pos + n)) (contents s)"
    unfolding rest tail by (metis append_assoc append_take_drop_id)
  have "sint n = int (unat n)"
    using len within bound by (intro sint_unat_u64) (simp add: KMALLOC_MAX_SIZE_value)
  moreover have "0 < unat n" using len ne by (metis length_greater_0_conv)
  ultimately have "0 < sint n" by (simp only: of_nat_0_less_iff)
  moreover have "unat pos < length (contents s)" using within ne by (cases ?bs) auto
  ultimately show thesis
    using more [OF _ ne len _ split pos'] ok(3) by (simp add: s_def)
qed (use f buf copies that(1) in \<open>auto simp: s_def\<close>)

lemma reads_iff:
  assumes laws: "kernel_laws K" and f: "private_data f" and buf: "buf \<noteq> 0"
    and cnt: "cnt \<noteq> 0" and copies: "\<And>m u bs. fst (copy_to_user K m u bs) = 0"
  shows "dev_inv w \<Longrightarrow> reads K f buf cnt w pos bs \<longleftrightarrow>
    bs = drop (unat pos) (contents (store_of (device w) (heap w)))"
proof (induction "length (contents (store_of (device w) (heap w))) - unat pos" arbitrary: w pos bs
    rule: less_induct)
  case less
  let ?c = "contents (store_of (device w) (heap w))"
  from laws less.prems f buf cnt copies show ?case
  proof (cases rule: aesd_read_step [where pos = pos])
    case eof
    then show ?thesis by (auto elim: reads_cases intro: reads_eof)
  next
    case (more n chunk)
    let ?w = "w\<lparr>umem := user_store (umem w) buf chunk\<rparr>"
    have inv: "dev_inv ?w" using less.prems by (simp add: dev_inv_def)
    have "0 < unat n" using more(2,3) by (metis length_greater_0_conv)
    then have IH: "reads K f buf cnt ?w (pos + n) rest \<longleftrightarrow> rest = drop (unat (pos + n)) ?c" for rest
      using less.hyps [OF _ inv, of "pos + n" rest] more by simp
    show ?thesis
    proof
      assume "reads K f buf cnt w pos bs"
      then show "bs = drop (unat pos) ?c"
      proof cases
        case reads_eof
        with more show ?thesis by simp
      next
        case (reads_more n' pos' w' chunk' rest)
        with more have *: "n' = n" "pos' = pos + n" "w' = ?w" by simp_all
        with reads_more(4,5) more(3) have "chunk' = chunk"
          using user_bytes_unique [of "umem ?w" buf chunk' chunk] by simp
        with reads_more * IH more(5) show ?thesis by simp
      qed
    next
      assume "bs = drop (unat pos) ?c"
      then have "bs = chunk @ drop (unat (pos + n)) ?c" using more(5) by simp
      moreover have "reads K f buf cnt ?w (pos + n) (drop (unat (pos + n)) ?c)" using IH by simp
      ultimately show "reads K f buf cnt w pos bs"
        using reads_more [OF more(7) more(4), of chunk] more(3) by simp
    qed
  qed
qed

section \<open>Reachable states\<close>

text \<open>
  Between two system calls the process may change its memory and the rest of the kernel may
  change the heap, except for the blocks that the device owns.
\<close>

inductive driver_step :: "kernel \<Rightarrow> kworld \<Rightarrow> kworld \<Rightarrow> bool" for K where
  step_read: "aesd_read K intr filp buf cnt pos w = returns (r, pos', w') \<Longrightarrow> driver_step K w w'"
| step_write: "aesd_write K intr filp buf cnt pos w = returns (r, pos', w') \<Longrightarrow> driver_step K w w'"
| step_llseek: "aesd_llseek K intr filp off whence w = returns (r, filp', w') \<Longrightarrow> driver_step K w w'"
| step_ioctl: "aesd_ioctl K intr filp cmd arg w = returns (r, filp', w') \<Longrightarrow> driver_step K w w'"
| step_user: "driver_step K w (w\<lparr>umem := m\<rparr>)"
| step_kernel: "(\<And>a. a \<in> set (owned (device w)) \<Longrightarrow> h a = heap w a) \<Longrightarrow> driver_step K w (w\<lparr>heap := h\<rparr>)"

inductive reachable :: "kernel \<Rightarrow> kworld \<Rightarrow> bool" for K where
  loaded: "device w = zero_device \<Longrightarrow> reachable K w"
| step: "reachable K w \<Longrightarrow> driver_step K w w' \<Longrightarrow> reachable K w'"

lemma zero_device_inv: "device w = zero_device \<Longrightarrow> dev_inv w"
  by (simp add: dev_inv_def storage_inv_def zero_device_def ring_wf_def ring_list_def
      working_ok_def owned_def ring_addrs_def)

lemma zero_device_store: "store_of zero_device h = \<lparr>commands = [], pending = []\<rparr>"
  by (simp add: store_of_def zero_device_def ring_list_def)

lemma lost_working_inv:
  "storage_inv d h \<Longrightarrow> storage_inv (d\<lparr>working_entry := (working_entry d)\<lparr>buffptr := Null\<rparr>\<rparr>) h"
  using working_size_bound [of h "working_entry d"]
  by (auto simp: storage_inv_def working_ok_def owned_def ring_addrs_def)

lemma write_keeps_inv:
  assumes "kernel_laws K" and "dev_inv w"
  shows "\<exists>r pos' w'. aesd_write K intr filp buf cnt pos w = returns (r, pos', w') \<and> dev_inv w'"
  using assms
proof (cases rule: aesd_write_cases [where filp = filp and buf = buf and cnt = cnt and fpos = pos and intr = intr])
  case (eperm f p blk)
  with assms storage_inv_with_buf(1) [of "device w" "heap w" p] show ?thesis by (simp add: dev_inv_def)
next
  case lost
  with assms lost_working_inv show ?thesis by (simp add: dev_inv_def)
qed (use assms in \<open>simp_all add: dev_inv_def\<close>)

lemma read_keeps_inv:
  assumes "kernel_laws K" and "dev_inv w"
  shows "\<exists>r pos' w'. aesd_read K intr filp buf cnt pos w = returns (r, pos', w') \<and> dev_inv w' \<and>
    device w' = device w \<and> heap w' = heap w"
  using assms
proof (cases rule: aesd_read_cases [where filp = filp and buf = buf and cnt = cnt and fpos = pos and intr = intr])
qed (use assms in \<open>simp_all add: dev_inv_def\<close>)

lemma llseek_keeps_world:
  assumes "dev_inv w"
  shows "\<exists>r filp'. aesd_llseek K intr filp off whence w = returns (r, filp', w)"
proof -
  consider "filp = None" | f where "filp = Some f" "\<not> private_data f" | f where "filp = Some f" "private_data f" "intr"
    | f where "filp = Some f" "private_data f" "\<not> intr"
    by (cases filp) auto
  then show ?thesis
  proof cases
    case 4
    with aesd_llseek_run [OF assms] show ?thesis by (simp add: Let_def)
  qed (simp_all add: aesd_llseek_def locking)
qed

lemma ioctl_keeps_world:
  assumes "dev_inv w"
  shows "(\<exists>r filp'. aesd_ioctl K intr filp cmd arg w = returns (r, filp', w)) \<or>
    (aesd_ioctl K intr filp cmd arg w = fails Out_Of_Bounds \<and>
     write_cmd (seekto_of_bytes (snd (copy_from_user K (umem w) (unat arg) 8))) = 10)"
proof -
  obtain nc bs where cfu: "copy_from_user K (umem w) (unat arg) 8 = (nc, bs)"
    by (cases "copy_from_user K (umem w) (unat arg) 8")
  have ten: "unat (write_cmd (seekto_of_bytes bs)) = 10 \<longleftrightarrow> write_cmd (seekto_of_bytes bs) = 10"
    by (simp add: word_unat_eq_iff)
  consider "filp = None" | f where "filp = Some f" "\<not> private_data f"
    | f where "filp = Some f" "private_data f" "cmd \<noteq> AESDCHAR_IOCSEEKTO \<or> nc \<noteq> 0 \<or> intr"
    | f where "filp = Some f" "private_data f" "cmd = AESDCHAR_IOCSEEKTO" "nc = 0" "\<not> intr"
    by (cases filp) auto
  then show ?thesis
  proof cases
    case 4
    with cfu aesd_ioctl_run [OF assms 4(2,5)] ten show ?thesis by auto
  qed (auto simp: aesd_ioctl_def locking cfu Let_def)
qed

lemma step_keeps_inv:
  assumes "driver_step K w w'" and "kernel_laws K" and "dev_inv w"
  shows "dev_inv w'"
  using assms(1)
proof cases
  case (step_read intr filp buf cnt pos r pos')
  with read_keeps_inv [OF assms(2,3), of intr filp buf cnt pos] show ?thesis by auto
next
  case (step_write intr filp buf cnt pos r pos')
  with write_keeps_inv [OF assms(2,3), of intr filp buf cnt pos] show ?thesis by auto
next
  case (step_llseek intr filp off whence r filp')
  with llseek_keeps_world [OF assms(3), of K intr filp off whence] assms(3) show ?thesis by auto
next
  case (step_ioctl intr filp cmd arg r filp')
  with ioctl_keeps_world [OF assms(3), of K intr filp cmd arg] assms(3) show ?thesis by auto
next
  case (step_user m)
  with assms(3) show ?thesis by (simp add: dev_inv_def)
next
  case (step_kernel h)
  with assms(3) storage_inv_frame [of "device w" "heap w" h] show ?thesis by (simp add: dev_inv_def)
qed

lemma reachable_inv: "reachable K w \<Longrightarrow> kernel_laws K \<Longrightarrow> dev_inv w"
proof (induction rule: reachable.induct)
  case (loaded w)
  then show ?case by (simp add: zero_device_inv)
next
  case (step w w')
  then show ?case using step_keeps_inv by blast
qed

end
