(* ===== verification/Driver_Properties.thy ===== *)
theory Driver_Properties
  imports Driver_Runs
begin

text \<open>
  The properties of the character driver that the development claims, each with a concrete run on
  \<open>small_kernel\<close> that shows its hypotheses can hold.
\<close>

section \<open>Concrete runs\<close>

definition opened :: open_file where
  "opened = \<lparr>private_data = True, f_pos = 0\<rparr>"

text \<open>A freshly loaded device and a process whose memory at address 8 holds the given bytes.\<close>

definition fresh_world :: "byte list \<Rightarrow> kworld" where
  "fresh_world bs = \<lparr>device = zero_device, heap = Map.empty, umem = user_store Map.empty 8 bs\<rparr>"

text \<open>A client that puts bytes at address 8 and writes them.\<close>

definition put :: "kernel \<Rightarrow> kworld \<Rightarrow> byte list \<Rightarrow> (i64 \<times> i64 \<times> kworld) comp" where
  "put K w bs = aesd_write K False (Some opened) 8 (of_nat (length bs)) 0 (w\<lparr>umem := user_store (umem w) 8 bs\<rparr>)"

definition put_all :: "kernel \<Rightarrow> kworld \<Rightarrow> byte list list \<Rightarrow> kworld comp" where
  "put_all K w bss = foldC (\<lambda>w bs. bindC (put K w bs) (\<lambda>(r, pos, w'). returns w')) w bss"

lemma fresh_inv: "dev_inv (fresh_world bs)"
  by (simp add: fresh_world_def zero_device_inv)

lemma fresh_intact: "working_intact (device (fresh_world bs))"
  by (simp add: working_intact_def fresh_world_def zero_device_def)

lemma fresh_reachable: "reachable K (fresh_world bs)"
  by (rule loaded) (simp add: fresh_world_def)

lemma put_all_reachable: "put_all K w bss = returns w' \<Longrightarrow> reachable K w \<Longrightarrow> reachable K w'"
proof (induction bss arbitrary: w)
  case (Cons bs bss)
  then obtain r pos w1 where 1: "put K w bs = returns (r, pos, w1)" and rest: "put_all K w1 bss = returns w'"
    by (auto simp: put_all_def bindC_eq_returns)
  have "driver_step K (w\<lparr>umem := user_store (umem w) 8 bs\<rparr>) w1"
    using 1 unfolding put_def by (rule step_write)
  then have "reachable K w1"
    using reachable.step [OF reachable.step [OF Cons.prems(2) step_user]] by blast
  with rest show ?case by (rule Cons.IH)
qed (simp add: put_all_def)

abbreviation world_store :: "kworld \<Rightarrow> command_store" where
  "world_store w \<equiv> store_of (device w) (heap w)"

text \<open>A line: one letter repeated, then a newline.\<close>

definition line :: "nat \<Rightarrow> byte \<Rightarrow> byte list" where
  "line n c = replicate n c @ [newline]"

section \<open>Memory safety\<close>

text \<open>
  C2: In every state that any sequence of system calls can lead to, whatever the arguments, no
  read, write or seek runs into a fault or fails to return: no null pointer is followed, no block
  is used after it was freed or freed twice, no access leaves its block, and no mutex is taken
  twice or released unlocked. The seek command is safe except for the one command number 10.
\<close>

theorem driver_never_faults:
  assumes "kernel_laws K" and "reachable K w"
  shows "(\<exists>x. aesd_read K intr filp buf cnt pos w = returns x) \<and>
    (\<exists>x. aesd_write K intr filp buf cnt pos w = returns x) \<and>
    (\<exists>x. aesd_llseek K intr filp off whence w = returns x) \<and>
    ((\<exists>x. aesd_ioctl K intr filp cmd arg w = returns x) \<or>
     write_cmd (seekto_of_bytes (snd (copy_from_user K (umem w) (unat arg) 8))) = 10)"
proof -
  have inv: "dev_inv w" using assms reachable_inv by blast
  show ?thesis
    using read_keeps_inv [OF assms(1) inv, of intr filp buf cnt pos]
      write_keeps_inv [OF assms(1) inv, of intr filp buf cnt pos]
      llseek_keeps_world [OF inv, of K intr filp off whence]
      ioctl_keeps_world [OF inv, of K intr filp cmd arg]
    by auto
qed

theorem driver_never_faults_witness:
  "\<exists>w. reachable small_kernel w \<and> commands (world_store w) = [line 2 CHR ''a''] \<and>
     (\<exists>x. aesd_read small_kernel False (Some opened) 8 3 1 w = returns x)"
proof -
  have "observe (\<lambda>w. commands (world_store w)) (put_all small_kernel (fresh_world []) [line 2 CHR ''a'']) =
      returns [line 2 CHR ''a'']"
    by code_simp
  then obtain w where w: "put_all small_kernel (fresh_world []) [line 2 CHR ''a''] = returns w"
    "commands (world_store w) = [line 2 CHR ''a'']"
    by (rule observe_returnsE)
  from w(1) have "reachable small_kernel w" by (rule put_all_reachable) (rule fresh_reachable)
  with w(2) driver_never_faults [OF small_kernel_laws this, of False "Some opened" 8 3 1] show ?thesis
    by blast
qed

section \<open>Writing\<close>

text \<open>
  C10: While no \<open>krealloc\<close> has failed on an unfinished command (\<open>working_intact\<close>: a command without a block
  has no bytes; after such a failure a write would store bytes that nobody wrote, see
  \<open>Driver_Lifecycle\<close>), a write that succeeds reports all its bytes and advances the file position by them,
  the condition stays true, and the device then holds what it should: without a newline the bytes are appended to the unfinished
  command; with one, the bytes up to it complete the command, which becomes the newest of the ten
  most recent.
\<close>

theorem write_appends_command:
  assumes "kernel_laws K" and "dev_inv w" and "working_intact (device w)"
    and "aesd_write K intr filp buf cnt pos w = returns (r, pos', w')" and "0 \<le> sint r"
  shows "r = cnt \<and> pos' = pos + cnt \<and> dev_inv w' \<and> working_intact (device w') \<and>
    (\<exists>bs. length bs = unat cnt \<and> user_bytes (umem w) buf bs \<and>
          world_store w' = store_write bs (world_store w))"
  using assms(1,2)
proof (cases rule: aesd_write_cases [where filp = filp and buf = buf and cnt = cnt and fpos = pos and intr = intr])
  case (ok bs d' h')
  with assms show ?thesis by (auto simp: dev_inv_def)
qed (use assms(4,5) in auto)

lemma put_two_bytes:
  obtains r pos' w' where "aesd_write small_kernel False (Some opened) 8 3 0 (fresh_world (line 2 CHR ''a'')) =
      returns (r, pos', w')" and "0 \<le> sint r" and "commands (world_store w') = [line 2 CHR ''a'']"
    and "w' \<noteq> fresh_world (line 2 CHR ''a'')"
proof -
  have "observe (\<lambda>(r, pos', w'). (r, commands (world_store w')))
      (aesd_write small_kernel False (Some opened) 8 3 0 (fresh_world (line 2 CHR ''a''))) =
      returns (3, [line 2 CHR ''a''])"
    by code_simp
  then obtain x where "aesd_write small_kernel False (Some opened) 8 3 0 (fresh_world (line 2 CHR ''a'')) = returns x"
    "(\<lambda>(r, pos', w'). (r, commands (world_store w'))) x = (3, [line 2 CHR ''a''])"
    by (rule observe_returnsE)
  moreover have "commands (world_store (fresh_world bs)) = []" for bs
    by (simp add: fresh_world_def zero_device_store)
  ultimately show thesis using that by (cases x) fastforce
qed

theorem write_appends_command_witness:
  "\<exists>w'. aesd_write small_kernel False (Some opened) 8 3 0 (fresh_world (line 2 CHR ''a'')) = returns (3, 3, w') \<and>
        dev_inv w'"
proof (rule put_two_bytes)
  fix r pos' w'
  assume "aesd_write small_kernel False (Some opened) 8 3 0 (fresh_world (line 2 CHR ''a'')) = returns (r, pos', w')"
    and "0 \<le> sint r"
  with write_appends_command [OF small_kernel_laws fresh_inv fresh_intact this] show ?thesis by auto
qed

text \<open>
  C21: A successful write neither leaks nor steals memory: the heap outside the blocks that the
  device owns is exactly what it was, so the call's own buffer and the command it pushed out of
  the ring are freed, once, and nothing else is.
\<close>

theorem write_frees_exactly:
  assumes "kernel_laws K" and "dev_inv w"
    and "aesd_write K intr filp buf cnt pos w = returns (r, pos', w')" and "0 \<le> sint r"
  shows "foreign (device w') (heap w') = foreign (device w) (heap w)"
  using assms(1,2)
proof (cases rule: aesd_write_cases [where filp = filp and buf = buf and cnt = cnt and fpos = pos and intr = intr])
  case (ok bs d' h')
  with assms(3) show ?thesis by auto
qed (use assms(3,4) in auto)

theorem write_frees_exactly_witness:
  "\<exists>w'. aesd_write small_kernel False (Some opened) 8 3 0 (fresh_world (line 2 CHR ''a'')) = returns (3, 3, w') \<and>
        foreign (device w') (heap w') = Map.empty"
proof (rule put_two_bytes)
  fix r pos' w'
  assume w: "aesd_write small_kernel False (Some opened) 8 3 0 (fresh_world (line 2 CHR ''a'')) = returns (r, pos', w')"
    and r: "0 \<le> sint r"
  from small_kernel_laws fresh_inv [of "line 2 CHR ''a''"] w r have "r = 3 \<and> pos' = 3"
    by (cases rule: aesd_write_cases [where filp = "Some opened" and buf = 8 and cnt = 3 and fpos = 0 and intr = False])
      auto
  with w write_frees_exactly [OF small_kernel_laws fresh_inv w r] show ?thesis
    by (auto simp: foreign_def fresh_world_def)
qed

text \<open>
  C32: A write that fails leaves the file position and every stored command as they were, and
  unless it ran out of memory or the file has no device, the whole state.
\<close>

theorem write_failure_harmless:
  assumes "kernel_laws K" and "dev_inv w"
    and "aesd_write K intr filp buf cnt pos w = returns (r, pos', w')" and "sint r < 0"
  shows "pos' = pos \<and> commands (world_store w') = commands (world_store w) \<and>
    (r = - ENOMEM \<or> r = - EPERM \<or> w' = w)"
  using assms(1,2)
proof (cases rule: aesd_write_cases [where filp = filp and buf = buf and cnt = cnt and fpos = pos and intr = intr])
  case (eperm f p blk)
  with assms storage_inv_with_buf(2) [of "device w" "heap w" p] show ?thesis by (auto simp: dev_inv_def)
next
  case (ok bs d' h')
  then have "0 \<le> sint cnt"
    by (subst sint_unat_u64) (auto simp: KMALLOC_MAX_SIZE_value)
  with ok assms(3,4) show ?thesis by simp
qed (use assms(3,4) in \<open>auto simp: store_of_def\<close>)

theorem write_failure_harmless_witness:
  "\<exists>pos' w'. aesd_write small_kernel True (Some opened) 8 3 5 (fresh_world (line 2 CHR ''a'')) =
      returns (- ERESTARTSYS, pos', w') \<and> pos' = 5 \<and> w' = fresh_world (line 2 CHR ''a'')"
proof -
  let ?w = "aesd_write small_kernel True (Some opened) 8 3 5 (fresh_world (line 2 CHR ''a''))"
  have "observe (\<lambda>(r, pos', w'). r) ?w = returns (- ERESTARTSYS)" by code_simp
  then obtain x where x: "?w = returns x" "(\<lambda>(r, pos', w'). r) x = - ERESTARTSYS" by (rule observe_returnsE)
  then obtain pos' w' where w: "?w = returns (- ERESTARTSYS, pos', w')" by (cases x) auto
  from write_failure_harmless [OF small_kernel_laws fresh_inv w] w show ?thesis by auto
qed

text \<open>
  A sequence of successful writes, with arbitrary activity of the process in its own memory between
  them, and the bytes each of them wrote.
\<close>

inductive writes :: "kernel \<Rightarrow> kworld \<Rightarrow> byte list list \<Rightarrow> kworld \<Rightarrow> bool" for K where
  writes_none: "writes K w [] w"
| writes_one: "aesd_write K intr filp buf cnt pos (w\<lparr>umem := m\<rparr>) = returns (r, pos', w') \<Longrightarrow>
    0 \<le> sint r \<Longrightarrow> length bs = unat cnt \<Longrightarrow> user_bytes m buf bs \<Longrightarrow>
    writes K w' bss w'' \<Longrightarrow> writes K w (bs # bss) w''"

lemma writes_fold:
  assumes "writes K w bss w''" and "kernel_laws K" and "dev_inv w" and "working_intact (device w)"
  shows "world_store w'' = foldl (\<lambda>s bs. store_write bs s) (world_store w) bss"
  using assms
proof (induction rule: writes.induct)
  case (writes_one intr filp buf cnt pos m w r pos' w' bs bss w'')
  have "dev_inv (w\<lparr>umem := m\<rparr>)" using writes_one.prems by (simp add: dev_inv_def)
  from writes_one.prems(1) this show ?case
  proof (cases rule: aesd_write_cases [where filp = filp and buf = buf and cnt = cnt and fpos = pos and intr = intr])
    case (ok bs' d' h')
    then have "bs' = bs" using writes_one.hyps user_bytes_unique [of m buf bs' bs] by simp
    with ok writes_one show ?thesis by (auto simp: dev_inv_def)
  qed (use writes_one.hyps(1,2) in auto)
qed simp

definition is_line :: "byte list \<Rightarrow> bool" where
  "is_line bs \<longleftrightarrow> bs \<noteq> [] \<and> last bs = newline \<and> newline \<notin> set (butlast bs)"

lemma store_write_line:
  assumes "is_line bs"
  shows "store_write bs s = s\<lparr>commands := last_n 10 (commands s @ [pending s @ bs]), pending := []\<rparr>"
proof -
  obtain ls where bs: "bs = ls @ [newline]" "newline \<notin> set ls"
    using assms by (metis append_butlast_last_id is_line_def)
  then have "memchr bs newline = Some (length ls)" by (simp add: memchr_append_newline)
  with bs show ?thesis by (simp add: store_write_def)
qed

lemma foldl_store_lines:
  "\<forall>bs \<in> set bss. is_line bs \<Longrightarrow> pending s = [] \<Longrightarrow> length (commands s) \<le> 10 \<Longrightarrow>
   foldl (\<lambda>s bs. store_write bs s) s bss = \<lparr>commands = last_n 10 (commands s @ bss), pending = []\<rparr>"
  by (induction bss arbitrary: s) (simp_all add: store_write_line)

text \<open>
  C13: After loading the driver and writing any number of lines, one per write, the device holds
  exactly the ten most recent lines, oldest first, and nothing unfinished.
\<close>

theorem device_keeps_last_ten_lines:
  assumes "kernel_laws K" and "device w = zero_device" and "writes K w bss w'"
    and "\<forall>bs \<in> set bss. is_line bs"
  shows "world_store w' = \<lparr>commands = last_n 10 bss, pending = []\<rparr>"
proof -
  have "world_store w' = foldl (\<lambda>s bs. store_write bs s) (world_store w) bss"
    using assms zero_device_inv [of w]
    by (intro writes_fold) (simp_all add: working_intact_def zero_device_def)
  with assms(2,4) show ?thesis by (simp add: zero_device_store foldl_store_lines)
qed

theorem device_keeps_last_ten_lines_witness:
  "\<exists>w'. writes small_kernel (fresh_world []) [line 2 CHR ''a''] w' \<and>
        world_store w' = \<lparr>commands = [line 2 CHR ''a''], pending = []\<rparr>"
proof (rule put_two_bytes)
  fix r pos' w'
  assume w: "aesd_write small_kernel False (Some opened) 8 3 0 (fresh_world (line 2 CHR ''a'')) = returns (r, pos', w')"
    and r: "0 \<le> sint r"
  let ?m = "user_store Map.empty 8 (line 2 CHR ''a'')"
  have "fresh_world (line 2 CHR ''a'') = (fresh_world [])\<lparr>umem := ?m\<rparr>" by (simp add: fresh_world_def)
  then have run: "writes small_kernel (fresh_world []) [line 2 CHR ''a''] w'"
    using writes_one [of small_kernel False "Some opened" 8 3 0 ?m "fresh_world []" r pos' w' "line 2 CHR ''a''" "[]" w']
      w r writes_none by (simp add: line_def)
  have "is_line (line 2 CHR ''a'')" by (simp add: is_line_def line_def)
  with device_keeps_last_ten_lines [OF small_kernel_laws _ run] run show ?thesis
    by (auto simp: fresh_world_def)
qed

section \<open>Reading\<close>

text \<open>
  A read that returns a positive number delivers that many bytes of the stored commands from
  the file position on, no more than asked for, advances the position by them and changes nothing
  in the device.
\<close>

theorem read_delivers_contents:
  assumes "kernel_laws K" and "dev_inv w"
    and "aesd_read K intr filp buf cnt pos w = returns (r, pos', w')" and "0 < sint r"
  shows "\<exists>bs. bs = take (unat r) (drop (unat pos) (contents (world_store w))) \<and>
    length bs = unat r \<and> unat r \<le> unat cnt \<and> user_bytes (umem w') buf bs \<and> pos' = pos + r \<and>
    device w' = device w \<and> heap w' = heap w"
  using assms(1,2)
proof (cases rule: aesd_read_cases [where filp = filp and buf = buf and cnt = cnt and fpos = pos and intr = intr])
  case (ok k off n)
  let ?x = "drop off (commands (world_store w) ! k)"
  have r: "unat r = min (unat cnt) (length ?x)" using ok(2,3) assms(3) by simp
  have "take (unat r) (drop (unat pos) (contents (world_store w))) =
      take (unat r) (?x @ concat (drop (Suc k) (commands (world_store w))))"
    using locate_drop_concat [OF ok(1)] by (simp add: contents_def)
  also have "\<dots> = take (unat cnt) ?x" using r by (simp add: min_def)
  finally have bs: "take (unat r) (drop (unat pos) (contents (world_store w))) = take (unat cnt) ?x" .
  have "length (take (unat cnt) ?x) = unat r" and "unat r \<le> unat cnt"
    using r by (simp_all add: min.commute)
  moreover have "user_bytes (umem w') buf (take (unat cnt) ?x)" "pos' = pos + r"
    "device w' = device w" "heap w' = heap w"
    using ok(3) assms(3) by auto
  ultimately show ?thesis unfolding bs by blast
qed (use assms(3,4) in auto)

definition two_lines :: kworld where
  "two_lines = (case put_all small_kernel (fresh_world []) [line 2 CHR ''a'', line 3 CHR ''b''] of
     Some (Inr w) \<Rightarrow> w\<lparr>umem := user_store (umem w) 8 (line 5 nul)\<rparr> | _ \<Rightarrow> fresh_world [])"

lemma two_lines_reachable: "reachable small_kernel two_lines"
proof (cases "put_all small_kernel (fresh_world []) [line 2 CHR ''a'', line 3 CHR ''b'']")
  case None
  then show ?thesis by (simp add: two_lines_def fresh_reachable)
next
  case (Some x)
  then show ?thesis
    by (cases x) (auto simp: two_lines_def fresh_reachable
        intro!: reachable.step [OF put_all_reachable step_user])
qed

lemma two_lines_inv: "dev_inv two_lines"
  using two_lines_reachable small_kernel_laws by (rule reachable_inv)

lemma two_lines_store:
  "world_store two_lines = \<lparr>commands = [line 2 CHR ''a'', line 3 CHR ''b''], pending = []\<rparr>"
  by code_simp

theorem read_delivers_contents_witness:
  "\<exists>w'. aesd_read small_kernel False (Some opened) 8 2 4 two_lines = returns (2, 6, w') \<and>
        user_bytes (umem w') 8 [CHR ''b'', CHR ''b'']"
proof -
  have "observe (\<lambda>(r, pos', w'). (r, pos')) (aesd_read small_kernel False (Some opened) 8 2 4 two_lines) =
      returns (2, 6)"
    by code_simp
  then obtain x where "aesd_read small_kernel False (Some opened) 8 2 4 two_lines = returns x"
    "(\<lambda>(r, pos', w'). (r, pos')) x = (2, 6)"
    by (rule observe_returnsE)
  then obtain w' where w': "aesd_read small_kernel False (Some opened) 8 2 4 two_lines = returns (2, 6, w')"
    by (cases x) auto
  have "take (unat (2 :: i64)) (drop (unat (4 :: i64)) (contents (world_store two_lines))) = [CHR ''b'', CHR ''b'']"
    unfolding two_lines_store by code_simp
  with read_delivers_contents [OF small_kernel_laws two_lines_inv w'] w' show ?thesis by simp
qed

text \<open>
  C11: A client that reads with any non-empty buffer until a read answers 0 always gets to the end,
  and has then read exactly the stored commands from its start position to the end.
\<close>

theorem reading_returns_everything:
  assumes "kernel_laws K" and "dev_inv w" and "private_data f" and "buf \<noteq> 0" and "cnt \<noteq> 0"
    and "\<And>m u bs. fst (copy_to_user K m u bs) = 0"
  shows "reads K f buf cnt w pos bs \<longleftrightarrow> bs = drop (unat pos) (contents (world_store w))"
  using assms by (intro reads_iff)

text \<open>A kernel whose copies to user memory never fail.\<close>

definition copying_kernel :: kernel where
  "copying_kernel = small_kernel\<lparr>copy_to_user := \<lambda>m u bs. (0, user_store m u bs)\<rparr>"

lemma copying_kernel_laws: "kernel_laws copying_kernel"
  using small_kernel_laws by (simp add: kernel_laws_def copying_kernel_def)

theorem reading_returns_everything_witness:
  "reads copying_kernel opened 8 3 two_lines 4 [CHR ''b'', CHR ''b'', newline]"
proof -
  have "drop (unat (4 :: i64)) (contents (world_store two_lines)) = [CHR ''b'', CHR ''b'', newline]"
    unfolding two_lines_store by code_simp
  then show ?thesis
    by (subst reading_returns_everything [OF copying_kernel_laws two_lines_inv])
      (simp_all add: opened_def copying_kernel_def)
qed

text \<open>
  C22: Round trip: a line that a write has stored as a command of its own is read back byte for byte
  by any client that starts reading as many bytes before the end of the device's contents as the
  line is long, with a buffer of any size.
\<close>

theorem written_line_read_back:
  assumes "kernel_laws K" and "dev_inv w" and "working_intact (device w)" and "pending (world_store w) = []"
    and "aesd_write K intr filp buf cnt pos w = returns (r, pos', w')" and "0 \<le> sint r"
    and "user_bytes (umem w) buf bs" and "length bs = unat cnt" and "is_line bs"
    and "private_data f" and "ubuf \<noteq> 0" and "ucnt \<noteq> 0" and "\<And>m u bs. fst (copy_to_user K m u bs) = 0"
  shows "reads K f ubuf ucnt w' (of_nat (length (contents (world_store w')) - length bs)) bs"
proof -
  have w': "dev_inv w' \<and> world_store w' = store_write bs (world_store w)"
    using assms(1,2)
  proof (cases rule: aesd_write_cases [where filp = filp and buf = buf and cnt = cnt and fpos = pos and intr = intr])
    case (ok bs' d' h')
    moreover have "bs' = bs" using ok assms(7,8) user_bytes_unique [of "umem w" buf bs' bs] by simp
    ultimately show ?thesis using assms(3,5) by (auto simp: dev_inv_def)
  qed (use assms(5,6) in auto)
  then have "commands (world_store w') = last_n 10 (commands (world_store w) @ [bs])"
    using assms(4,9) by (simp add: store_write_line)
  then obtain cs where cs: "commands (world_store w') = cs @ [bs]"
    using last_n_snoc_butlast [of 10 "commands (world_store w)" bs] by auto
  have small: "length (contents (world_store w')) < 2 ^ 64"
    using contents_bound [of "device w'" "heap w'"] w' by (auto simp: KMALLOC_MAX_SIZE_value)
  have "unat (of_nat (length (contents (world_store w')) - length bs) :: i64) = length (contents (world_store w')) - length bs"
    using small by (intro unat_of_nat_u64) linarith
  then show ?thesis
    using w' cs assms(1,10-13) by (subst reads_iff) (simp_all add: contents_def)
qed

theorem written_line_read_back_witness:
  "\<exists>w'. aesd_write copying_kernel False (Some opened) 8 3 0 (fresh_world (line 2 CHR ''a'')) = returns (3, 3, w') \<and>
    reads copying_kernel opened 8 2 w' (of_nat (length (contents (world_store w')) - 3)) (line 2 CHR ''a'')"
proof -
  have "observe (\<lambda>(r, pos', w'). (r, pos')) (aesd_write copying_kernel False (Some opened) 8 3 0 (fresh_world (line 2 CHR ''a''))) =
      returns (3, 3)"
    by code_simp
  then obtain w' where w': "aesd_write copying_kernel False (Some opened) 8 3 0 (fresh_world (line 2 CHR ''a'')) = returns (3, 3, w')"
    by (rule observe_returnsE) auto
  have "user_bytes (umem (fresh_world (line 2 CHR ''a''))) 8 (line 2 CHR ''a'')"
    by code_simp
  moreover have "is_line (line 2 CHR ''a'')" by (simp add: is_line_def line_def)
  ultimately show ?thesis
    using written_line_read_back [OF copying_kernel_laws fresh_inv fresh_intact _ w', of "line 2 CHR ''a''" opened 8 2] w'
    by (auto simp: fresh_world_def zero_device_store line_def opened_def copying_kernel_def)
qed

section \<open>The shape of the state\<close>

text \<open>
  C27: In every state that system calls can lead to the device has its type's shape: ten slots, both
  offsets inside them, the mutex free between calls, and every stored entry pointing to a live,
  non-empty heap block of exactly the recorded size, no two entries to the same one.
\<close>

theorem reachable_state_typed:
  assumes "kernel_laws K" and "reachable K w"
  shows "length (entry (buffer (device w))) = 10 \<and> unat (in_offs (buffer (device w))) < 10 \<and>
    unat (out_offs (buffer (device w))) < 10 \<and> \<not> buf_mutex (device w) \<and>
    (\<forall>e \<in> set (ring_list (buffer (device w))). \<exists>a blk. buffptr e = Ptr a \<and> heap w a = Some blk \<and>
       blk \<noteq> [] \<and> length blk = unat (entry_size e)) \<and>
    distinct (map buffptr (ring_list (buffer (device w))))"
proof -
  have inv: "storage_inv (device w) (heap w)" "\<not> buf_mutex (device w)" using assms reachable_inv by blast+
  then have "distinct (map buffptr (ring_list (buffer (device w))))" by (intro distinct_buffers)
  moreover have "\<forall>e \<in> set (ring_list (buffer (device w))). \<exists>a blk. buffptr e = Ptr a \<and> heap w a = Some blk \<and>
      blk \<noteq> [] \<and> length blk = unat (entry_size e)"
    using inv(1) unfolding storage_inv_def entry_ok_def by blast
  ultimately show ?thesis using inv by (simp add: storage_inv_def ring_wf_def)
qed

theorem reachable_state_typed_witness:
  "\<not> buf_mutex (device two_lines) \<and> distinct (map buffptr (ring_list (buffer (device two_lines)))) \<and>
    commands (world_store two_lines) = [line 2 CHR ''a'', line 3 CHR ''b'']"
  using reachable_state_typed [OF small_kernel_laws two_lines_reachable] by (simp add: two_lines_store)

end
