(* ===== verification/Driver_Seek.thy ===== *)
theory Driver_Seek
  imports Driver_Properties
begin

text \<open>
  Repositioning and its limits: what \<open>aesd_llseek\<close> and the seek command of \<open>aesd_ioctl\<close> do to
  the file position, and where the seek command departs from what it is for, because it counts
  array slots instead of commands and accepts one slot too many.
\<close>

section \<open>llseek\<close>

text \<open>Where the three classical \<open>whence\<close> values aim, in a device with \<open>len\<close> bytes.\<close>

definition seek_target :: "i64 \<Rightarrow> i64 \<Rightarrow> i32 \<Rightarrow> nat \<Rightarrow> int" where
  "seek_target pos off whence len =
     (if whence = 0 then sint off else if whence = 1 then sint (pos + off)
      else sint (of_nat len + off))"

lemma contents_sint:
  assumes "storage_inv d h"
  shows "sint (of_nat (length (contents (store_of d h))) :: i64) = int (length (contents (store_of d h)))"
    and "length (contents (store_of d h)) < 2 ^ 63"
proof -
  show b: "length (contents (store_of d h)) < 2 ^ 63"
    using contents_bound [OF assms] by (simp add: KMALLOC_MAX_SIZE_value)
  then have "unat (of_nat (length (contents (store_of d h))) :: i64) = length (contents (store_of d h))"
    by (intro unat_of_nat_u64) simp
  with b sint_unat_u64 show "sint (of_nat (length (contents (store_of d h))) :: i64) =
      int (length (contents (store_of d h)))" by metis
qed

lemma sint_word_of_int:
  assumes "0 \<le> t" and "t < 2 ^ 63"
  shows "sint (word_of_int t :: i64) = t"
  using assms by (simp add: sint_sbintrunc' signed_take_bit_int_eq_self)

text \<open>
  Seeking from the start, from the current position (by a non-zero amount) or from the end
  accepts exactly the positions from 0 to the total length of the stored commands; it then sets
  the file position to the target and returns it, and otherwise it answers \<open>-EINVAL\<close> and leaves
  the file alone. The device is never changed.
\<close>

theorem llseek_sets_position:
  fixes off :: i64
  assumes "seek_law K" and "dev_inv w" and "private_data f"
    and "whence = 0 \<or> (whence = 1 \<and> off \<noteq> 0) \<or> whence = 2"
  shows "let n = length (contents (world_store w)); t = seek_target (f_pos f) off whence n in
    aesd_llseek K False (Some f) off whence w =
      returns (if 0 \<le> t \<and> t \<le> int n
               then (word_of_int t, Some (f\<lparr>f_pos := word_of_int t\<rparr>), w)
               else (- EINVAL, Some f, w))"
proof -
  let ?n = "length (contents (world_store w))"
  let ?t = "seek_target (f_pos f) off whence ?n"
  have inv: "storage_inv (device w) (heap w)" using assms(2) by (rule dev_invD)
  have "fixed_size_llseek K (f_pos f) off whence (of_nat ?n) =
      (if 0 \<le> ?t \<and> ?t \<le> int ?n then word_of_int ?t else - 22)"
    using assms(1,4) contents_sint(1) [OF inv] by (auto simp: seek_law_def seek_target_def Let_def)
  moreover have "sint (word_of_int ?t :: i64) = ?t" if "0 \<le> ?t" "?t \<le> int ?n"
    using that contents_sint(2) [OF inv] by (intro sint_word_of_int) auto
  moreover have "sint (- 22 :: i64) = - 22" by simp
  ultimately show ?thesis
    using aesd_llseek_run [OF assms(2,3), of False K off whence] by (auto simp: Let_def)
qed

theorem llseek_sets_position_witness:
  "aesd_llseek small_kernel False (Some opened) (- 3) 2 two_lines = returns (4, Some (opened\<lparr>f_pos := 4\<rparr>), two_lines) \<and>
   aesd_llseek small_kernel False (Some opened) 8 0 two_lines = returns (- EINVAL, Some opened, two_lines)"
proof -
  have n: "length (contents (world_store two_lines)) = 7"
    unfolding two_lines_store by code_simp
  have "seek_target (f_pos opened) (- 3) 2 7 = 4" "seek_target (f_pos opened) 8 0 7 = 8"
    by code_simp+
  with llseek_sets_position [OF small_kernel_seek two_lines_inv, of opened 2 "- 3"]
    llseek_sets_position [OF small_kernel_seek two_lines_inv, of opened 0 8] n
  show ?thesis by (simp add: opened_def Let_def)
qed

section \<open>The seek command\<close>

lemma ring_list_unwrapped:
  assumes "ring_wf b" and "out_offs b = 0"
  shows "take (length (ring_list b)) (entry b) = ring_list b"
    and "length (ring_list b) \<le> i \<Longrightarrow> i < 10 \<Longrightarrow> entry b ! i = zero_entry"
  using assms by (auto simp: ring_list_def ring_wf_def split: if_splits)

lemma nth_concat_pos:
  "c < length xss \<Longrightarrow> x < length (xss ! c) \<Longrightarrow>
   concat xss ! (sum_list (map length (take c xss)) + x) = xss ! c ! x \<and>
   sum_list (map length (take c xss)) + x < length (concat xss)"
proof (induction xss arbitrary: c)
  case (Cons xs xss)
  then show ?case by (cases c) (auto simp: nth_append)
qed simp

text \<open>The position of byte \<open>x\<close> of command \<open>c\<close> in the contents, and that it is not too large for a position.\<close>

lemma contents_at:
  assumes inv: "storage_inv d h" and c: "c < length (commands (store_of d h))"
    and x: "x < length (commands (store_of d h) ! c)"
  defines "p \<equiv> sum_list (map length (take c (commands (store_of d h)))) + x"
  shows "contents (store_of d h) ! p = commands (store_of d h) ! c ! x" and "unat (of_nat p :: i64) = p"
proof -
  show "contents (store_of d h) ! p = commands (store_of d h) ! c ! x"
    using nth_concat_pos [OF c x] by (simp add: contents_def p_def)
  have "p < length (contents (store_of d h))"
    using nth_concat_pos [OF c x] by (simp add: contents_def p_def)
  with contents_sint(2) [OF inv] have "p < 2 ^ 64" by simp
  then show "unat (of_nat p :: i64) = p" by (simp add: unat_of_nat_u64)
qed

text \<open>The seek command on a device whose ring has not wrapped.\<close>

lemma ioctl_seek_run:
  assumes "dev_inv w" and "private_data f" and "out_offs (buffer (device w)) = 0"
    and "copy_from_user K (umem w) (unat arg) 8 = (0, bs)"
  defines "c \<equiv> unat (write_cmd (seekto_of_bytes bs))"
    and "x \<equiv> unat (write_cmd_offset (seekto_of_bytes bs))"
    and "cmds \<equiv> commands (world_store w)"
  assumes "c \<noteq> 10"
  shows "if c < length cmds \<and> x < length (cmds ! c)
    then \<exists>p. aesd_ioctl K False (Some f) AESDCHAR_IOCSEEKTO arg w = returns (0, Some (f\<lparr>f_pos := p\<rparr>), w) \<and>
             unat p = sum_list (map length (take c cmds)) + x \<and>
             contents (world_store w) ! unat p = cmds ! c ! x
    else aesd_ioctl K False (Some f) AESDCHAR_IOCSEEKTO arg w = returns (- EINVAL, Some f, w)"
proof -
  let ?b = "buffer (device w)"
  have inv: "storage_inv (device w) (heap w)" and wf: "ring_wf ?b"
    using assms(1) by (simp_all add: dev_inv_def storage_inv_def)
  have len: "length cmds = length (ring_list ?b)" by (simp add: cmds_def store_of_def)
  have sizes: "map length cmds = map esize (ring_list ?b)"
    using store_lengths [OF inv] by (simp add: cmds_def)
  have run: "aesd_ioctl K False (Some f) AESDCHAR_IOCSEEKTO arg w =
    (if c > 10 \<or> x \<ge> esize (entry ?b ! c) then returns (- EINVAL, Some f, w)
     else returns (0, Some (f\<lparr>f_pos := of_nat (sum_list (map esize (take c (entry ?b))) + x)\<rparr>), w))"
    using aesd_ioctl_run [OF assms(1,2) _ assms(4), of False] \<open>c \<noteq> 10\<close> by (simp add: c_def x_def)
  show ?thesis
  proof (cases "c < length cmds")
    case True
    have ent: "take c (entry ?b) = take c (ring_list ?b)" "entry ?b ! c = ring_list ?b ! c"
      using ring_list_unwrapped(1) [OF wf assms(3)] True len
      by (metis min.strict_order_iff take_take, metis nth_take)
    have sz: "esize (entry ?b ! c) = length (cmds ! c)"
      using True len ent sizes by (metis nth_map)
    have sum: "sum_list (map esize (take c (entry ?b))) = sum_list (map length (take c cmds))"
      using ent sizes by (metis take_map)
    have "c < 10" using True len ring.view_bound [OF wf] by simp
    note contents_at [OF inv, of c x, folded cmds_def]
    then show ?thesis using True \<open>c < 10\<close> by (auto simp: run sz sum)
  next
    case False
    then have "c > 10 \<or> esize (entry ?b ! c) = 0"
      using ring_list_unwrapped(2) [OF wf assms(3), of c] \<open>c \<noteq> 10\<close> len by (cases "c < 10") auto
    with False show ?thesis by (auto simp: run)
  qed
qed

text \<open>
  C31: As long as the ring has not wrapped, and when its argument can be read and waiting for the mutex is
  not interrupted, the seek command does what it is for: given the number of a stored command and an
  offset inside it, it moves the file position to that very byte of the contents and answers 0; given
  anything else it answers \<open>-EINVAL\<close> and leaves the file alone, except that command number 10 passes the
  bounds check and is read behind the array of ten slots.
\<close>

theorem ioctl_seeks_to_command:
  assumes "dev_inv w" and "private_data f" and "out_offs (buffer (device w)) = 0"
    and "copy_from_user K (umem w) (unat arg) 8 = (0, bs)"
  defines "c \<equiv> unat (write_cmd (seekto_of_bytes bs))"
    and "x \<equiv> unat (write_cmd_offset (seekto_of_bytes bs))"
    and "cmds \<equiv> commands (world_store w)"
  shows "if c = 10 then aesd_ioctl K False (Some f) AESDCHAR_IOCSEEKTO arg w = fails Out_Of_Bounds
    else if c < length cmds \<and> x < length (cmds ! c)
    then \<exists>p. aesd_ioctl K False (Some f) AESDCHAR_IOCSEEKTO arg w = returns (0, Some (f\<lparr>f_pos := p\<rparr>), w) \<and>
             unat p = sum_list (map length (take c cmds)) + x \<and>
             contents (world_store w) ! unat p = cmds ! c ! x
    else aesd_ioctl K False (Some f) AESDCHAR_IOCSEEKTO arg w = returns (- EINVAL, Some f, w)"
proof (cases "c = 10")
  case True
  then show ?thesis using aesd_ioctl_run [OF assms(1,2) _ assms(4), of False] by (simp add: c_def)
next
  case False
  from ioctl_seek_run [OF assms(1-4) False [unfolded c_def]] False show ?thesis unfolding c_def x_def cmds_def by simp
qed

text \<open>A process whose memory at address 8 holds the argument structure.\<close>

definition asks :: "nat \<Rightarrow> nat \<Rightarrow> kworld \<Rightarrow> kworld" where
  "asks c x w = w\<lparr>umem := user_store Map.empty 8
     [char_of c, nul, nul, nul, char_of x, nul, nul, nul]\<rparr>"

lemma asks_simps [simp]: "device (asks c x w) = device w" "heap (asks c x w) = heap w"
  by (simp_all add: asks_def)

lemma asks_inv: "dev_inv w \<Longrightarrow> dev_inv (asks c x w)"
  by (simp add: dev_inv_def)

theorem ioctl_seeks_to_command_witness:
  "\<exists>p. aesd_ioctl small_kernel False (Some opened) AESDCHAR_IOCSEEKTO 8 (asks 1 2 two_lines) =
        returns (0, Some (opened\<lparr>f_pos := p\<rparr>), asks 1 2 two_lines) \<and>
       unat p = 5 \<and> contents (world_store two_lines) ! unat p = CHR ''b''"
proof -
  let ?bs = "[char_of (1 :: nat), nul, nul, nul, char_of (2 :: nat), nul, nul, nul]"
  have copied: "copy_from_user small_kernel (umem (asks 1 2 two_lines)) (unat (8 :: u64)) 8 = (0, ?bs)"
    unfolding asks_def by code_simp
  have unwrapped: "out_offs (buffer (device (asks 1 2 two_lines))) = 0" by code_simp
  have cmd: "unat (write_cmd (seekto_of_bytes ?bs)) = 1" "unat (write_cmd_offset (seekto_of_bytes ?bs)) = 2"
    by code_simp+
  show ?thesis
    using ioctl_seeks_to_command [OF asks_inv [OF two_lines_inv] _ unwrapped copied, of opened] cmd
    by (simp add: opened_def two_lines_store line_def nth_append)
qed

text \<open>
  The bounds check of the seek command lets command number 10 through, although the array has
  ten slots: the code then reads behind the array.
\<close>

theorem ioctl_reads_behind_array:
  assumes "dev_inv w" and "private_data f"
    and "copy_from_user K (umem w) (unat arg) 8 = (0, bs)" and "write_cmd (seekto_of_bytes bs) = 10"
  shows "aesd_ioctl K False (Some f) AESDCHAR_IOCSEEKTO arg w = fails Out_Of_Bounds"
  using aesd_ioctl_run [OF assms(1,2) _ assms(3), of False] assms(4) by simp

theorem ioctl_reads_behind_array_witness:
  "aesd_ioctl small_kernel False (Some opened) AESDCHAR_IOCSEEKTO 8 (asks 10 0 two_lines) = fails Out_Of_Bounds"
proof -
  let ?bs = "[char_of (10 :: nat), nul, nul, nul, char_of (0 :: nat), nul, nul, nul]"
  have copied: "copy_from_user small_kernel (umem (asks 10 0 two_lines)) (unat (8 :: u64)) 8 = (0, ?bs)"
    unfolding asks_def by code_simp
  have cmd: "write_cmd (seekto_of_bytes ?bs) = 10"
    by code_simp
  from ioctl_reads_behind_array [OF asks_inv [OF two_lines_inv] _ copied cmd, of opened]
  show ?thesis by (simp add: opened_def)
qed

text \<open>
  Once the ring has wrapped, slot order is no longer the order of the contents. The device after
  eleven lines, the last of them longer than the others.
\<close>

definition eleven_lines :: "byte list list" where
  "eleven_lines = replicate 10 (line 1 CHR ''a'') @ [line 3 CHR ''b'']"

text \<open>
  After eleven lines, asking for the start of command number 1 succeeds but leads into the
  middle of command number 2: the code adds up the slots of the array, whose first now holds the
  newest command, and not the commands from the oldest on.
\<close>

theorem ioctl_miscounts_after_wrap:
  "\<exists>w p. reachable small_kernel w \<and> length (commands (world_store w)) = 10 \<and>
     aesd_ioctl small_kernel False (Some opened) AESDCHAR_IOCSEEKTO 8 (asks 1 0 w) =
       returns (0, Some (opened\<lparr>f_pos := p\<rparr>), asks 1 0 w) \<and>
     unat p = 4 \<and> sum_list (map length (take 1 (commands (world_store w)))) = 2"
proof -
  have "observe (\<lambda>w. (map length (commands (world_store w)),
      observe (\<lambda>(r, f, w'). (r, f))
        (aesd_ioctl small_kernel False (Some opened) AESDCHAR_IOCSEEKTO 8 (asks 1 0 w))))
    (put_all small_kernel (fresh_world []) eleven_lines) =
    returns (replicate 9 2 @ [4], returns (0, Some (opened\<lparr>f_pos := 4\<rparr>)))"
    by code_simp
  then obtain w where w: "put_all small_kernel (fresh_world []) eleven_lines = returns w"
    and lens: "map length (commands (world_store w)) = replicate 9 2 @ [4]"
    and io: "observe (\<lambda>(r, f, w'). (r, f))
        (aesd_ioctl small_kernel False (Some opened) AESDCHAR_IOCSEEKTO 8 (asks 1 0 w)) = returns (0, Some (opened\<lparr>f_pos := 4\<rparr>))"
    by (elim observe_returnsE) auto
  have reach: "reachable small_kernel w" by (rule put_all_reachable [OF w fresh_reachable])
  have inv: "dev_inv w" using reach small_kernel_laws by (rule reachable_inv)
  from ioctl_keeps_world [OF asks_inv [OF inv],
      of small_kernel False "Some opened" AESDCHAR_IOCSEEKTO 8 1 0] io
  have run: "aesd_ioctl small_kernel False (Some opened) AESDCHAR_IOCSEEKTO 8 (asks 1 0 w) =
      returns (0, Some (opened\<lparr>f_pos := 4\<rparr>), asks 1 0 w)"
    by (elim observe_returnsE) auto
  have "length (map length (commands (world_store w))) = 10" unfolding lens by simp
  moreover have "sum_list (take 1 (map length (commands (world_store w)))) = 2" unfolding lens by simp
  ultimately have "length (commands (world_store w)) = 10" "sum_list (map length (take 1 (commands (world_store w)))) = 2"
    by (simp_all flip: take_map)
  with reach run show ?thesis by fastforce
qed

end
