(* ===== verification/Driver_Lifecycle.thy ===== *)
theory Driver_Lifecycle
  imports Driver_Properties
begin

text \<open>
  Loading and unloading the module, and what becomes of bytes that do not fit the
  one-line-per-write pattern: bytes after a newline, an unfinished command whose reallocation
  fails, and an unfinished command when the module is unloaded.
\<close>

section \<open>Loading\<close>

text \<open>
  Loading the module either registers both the device number and the device, and leaves an
  empty device that satisfies the invariant and is ready for the file operations, or fails and
  leaves neither registered.
\<close>

theorem init_registers_both_or_none:
  assumes "\<not> region_registered m" and "\<not> cdev_registered m" and "sint alloc_result \<le> 0"
  shows "case aesd_init_module alloc_result dev cdev_err m of (r, m') \<Rightarrow>
    (r = 0 \<longleftrightarrow> alloc_result = 0 \<and> cdev_err = 0) \<and>
    (region_registered m' \<longleftrightarrow> r = 0) \<and> (cdev_registered m' \<longleftrightarrow> r = 0) \<and> aesd_major m' = drop_bit 20 dev \<and>
    (r = 0 \<longrightarrow> \<not> buf_mutex (device m') \<and> storage_inv (device m') (heap m') \<and>
               store_of (device m') (heap m') = \<lparr>commands = [], pending = []\<rparr>)"
proof -
  have dev: "zero_device\<lparr>buf_mutex := False, buffer := aesd_circular_buffer_init (buffer zero_device)\<rparr> = zero_device"
    by (simp add: zero_device_def aesd_circular_buffer_init_def)
  have zero: "storage_inv zero_device h" "\<not> buf_mutex zero_device" for h
    using zero_device_inv [of "\<lparr>device = zero_device, heap = h, umem = Map.empty\<rparr>"]
    by (simp_all add: dev_inv_def)
  have neg: "sint alloc_result < 0 \<longleftrightarrow> alloc_result \<noteq> 0"
    using assms(3) by (metis less_le sint_0 signed_eq_0_iff)
  show ?thesis
    using assms(1,2) dev zero
    by (auto simp: aesd_init_module_def aesd_setup_cdev_def neg Let_def zero_device_store)
qed

definition unloaded :: module where
  "unloaded = \<lparr>device = zero_device, heap = Map.empty, umem = Map.empty,
     aesd_major = 0, region_registered = False, cdev_registered = False\<rparr>"

theorem init_registers_both_or_none_witness:
  "(case aesd_init_module 0 (push_bit 20 240) 0 unloaded of (r, m') \<Rightarrow>
      r = 0 \<and> region_registered m' \<and> cdev_registered m' \<and> aesd_major m' = 240) \<and>
   (case aesd_init_module 0 (push_bit 20 240) (- 12) unloaded of (r, m') \<Rightarrow>
      r \<noteq> 0 \<and> \<not> region_registered m' \<and> \<not> cdev_registered m')"
proof -
  have major: "drop_bit 20 (push_bit 20 240 :: u32) = 240" by code_simp
  show ?thesis
    using init_registers_both_or_none [where m = unloaded and alloc_result = 0 and dev = "push_bit 20 240" and cdev_err = 0]
      init_registers_both_or_none [where m = unloaded and alloc_result = 0 and dev = "push_bit 20 240" and cdev_err = "- 12"]
    by (simp add: major unloaded_def split: prod.splits)
qed

section \<open>Unloading\<close>

text \<open>
  C39: Unloading the module returns, unregisters everything and frees the block of every stored
  command, each exactly once and nothing else; an unfinished command is not freed, its block stays
  allocated although the last pointer to it is gone.
\<close>

theorem cleanup_frees_stored_only:
  assumes "kernel_laws K" and "storage_inv (device m) (heap m)"
  shows "\<exists>m'. aesd_cleanup_module K m = returns m' \<and> \<not> region_registered m' \<and> \<not> cdev_registered m' \<and>
    (\<forall>a. heap m' a = (if a \<in> set (ring_addrs (device m)) then None else heap m a)) \<and>
    (\<forall>a. buffptr (working_entry (device m)) = Ptr a \<longrightarrow> heap m' a = heap m a \<and> heap m' a \<noteq> None)"
proof -
  obtain m' where m': "aesd_cleanup_module K m = returns m'" "\<not> region_registered m'" "\<not> cdev_registered m'"
    and heap: "heap m' = heap m |` (- set (ring_addrs (device m)))"
    using cleanup_run [OF assms] by blast
  have leak: "heap m' a = heap m a \<and> heap m' a \<noteq> None" if "buffptr (working_entry (device m)) = Ptr a" for a
  proof -
    have "a \<in> set (owned (device m))" "a \<notin> set (ring_addrs (device m))"
      using that assms(2) by (auto simp: owned_def storage_inv_def)
    with owned_live [OF assms(2)] show ?thesis by (simp add: heap restrict_map_def)
  qed
  have "\<forall>a. heap m' a = (if a \<in> set (ring_addrs (device m)) then None else heap m a)"
    by (simp add: heap restrict_map_def)
  with m' leak show ?thesis by blast
qed

text \<open>The module with one finished and one unfinished command.\<close>

definition as_module :: "kworld \<Rightarrow> module" where
  "as_module w = \<lparr>device = device w, heap = heap w, umem = umem w,
     aesd_major = 240, region_registered = True, cdev_registered = True\<rparr>"

theorem cleanup_frees_stored_only_witness:
  "\<exists>w m'. reachable small_kernel w \<and> aesd_cleanup_module small_kernel (as_module w) = returns m' \<and>
     ring_addrs (device w) = [2] \<and> heap m' 2 = None \<and> heap m' 3 = Some [CHR ''b'']"
proof -
  have "observe (\<lambda>w. (ring_addrs (device w), buffptr (working_entry (device w)), heap w 3))
      (put_all small_kernel (fresh_world []) [line 1 CHR ''a'', [CHR ''b'']]) =
      returns ([2], Ptr 3, Some [CHR ''b''])"
    by code_simp
  then obtain w where w: "put_all small_kernel (fresh_world []) [line 1 CHR ''a'', [CHR ''b'']] = returns w"
    and dev: "ring_addrs (device w) = [2]" "buffptr (working_entry (device w)) = Ptr 3" "heap w 3 = Some [CHR ''b'']"
    by (elim observe_returnsE) auto
  have reach: "reachable small_kernel w" by (rule put_all_reachable [OF w fresh_reachable])
  have "storage_inv (device (as_module w)) (heap (as_module w))"
    using reachable_inv [OF reach small_kernel_laws] by (simp add: dev_inv_def as_module_def)
  from cleanup_frees_stored_only [OF small_kernel_laws this] reach dev show ?thesis
    by (auto simp: as_module_def)
qed

section \<open>Bytes after a newline\<close>

text \<open>
  A successful write of a buffer with something behind its first newline reports the whole
  buffer as written, but stores only the bytes up to the newline; the rest is dropped.
\<close>

theorem write_drops_rest:
  assumes "kernel_laws K" and "dev_inv w" and "working_intact (device w)"
    and "aesd_write K intr filp buf cnt pos w = returns (r, pos', w')" and "0 \<le> sint r"
    and "user_bytes (umem w) buf (ls @ newline # rest)" and "newline \<notin> set ls"
    and "unat cnt = length (ls @ newline # rest)"
  shows "r = cnt \<and> pos' = pos + cnt \<and> world_store w' =
    \<lparr>commands = last_n 10 (commands (world_store w) @ [pending (world_store w) @ ls @ [newline]]), pending = []\<rparr>"
  using assms(1,2)
proof (cases rule: aesd_write_cases [where filp = filp and buf = buf and cnt = cnt and fpos = pos and intr = intr])
  case (ok bs d' h')
  then have "bs = ls @ newline # rest"
    using assms(6,8) user_bytes_unique [of "umem w" buf bs "ls @ newline # rest"] by simp
  moreover have "memchr (ls @ newline # rest) newline = Some (length ls)"
    using assms(7) by (induction ls) auto
  ultimately show ?thesis using ok assms(3,4) by (simp add: store_write_def)
qed (use assms(4,5) in auto)

theorem write_drops_rest_witness:
  "\<exists>w'. aesd_write small_kernel False (Some opened) 8 4 0 (fresh_world (line 1 CHR ''a'' @ line 1 CHR ''b'')) =
      returns (4, 4, w') \<and> world_store w' = \<lparr>commands = [line 1 CHR ''a''], pending = []\<rparr>"
proof -
  let ?w = "fresh_world (line 1 CHR ''a'' @ line 1 CHR ''b'')"
  have "observe (\<lambda>(r, pos', w'). r) (aesd_write small_kernel False (Some opened) 8 4 0 ?w) = returns 4"
    by code_simp
  then obtain x where x: "aesd_write small_kernel False (Some opened) 8 4 0 ?w = returns x"
    "(\<lambda>(r, pos', w'). r) x = 4"
    by (rule observe_returnsE)
  then obtain pos' w' where w': "aesd_write small_kernel False (Some opened) 8 4 0 ?w = returns (4, pos', w')"
    by (cases x) auto
  have bytes: "user_bytes (umem ?w) 8 ([CHR ''a''] @ newline # line 1 CHR ''b'')"
    by (simp add: fresh_world_def line_def)
  from write_drops_rest [OF small_kernel_laws fresh_inv fresh_intact w' _ bytes] w' show ?thesis
    by (simp add: line_def fresh_world_def zero_device_store)
qed

section \<open>A failed reallocation\<close>

text \<open>
  C38: When the kernel cannot enlarge the unfinished command, the write answers \<open>-ENOMEM\<close>, and
  the bytes collected so far are lost: the only pointer to their block is overwritten with
  \<open>NULL\<close> while the block stays allocated, and their number is kept although there are none.
\<close>

theorem failed_realloc_loses_pending:
  assumes "kernel_laws K" and "dev_inv w"
    and "aesd_write K intr filp buf cnt pos w = returns (- ENOMEM, pos', w')" and "w' \<noteq> w"
  shows "pending (world_store w') = [] \<and> commands (world_store w') = commands (world_store w) \<and>
    entry_size (working_entry (device w')) = entry_size (working_entry (device w)) \<and>
    (\<forall>a. buffptr (working_entry (device w)) = Ptr a \<longrightarrow>
       heap w' a = Some (pending (world_store w)) \<and> a \<notin> set (owned (device w')))"
  using assms(1,2)
proof (cases rule: aesd_write_cases [where filp = filp and buf = buf and cnt = cnt and fpos = pos and intr = intr])
  case lost
  have inv: "storage_inv (device w) (heap w)" using assms(2) by (rule dev_invD)
  have w': "device w' = (device w)\<lparr>working_entry := (working_entry (device w))\<lparr>buffptr := Null\<rparr>\<rparr>"
    "heap w' = heap w"
    using lost assms(3) by auto
  have "heap w' a = Some (pending (world_store w)) \<and> a \<notin> set (owned (device w'))"
    if "buffptr (working_entry (device w)) = Ptr a" for a
    using that inv w' working_live [OF inv]
    by (auto simp: store_of_def owned_def ring_addrs_def storage_inv_def)
  with w' show ?thesis by (simp add: store_of_def)
next
  case (ok bs d' h')
  then have "0 \<le> sint cnt"
    by (subst sint_unat_u64) (auto simp: KMALLOC_MAX_SIZE_value)
  moreover have "cnt = - ENOMEM" using ok assms(3) by simp
  ultimately show ?thesis by simp
qed (use assms(3,4) in auto)

text \<open>A kernel that cannot enlarge anything beyond four bytes.\<close>

definition tight_kernel :: kernel where
  "tight_kernel = small_kernel\<lparr>krealloc := \<lambda>h p n. if 4 < n then (Null, h) else small_krealloc h p n\<rparr>"

lemma tight_kernel_laws: "kernel_laws tight_kernel"
proof -
  have "krealloc small_kernel = small_krealloc" by (simp add: small_kernel_def)
  moreover have "fresh_block h n (Null, h)" "moved_block h a blk n (Null, h)" for h n a blk
    by (simp_all add: fresh_block_def moved_block_def)
  moreover have "\<not> (4 :: u64) < 0" by simp
  ultimately show ?thesis
    using small_kernel_laws by (simp add: kernel_laws_def tight_kernel_def)
qed

text \<open>
  The witness continues after the failure: the next line is stored behind two bytes nobody wrote.
\<close>

theorem failed_realloc_loses_pending_witness:
  "\<exists>w w1 w2. reachable tight_kernel w \<and> put tight_kernel w (line 3 CHR ''c'') = returns (- ENOMEM, 0, w1) \<and>
     pending (world_store w) = ''ab'' \<and> pending (world_store w1) = [] \<and> heap w1 2 = Some ''ab'' \<and>
     put_all tight_kernel w1 [line 1 CHR ''d''] = returns w2 \<and>
     commands (world_store w2) = [[nul, nul, CHR ''d'', newline]]"
proof -
  let ?after = "\<lambda>w1. observe (\<lambda>w2. commands (world_store w2)) (put_all tight_kernel w1 [line 1 CHR ''d''])"
  let ?fail = "\<lambda>w. observe (\<lambda>(r, pos, w1). (r, pos, buffptr (working_entry (device w1)), ?after w1))
    (put tight_kernel w (line 3 CHR ''c''))"
  have "observe (\<lambda>w. (buffptr (working_entry (device w)), pending (world_store w), ?fail w))
      (put_all tight_kernel (fresh_world []) [''ab'']) =
    returns (Ptr 2, ''ab'', returns (- ENOMEM, 0, Null, returns [[nul, nul, CHR ''d'', newline]]))"
    by code_simp
  then obtain w where w: "put_all tight_kernel (fresh_world []) [''ab''] = returns w"
    and dev: "buffptr (working_entry (device w)) = Ptr 2" "pending (world_store w) = ''ab''"
    and fail: "?fail w = returns (- ENOMEM, 0, Null, returns [[nul, nul, CHR ''d'', newline]])"
    by (elim observe_returnsE) auto
  from fail obtain w1 where w1: "put tight_kernel w (line 3 CHR ''c'') = returns (- ENOMEM, 0, w1)"
    "buffptr (working_entry (device w1)) = Null"
    and after: "?after w1 = returns [[nul, nul, CHR ''d'', newline]]"
    by (elim observe_returnsE) auto
  from after obtain w2 where w2: "put_all tight_kernel w1 [line 1 CHR ''d''] = returns w2"
    "commands (world_store w2) = [[nul, nul, CHR ''d'', newline]]"
    by (elim observe_returnsE)
  have reach: "reachable tight_kernel w" by (rule put_all_reachable [OF w fresh_reachable])
  let ?w = "w\<lparr>umem := user_store (umem w) 8 (line 3 CHR ''c'')\<rparr>"
  have inv: "dev_inv ?w"
    using reachable_inv [OF reach tight_kernel_laws] by (simp add: dev_inv_def)
  have "w1 \<noteq> ?w" using w1(2) dev(1) by auto
  from failed_realloc_loses_pending [OF tight_kernel_laws inv w1(1) [unfolded put_def] this] dev
  have "pending (world_store w1) = []" "heap w1 2 = Some ''ab''" by auto
  with reach w1(1) dev(2) w2 show ?thesis by blast
qed

end
