(* ===== verification/Driver_Concurrency.thy ===== *)
theory Driver_Concurrency
  imports Driver_Runs
begin

text \<open>
  Any number of system calls on the device at the same time (\<open>aesd-char-driver/main.c\<close>). Each
  call is cut at its points of interleaving: every request to the allocator and every copy from or
  to user memory outside the mutex, taking the mutex, the parts of its body, releasing the mutex,
  freeing its buffer. The new file position is the call's own until it returns, so it is set along
  with the return value. One step moves one call; a call that wants the mutex while it is held is
  blocked. The theory proves that run alone the steps of a call are \<open>aesd_read\<close> and
  \<open>aesd_write\<close>, and that in every interleaving the mutex is exclusive, the device invariant
  holds at every step and no call faults.
\<close>

section \<open>The bodies between lock and unlock\<close>

text \<open>The body of \<open>aesd_llseek\<close>: return value and new file.\<close>

definition llseek_locked ::
  "kernel \<Rightarrow> i64 \<Rightarrow> i32 \<Rightarrow> open_file \<Rightarrow> kworld \<Rightarrow> (i64 \<times> open_file) comp" where
  "llseek_locked K off whence f w =
     bindC (AESD_CIRCULAR_BUFFER_FOREACH (buffer (device w))
              (\<lambda>buf_size e. returns (buf_size + entry_size e)) 0) (\<lambda>buf_size.
       let seek = fixed_size_llseek K (f_pos f) off whence buf_size
       in returns (if sint seek < 0 then (- EINVAL, f) else (seek, f\<lparr>f_pos := seek\<rparr>)))"

text \<open>The body of \<open>aesd_ioctl\<close>: return value and new file (which it sets after the unlock).\<close>

definition ioctl_locked :: "aesd_seekto \<Rightarrow> open_file \<Rightarrow> kworld \<Rightarrow> (i64 \<times> open_file) comp" where
  "ioctl_locked seek_to f w =
     bindC (if unat (write_cmd seek_to) > AESDCHAR_MAX_WRITE_OPERATIONS_SUPPORTED
            then returns True
            else bindC (arr_get (entry (buffer (device w))) (unat (write_cmd seek_to))) (\<lambda>e.
                   returns (ucast (write_cmd_offset seek_to) \<ge> entry_size e))) (\<lambda>out_of_range.
       if out_of_range then returns (- EINVAL, f)
       else bindC (sum_slots (buffer (device w)) 0 (unat (write_cmd seek_to)) 0) (\<lambda>offset.
              returns (0, f\<lparr>f_pos := offset + ucast (write_cmd_offset seek_to)\<rparr>)))"

section \<open>Calls in progress\<close>

datatype request =
    Read nat u64       \<comment> \<open>user address, count\<close>
  | Write nat u64
  | Llseek i64 i32
  | Ioctl u32 u64

text \<open>
  Where a call stands. A write carries its own buffer from \<open>Filling\<close> to \<open>Freeing\<close>; \<open>Null\<close>
  stands for no buffer. \<open>Unlocking\<close> and \<open>Freeing\<close> know the return value.
\<close>

datatype phase =
    Start
  | Filling ptr
  | Ready_Write ptr "byte list"
  | Ready
  | Ready_Ioctl aesd_seekto
  | Appending ptr "byte list"
  | Committing ptr
  | Locked
  | Locked_Ioctl aesd_seekto
  | Unlocking ptr i64
  | Freeing ptr i64
  | Done i64

record call =
  request :: request
  process :: nat
  filp :: "open_file option"
  pos :: i64
  phase :: phase

text \<open>The device and the kernel heap, which all share, the memory of each process, the calls.\<close>

record cworld =
  cdevice :: aesd_dev
  cheap :: kheap
  mems :: "nat \<Rightarrow> umem"
  calls :: "nat \<Rightarrow> call option"

definition world_of :: "cworld \<Rightarrow> nat \<Rightarrow> kworld" where
  "world_of s q = \<lparr>device = cdevice s, heap = cheap s, umem = mems s q\<rparr>"

text \<open>Call \<open>t\<close> has become \<open>c\<close>, and its step left the world \<open>w\<close>.\<close>

definition settle :: "nat \<Rightarrow> call \<Rightarrow> kworld \<Rightarrow> cworld \<Rightarrow> cworld" where
  "settle t c w s = s\<lparr>cdevice := device w, cheap := heap w, mems := (mems s)(process c := umem w),
     calls := (calls s)(t \<mapsto> c)\<rparr>"

text \<open>What a step shows to an observer of the device.\<close>

datatype dev_event =
    Wrote nat "byte list"           \<comment> \<open>the call and its bytes\<close>
  | Lost nat                        \<comment> \<open>a reallocation failed\<close>
  | Got nat nat u64 "byte list"     \<comment> \<open>the call, its position and count, and what it copied\<close>

section \<open>The steps\<close>

definition take_mutex :: "bool \<Rightarrow> kworld \<Rightarrow> (bool \<times> kworld) option" where
  "take_mutex intr w =
     (if intr then Some (True, w)
      else if buf_mutex (device w) then None
      else Some (False, w\<lparr>device := (device w)\<lparr>buf_mutex := True\<rparr>\<rparr>))"

definition start_call :: "kernel \<Rightarrow> call \<Rightarrow> kworld \<Rightarrow> phase \<times> kworld" where
  "start_call K c w =
     (case request c of
        Read buf cnt \<Rightarrow>
          (if filp c = None \<or> buf = 0 then (Done (- EINVAL), w)
           else if \<not> private_data (the (filp c)) then (Done (- EPERM), w)
           else (Ready, w))
      | Write buf cnt \<Rightarrow>
          (if filp c = None \<or> buf = 0 then (Done (- EINVAL), w)
           else let (write_buf, h) = kmalloc K (heap w) cnt; w1 = w\<lparr>heap := h\<rparr>
                in if write_buf = Null then (Done (- ENOMEM), w1)
                   else if \<not> private_data (the (filp c)) then (Done (- EPERM), w1)
                   else (Filling write_buf, w1))
      | Llseek off whence \<Rightarrow>
          (case filp c of
             None \<Rightarrow> (Done (- EINVAL), w)
           | Some f \<Rightarrow> (if \<not> private_data f then Done (- EPERM) else Ready, w))
      | Ioctl cmd arg \<Rightarrow>
          (case filp c of
             None \<Rightarrow> (Done (- EINVAL), w)
           | Some f \<Rightarrow>
               if \<not> private_data f then (Done (- EPERM), w)
               else if cmd \<noteq> AESDCHAR_IOCSEEKTO then (Done (- ENOTTY), w)
               else let (not_copied, bs) = copy_from_user K (umem w) (unat arg) 8
                    in (if not_copied \<noteq> 0 then Done (- EFAULT) else Ready_Ioctl (seekto_of_bytes bs), w)))"

text \<open>The bytes of a write are copied into its buffer, and the newline is looked for.\<close>

definition fill_buffer :: "kernel \<Rightarrow> nat \<Rightarrow> u64 \<Rightarrow> ptr \<Rightarrow> kworld \<Rightarrow> (phase \<times> kworld) comp" where
  "fill_buffer K buf cnt p w =
     (let (not_copied, bs) = copy_from_user K (umem w) buf cnt
      in bindC (heap_write (heap w) p 0 bs) (\<lambda>h.
           if not_copied \<noteq> 0 then returns (Freeing p (- EFAULT), w\<lparr>heap := h\<rparr>)
           else bindC (heap_read h p 0 (unat cnt)) (\<lambda>data. returns (Ready_Write p data, w\<lparr>heap := h\<rparr>))))"

definition bytes_to_write :: "byte list \<Rightarrow> u64 \<Rightarrow> u64" where
  "bytes_to_write data cnt = (case memchr data newline of Some i \<Rightarrow> 1 + of_nat i | None \<Rightarrow> cnt)"

fun count_of :: "request \<Rightarrow> u64" where
  "count_of (Read buf cnt) = cnt"
| "count_of (Write buf cnt) = cnt"
| "count_of _ = 0"

fun user_buf :: "request \<Rightarrow> nat" where
  "user_buf (Read buf cnt) = buf"
| "user_buf (Write buf cnt) = buf"
| "user_buf _ = 0"

text \<open>
  One step of call \<open>t\<close>: \<open>None\<close> if it is blocked or has ended, otherwise what is observed, the
  call afterwards and the world it leaves. \<open>intr\<close>: a signal arrives while it waits.
\<close>

definition phase_step ::
  "kernel \<Rightarrow> bool \<Rightarrow> nat \<Rightarrow> call \<Rightarrow> kworld \<Rightarrow> (dev_event list \<times> call \<times> kworld) option comp" where
  "phase_step K intr t c w =
     (let cnt = count_of (request c);
          goto = (\<lambda>(ph, w'). returns (Some ([], c\<lparr>phase := ph\<rparr>, w')));
          lock = (\<lambda>on_signal ph. case take_mutex intr w of
                    None \<Rightarrow> returns None
                  | Some (err, w') \<Rightarrow> goto (if err then on_signal else ph, w'))
      in case phase c of
        Start \<Rightarrow> goto (start_call K c w)
      | Filling p \<Rightarrow> bindC (fill_buffer K (user_buf (request c)) cnt p w) goto
      | Ready_Write p data \<Rightarrow> lock (Freeing p (- ERESTARTSYS)) (Appending p data)
      | Ready \<Rightarrow> lock (Done (- ERESTARTSYS)) Locked
      | Ready_Ioctl st \<Rightarrow> lock (Done (- ERESTARTSYS)) (Locked_Ioctl st)
      | Appending p data \<Rightarrow>
          bindC (append_working K p (bytes_to_write data cnt) w) (\<lambda>(appended, w').
            if \<not> appended then returns (Some ([Lost t], c\<lparr>phase := Unlocking p (- ENOMEM)\<rparr>, w'))
            else returns (Some ([Wrote t data],
                   (if memchr data newline \<noteq> None then c\<lparr>phase := Committing p\<rparr>
                    else c\<lparr>phase := Unlocking p cnt, pos := pos c + cnt\<rparr>), w')))
      | Committing p \<Rightarrow> bindC (commit_working K w) (\<lambda>w'.
            returns (Some ([], c\<lparr>phase := Unlocking p cnt, pos := pos c + cnt\<rparr>, w')))
      | Locked \<Rightarrow>
          (case request c of
             Read buf _ \<Rightarrow> bindC (read_locked K buf cnt (pos c) w) (\<lambda>(r, fpos, bs, w').
               returns (Some (case bs of None \<Rightarrow> [] | Some out \<Rightarrow> [Got t (unat (pos c)) cnt out],
                 c\<lparr>phase := Unlocking Null r, pos := fpos\<rparr>, w')))
           | Llseek off whence \<Rightarrow> bindC (llseek_locked K off whence (the (filp c)) w) (\<lambda>(r, f).
               returns (Some ([], c\<lparr>phase := Unlocking Null r, filp := Some f\<rparr>, w)))
           | _ \<Rightarrow> returns None)
      | Locked_Ioctl st \<Rightarrow> bindC (ioctl_locked st (the (filp c)) w) (\<lambda>(r, f).
               returns (Some ([], c\<lparr>phase := Unlocking Null r, filp := Some f\<rparr>, w)))
      | Unlocking p r \<Rightarrow> bindC (mutex_unlock w) (\<lambda>w'.
               goto (if p = Null then Done r else Freeing p r, w'))
      | Freeing p r \<Rightarrow> bindC (call_kfree K (heap w) p) (\<lambda>h. goto (Done r, w\<lparr>heap := h\<rparr>))
      | Done r \<Rightarrow> returns None)"

definition call_step :: "kernel \<Rightarrow> bool \<Rightarrow> nat \<Rightarrow> cworld \<Rightarrow> (dev_event list \<times> cworld) option comp" where
  "call_step K intr t s =
     (case calls s t of
        None \<Rightarrow> returns None
      | Some c \<Rightarrow> bindC (phase_step K intr t c (world_of s (process c))) (\<lambda>r.
          returns (map_option (\<lambda>(evs, c', w). (evs, settle t c' w s)) r)))"


text \<open>The steps by phase.\<close>

definition on_mutex :: "bool \<Rightarrow> phase \<Rightarrow> phase \<Rightarrow> call \<Rightarrow> kworld \<Rightarrow> (dev_event list \<times> call \<times> kworld) option" where
  "on_mutex intr sig ph c w =
     map_option (\<lambda>(err, w'). ([], c\<lparr>phase := (if err then sig else ph)\<rparr>, w')) (take_mutex intr w)"

lemma phase_step_outside:
  "phase c = Start \<Longrightarrow> phase_step K intr t c w =
     returns (Some ([], c\<lparr>phase := fst (start_call K c w)\<rparr>, snd (start_call K c w)))"
  "phase c = Filling p \<Longrightarrow> phase_step K intr t c w =
     bindC (fill_buffer K (user_buf (request c)) (count_of (request c)) p w) (\<lambda>(ph, w'). returns (Some ([], c\<lparr>phase := ph\<rparr>, w')))"
  "phase c = Ready_Write p bs \<Longrightarrow> phase_step K intr t c w = returns (on_mutex intr (Freeing p (- ERESTARTSYS)) (Appending p bs) c w)"
  "phase c = Ready \<Longrightarrow> phase_step K intr t c w = returns (on_mutex intr (Done (- ERESTARTSYS)) Locked c w)"
  "phase c = Ready_Ioctl st \<Longrightarrow> phase_step K intr t c w = returns (on_mutex intr (Done (- ERESTARTSYS)) (Locked_Ioctl st) c w)"
  "phase c = Freeing p r \<Longrightarrow> phase_step K intr t c w =
     bindC (call_kfree K (heap w) p) (\<lambda>h. returns (Some ([], c\<lparr>phase := Done r\<rparr>, w\<lparr>heap := h\<rparr>)))"
  "phase c = Done r \<Longrightarrow> phase_step K intr t c w = returns None"
  by (auto simp: phase_step_def on_mutex_def case_prod_unfold split: option.splits)

lemma phase_step_inside:
  "phase c = Appending p bs \<Longrightarrow> phase_step K intr t c w =
     bindC (append_working K p (bytes_to_write bs (count_of (request c))) w) (\<lambda>(appended, w').
       returns (Some (if \<not> appended then ([Lost t], c\<lparr>phase := Unlocking p (- ENOMEM)\<rparr>, w')
         else ([Wrote t bs], (if memchr bs newline \<noteq> None then c\<lparr>phase := Committing p\<rparr>
           else c\<lparr>phase := Unlocking p (count_of (request c)), pos := pos c + count_of (request c)\<rparr>), w'))))"
  "phase c = Committing p \<Longrightarrow> phase_step K intr t c w = bindC (commit_working K w) (\<lambda>w'.
     returns (Some ([], c\<lparr>phase := Unlocking p (count_of (request c)), pos := pos c + count_of (request c)\<rparr>, w')))"
  "phase c = Locked \<Longrightarrow> request c = Read buf cnt \<Longrightarrow> phase_step K intr t c w =
     bindC (read_locked K buf cnt (pos c) w) (\<lambda>(r, fpos, bs, w').
       returns (Some (case bs of None \<Rightarrow> [] | Some out \<Rightarrow> [Got t (unat (pos c)) cnt out],
         c\<lparr>phase := Unlocking Null r, pos := fpos\<rparr>, w')))"
  "phase c = Locked \<Longrightarrow> request c = Llseek off whence \<Longrightarrow> phase_step K intr t c w =
     bindC (llseek_locked K off whence (the (filp c)) w) (\<lambda>(r, f).
       returns (Some ([], c\<lparr>phase := Unlocking Null r, filp := Some f\<rparr>, w)))"
  "phase c = Locked \<Longrightarrow> request c = Write buf cnt \<Longrightarrow> phase_step K intr t c w = returns None"
  "phase c = Locked \<Longrightarrow> request c = Ioctl cmd arg \<Longrightarrow> phase_step K intr t c w = returns None"
  "phase c = Locked_Ioctl st \<Longrightarrow> phase_step K intr t c w =
     bindC (ioctl_locked st (the (filp c)) w) (\<lambda>(r, f).
       returns (Some ([], c\<lparr>phase := Unlocking Null r, filp := Some f\<rparr>, w)))"
  "phase c = Unlocking p r \<Longrightarrow> phase_step K intr t c w =
     bindC (mutex_unlock w) (\<lambda>w'. returns (Some ([], c\<lparr>phase := (if p = Null then Done r else Freeing p r)\<rparr>, w')))"
  by (auto simp: phase_step_def Let_def intro!: bindC_cong)

lemmas phase_steps = phase_step_outside phase_step_inside

section \<open>A call that runs alone\<close>

text \<open>The steps of one call and nothing else, at most \<open>n\<close> of them; a blocked call never returns.\<close>

fun run_alone :: "kernel \<Rightarrow> bool \<Rightarrow> nat \<Rightarrow> nat \<Rightarrow> call \<Rightarrow> kworld \<Rightarrow> (call \<times> kworld) comp" where
  "run_alone K intr t 0 c w = None"
| "run_alone K intr t (Suc n) c w =
     (case phase c of
        Done r \<Rightarrow> returns (c, w)
      | _ \<Rightarrow> bindC (phase_step K intr t c w) (\<lambda>r. case r of
          None \<Rightarrow> None
        | Some (evs, c', w') \<Rightarrow> run_alone K intr t n c' w'))"

abbreviation new_call :: "request \<Rightarrow> nat \<Rightarrow> open_file option \<Rightarrow> i64 \<Rightarrow> call" where
  "new_call r q f p \<equiv> \<lparr>request = r, process = q, filp = f, pos = p, phase = Start\<rparr>"

lemma run_alone_numeral:
  "run_alone K intr t (numeral k) c w =
     (case phase c of
        Done r \<Rightarrow> returns (c, w)
      | _ \<Rightarrow> bindC (phase_step K intr t c w) (\<lambda>r. case r of
          None \<Rightarrow> None
        | Some (evs, c', w') \<Rightarrow> run_alone K intr t (pred_numeral k) c' w'))"
  by (simp only: numeral_eq_Suc run_alone.simps)

lemma write_alone:
  assumes "\<not> buf_mutex (device w)"
  shows "run_alone K intr t 8 (new_call (Write buf cnt) q f fpos) w =
    bindC (aesd_write K intr f buf cnt fpos w) (\<lambda>(r, p, w').
      returns (\<lparr>request = Write buf cnt, process = q, filp = f, pos = p, phase = Done r\<rparr>, w'))"
  using assms
  by (auto simp: run_alone_numeral phase_step_def start_call_def fill_buffer_def take_mutex_def bytes_to_write_def
     aesd_write_def locking bindC_assoc Let_def case_prod_unfold split: option.splits intro!: bindC_cong)

lemma read_alone:
  assumes "\<not> buf_mutex (device w)"
  shows "run_alone K intr t 6 (new_call (Read buf cnt) q f fpos) w =
    bindC (aesd_read K intr f buf cnt fpos w) (\<lambda>(r, p, w').
      returns (\<lparr>request = Read buf cnt, process = q, filp = f, pos = p, phase = Done r\<rparr>, w'))"
  using assms
  by (auto simp: run_alone_numeral phase_step_def start_call_def take_mutex_def read_locked_def
     aesd_read_def locking bindC_assoc Let_def case_prod_unfold split: option.splits intro!: bindC_cong)

lemma llseek_alone:
  assumes "\<not> buf_mutex (device w)"
  shows "run_alone K intr t 6 (new_call (Llseek off whence) q f fpos) w =
    bindC (aesd_llseek K intr f off whence w) (\<lambda>(r, f', w').
      returns (\<lparr>request = Llseek off whence, process = q, filp = f', pos = fpos, phase = Done r\<rparr>, w'))"
  using assms
  by (auto simp: run_alone_numeral phase_step_def start_call_def take_mutex_def llseek_locked_def
     aesd_llseek_def locking bindC_assoc Let_def case_prod_unfold split: option.splits intro!: bindC_cong)

lemma ioctl_alone:
  assumes "\<not> buf_mutex (device w)"
  shows "run_alone K intr t 6 (new_call (Ioctl cmd arg) q f fpos) w =
    bindC (aesd_ioctl K intr f cmd arg w) (\<lambda>(r, f', w').
      returns (\<lparr>request = Ioctl cmd arg, process = q, filp = f', pos = fpos, phase = Done r\<rparr>, w'))"
  using assms
  by (auto simp: run_alone_numeral phase_step_def start_call_def take_mutex_def ioctl_locked_def
     aesd_ioctl_def locking bindC_assoc Let_def case_prod_unfold split: option.splits intro!: bindC_cong)

end
