(* ===== verification/Driver_Interleaving.thy ===== *)
theory Driver_Interleaving
  imports Driver_Concurrency
begin

text \<open>
  Every interleaving of any number of calls on the device: the step relation, the invariant that
  ties the mutex, the calls' own buffers and the device together, and that every step of every
  call keeps it and does not fault.
\<close>

section \<open>The transition system\<close>

inductive cstep :: "kernel \<Rightarrow> cworld \<Rightarrow> dev_event list \<Rightarrow> cworld \<Rightarrow> bool" for K where
  c_call: "call_step K intr t s = returns (Some (evs, s')) \<Longrightarrow> cstep K s evs s'"
| c_begin: "calls s t = None \<Longrightarrow> cstep K s [] (s\<lparr>calls := (calls s)(t \<mapsto> new_call r q f p)\<rparr>)"
| c_user: "cstep K s [] (s\<lparr>mems := m\<rparr>)"

text \<open>The events of a run, in their order.\<close>

inductive crun :: "kernel \<Rightarrow> cworld \<Rightarrow> dev_event list \<Rightarrow> cworld \<Rightarrow> bool" for K s where
  crun_start: "crun K s [] s"
| crun_step: "crun K s evs s' \<Longrightarrow> cstep K s' e s'' \<Longrightarrow> crun K s (evs @ e) s''"

section \<open>The invariant\<close>

fun buf_of :: "phase \<Rightarrow> ptr" where
  "buf_of (Filling p) = p"
| "buf_of (Ready_Write p bs) = p"
| "buf_of (Appending p bs) = p"
| "buf_of (Committing p) = p"
| "buf_of (Unlocking p r) = p"
| "buf_of (Freeing p r) = p"
| "buf_of _ = Null"

fun in_section :: "phase \<Rightarrow> bool" where
  "in_section (Appending p bs) = True"
| "in_section (Committing p) = True"
| "in_section Locked = True"
| "in_section (Locked_Ioctl st) = True"
| "in_section (Unlocking p r) = True"
| "in_section _ = False"

definition bufs :: "call \<Rightarrow> nat set" where
  "bufs c = set (ptr_addrs (buf_of (phase c)))"

definition holds_bytes :: "kheap \<Rightarrow> ptr \<Rightarrow> byte list \<Rightarrow> bool" where
  "holds_bytes h p bs \<longleftrightarrow> (case p of Null \<Rightarrow> False | Zero_Size \<Rightarrow> bs = [] | Ptr a \<Rightarrow> h a = Some bs)"

text \<open>The buffer of a write call is allocated and has its size, and from the copy on its bytes.\<close>

definition call_ok :: "kheap \<Rightarrow> call \<Rightarrow> bool" where
  "call_ok h c \<longleftrightarrow> (case phase c of
       Filling p \<Rightarrow> (\<exists>buf cnt bs. request c = Write buf cnt \<and> holds_bytes h p bs \<and> length bs = unat cnt \<and>
         unat cnt \<le> KMALLOC_MAX_SIZE)
     | Ready_Write p bs \<Rightarrow> (\<exists>buf cnt. request c = Write buf cnt \<and> holds_bytes h p bs \<and> length bs = unat cnt \<and>
         unat cnt \<le> KMALLOC_MAX_SIZE)
     | Appending p bs \<Rightarrow> (\<exists>buf cnt. request c = Write buf cnt \<and> holds_bytes h p bs \<and> length bs = unat cnt \<and>
         unat cnt \<le> KMALLOC_MAX_SIZE)
     | Committing p \<Rightarrow> p \<noteq> Null \<and> live h p
     | Unlocking p r \<Rightarrow> live h p
     | Freeing p r \<Rightarrow> live h p
     | _ \<Rightarrow> True)"

definition cinv :: "cworld \<Rightarrow> bool" where
  "cinv s \<longleftrightarrow> storage_inv (cdevice s) (cheap s) \<and>
     (buf_mutex (cdevice s) \<longleftrightarrow> (\<exists>t c. calls s t = Some c \<and> in_section (phase c))) \<and>
     (\<forall>t u c d. calls s t = Some c \<longrightarrow> calls s u = Some d \<longrightarrow> in_section (phase c) \<longrightarrow> in_section (phase d) \<longrightarrow> t = u) \<and>
     (\<forall>t c. calls s t = Some c \<longrightarrow> call_ok (cheap s) c \<and> bufs c \<inter> set (owned (cdevice s)) = {}) \<and>
     (\<forall>t u c d. calls s t = Some c \<longrightarrow> calls s u = Some d \<longrightarrow> t \<noteq> u \<longrightarrow> bufs c \<inter> bufs d = {}) \<and>
     (\<forall>t c p. calls s t = Some c \<longrightarrow> phase c = Committing p \<longrightarrow> entry_ok (cheap s) (working_entry (cdevice s)))"

lemma cinvD:
  assumes "cinv s"
  shows "storage_inv (cdevice s) (cheap s)"
    and "buf_mutex (cdevice s) \<longleftrightarrow> (\<exists>t c. calls s t = Some c \<and> in_section (phase c))"
    and "calls s t = Some c \<Longrightarrow> calls s u = Some d \<Longrightarrow> in_section (phase c) \<Longrightarrow> in_section (phase d) \<Longrightarrow> t = u"
    and "calls s t = Some c \<Longrightarrow> call_ok (cheap s) c"
    and "calls s t = Some c \<Longrightarrow> bufs c \<inter> set (owned (cdevice s)) = {}"
    and "calls s t = Some c \<Longrightarrow> calls s u = Some d \<Longrightarrow> t \<noteq> u \<Longrightarrow> bufs c \<inter> bufs d = {}"
    and "calls s t = Some c \<Longrightarrow> phase c = Committing p \<Longrightarrow> entry_ok (cheap s) (working_entry (cdevice s))"
proof -
  note inv = assms [unfolded cinv_def]
  note rest = inv [THEN conjunct2, THEN conjunct2]
  show "storage_inv (cdevice s) (cheap s)" by (rule inv [THEN conjunct1])
  show "buf_mutex (cdevice s) \<longleftrightarrow> (\<exists>t c. calls s t = Some c \<and> in_section (phase c))"
    by (rule inv [THEN conjunct2, THEN conjunct1])
  show "calls s t = Some c \<Longrightarrow> calls s u = Some d \<Longrightarrow> in_section (phase c) \<Longrightarrow> in_section (phase d) \<Longrightarrow> t = u"
    by (rule rest [THEN conjunct1, rule_format])
  show "calls s t = Some c \<Longrightarrow> call_ok (cheap s) c" "calls s t = Some c \<Longrightarrow> bufs c \<inter> set (owned (cdevice s)) = {}"
    using rest [THEN conjunct2, THEN conjunct1] by simp_all
  note rest = rest [THEN conjunct2, THEN conjunct2]
  show "calls s t = Some c \<Longrightarrow> calls s u = Some d \<Longrightarrow> t \<noteq> u \<Longrightarrow> bufs c \<inter> bufs d = {}"
    by (rule rest [THEN conjunct1, rule_format])
  show "calls s t = Some c \<Longrightarrow> phase c = Committing p \<Longrightarrow> entry_ok (cheap s) (working_entry (cdevice s))"
    by (rule rest [THEN conjunct2, rule_format])
qed

lemma in_bufs: "a \<in> bufs c \<longleftrightarrow> buf_of (phase c) = Ptr a"
  by (cases "buf_of (phase c)") (auto simp: bufs_def)

lemma holds_bytes_live: "holds_bytes h p bs \<Longrightarrow> p \<noteq> Null \<and> live h p"
  by (cases p) (simp_all add: holds_bytes_def)

lemma call_ok_buf: "call_ok h c \<Longrightarrow> live h (buf_of (phase c))"
  by (cases "phase c") (auto simp: call_ok_def dest: holds_bytes_live)

lemma call_ok_live: "call_ok h c \<Longrightarrow> a \<in> bufs c \<Longrightarrow> h a \<noteq> None"
  using call_ok_buf [of h c] by (simp add: in_bufs)

lemma holds_bytes_frame: "(\<And>a. p = Ptr a \<Longrightarrow> h' a = h a) \<Longrightarrow> holds_bytes h' p bs = holds_bytes h p bs"
  by (cases p) (simp_all add: holds_bytes_def)

lemma live_frame: "(\<And>a. p = Ptr a \<Longrightarrow> h' a = h a) \<Longrightarrow> live h' p = live h p"
  by (cases p) (simp_all add: live_def)

lemma call_ok_frame:
  assumes "\<And>a. a \<in> bufs c \<Longrightarrow> h' a = h a"
  shows "call_ok h' c = call_ok h c"
proof -
  have "h' a = h a" if "buf_of (phase c) = Ptr a" for a using assms that by (simp add: bufs_def)
  note frames = holds_bytes_frame [OF this] live_frame [OF this]
  show ?thesis using frames by (cases "phase c") (simp_all add: call_ok_def)
qed

lemma settle_simps [simp]: "cdevice (settle t c w s) = device w" "cheap (settle t c w s) = heap w"
  by (simp_all add: settle_def)

lemma world_of_simps [simp]:
  "device (world_of s q) = cdevice s" "heap (world_of s q) = cheap s" "umem (world_of s q) = mems s q"
  by (simp_all add: world_of_def)

text \<open>
  A step of call \<open>t\<close> keeps the invariant if it leaves the device in order, the other calls' buffers
  alone, and takes or gives up the mutex with its phase.
\<close>

lemma settle_call_at: "calls (settle t c' w s) u = (if u = t then Some c' else calls s u)"
  by (simp add: settle_def)

lemma settle_mutex:
  assumes inv: "cinv s" and c: "calls s t = Some c"
    and mutex: "buf_mutex (device w) \<longleftrightarrow> in_section (phase c') \<or> (buf_mutex (cdevice s) \<and> \<not> in_section (phase c))"
  shows "buf_mutex (device w) \<longleftrightarrow> (\<exists>u d. calls (settle t c' w s) u = Some d \<and> in_section (phase d))"
proof
  assume "buf_mutex (device w)"
  then show "\<exists>u d. calls (settle t c' w s) u = Some d \<and> in_section (phase d)"
    using mutex cinvD(2) [OF inv] c
    by (cases "in_section (phase c')") (auto simp: settle_call_at intro: exI [of _ t], metis option.inject)
next
  assume "\<exists>u d. calls (settle t c' w s) u = Some d \<and> in_section (phase d)"
  then show "buf_mutex (device w)"
    using mutex cinvD(2) [OF inv] cinvD(3) [OF inv c] by (auto simp: settle_call_at split: if_splits)
qed

lemma settle_bufs:
  assumes inv: "cinv s" and c: "calls s t = Some c"
    and new: "\<And>a. a \<in> bufs c' \<Longrightarrow> a \<in> bufs c \<or> cheap s a = None"
    and two: "calls (settle t c' w s) u = Some c1" "calls (settle t c' w s) v = Some d" "u \<noteq> v"
  shows "bufs c1 \<inter> bufs d = {}"
proof -
  note D = cinvD [OF inv]
  have "bufs c' \<inter> bufs d' = {}" if "calls s v' = Some d'" "v' \<noteq> t" for v' d'
    using new call_ok_live [OF D(4) [OF that(1)]] D(6) [OF that(1) c that(2)] by blast
  from this [of u c1] this [of v d] two [unfolded settle_call_at] D(6) [of u c1 v d] show ?thesis
    by (cases "u = t"; cases "v = t"; simp add: Int_commute)
qed

lemma cinv_settle:
  assumes inv: "cinv s" and c: "calls s t = Some c"
    and storage: "storage_inv (device w) (heap w)"
    and others: "\<And>a. a \<notin> set (owned (cdevice s)) \<Longrightarrow> cheap s a \<noteq> None \<Longrightarrow> a \<notin> bufs c \<Longrightarrow>
      heap w a = cheap s a \<and> a \<notin> set (owned (device w))"
    and own: "call_ok (heap w) c'" "bufs c' \<inter> set (owned (device w)) = {}"
    and new: "\<And>a. a \<in> bufs c' \<Longrightarrow> a \<in> bufs c \<or> cheap s a = None"
    and mutex: "buf_mutex (device w) \<longleftrightarrow> in_section (phase c') \<or> (buf_mutex (cdevice s) \<and> \<not> in_section (phase c))"
    and enter: "in_section (phase c') \<Longrightarrow> in_section (phase c) \<or> \<not> buf_mutex (cdevice s)"
    and commit: "\<And>p. phase c' = Committing p \<Longrightarrow> entry_ok (heap w) (working_entry (device w))"
    and outside: "\<not> in_section (phase c) \<Longrightarrow> entry_ok (cheap s) (working_entry (cdevice s)) \<Longrightarrow>
      entry_ok (heap w) (working_entry (device w))"
  shows "cinv (settle t c' w s)"
proof -
  let ?s = "settle t c' w s"
  note D = cinvD [OF inv]
  note calls = settle_call_at [of t c' w s]
  have other: "heap w a = cheap s a \<and> a \<notin> set (owned (device w))"
    if "calls s u = Some d" "u \<noteq> t" "a \<in> bufs d" for u d a
    using others [of a] that D(5) [OF that(1)] call_ok_live [OF D(4) [OF that(1)] that(3)] D(6) [OF that(1) c that(2)]
    by blast
  have ok: "call_ok (heap w) d \<and> bufs d \<inter> set (owned (device w)) = {}" if "calls ?s u = Some d" for u d
  proof (cases "u = t")
    case True
    then show ?thesis using that own by (simp add: calls)
  next
    case False
    then have d: "calls s u = Some d" using that by (simp add: calls)
    show ?thesis using other [OF d False] call_ok_frame [of d "heap w" "cheap s"] D(4) [OF d] by blast
  qed
  have uniq: "u = v" if "calls ?s u = Some c1" "calls ?s v = Some d" "in_section (phase c1)" "in_section (phase d)" for u v c1 d
    using that enter D(2) D(3) [OF _ c] D(3) by (auto simp: calls split: if_splits)
  have com: "entry_ok (heap w) (working_entry (device w))" if "calls ?s u = Some d" "phase d = Committing p" for u d p
  proof (cases "u = t")
    case False
    then have d: "calls s u = Some d" using that by (simp add: calls)
    then have "\<not> in_section (phase c)" using D(3) [OF d c] that(2) False by auto
    then show ?thesis using outside D(7) [OF d that(2)] by blast
  qed (use that commit in \<open>simp add: calls\<close>)
  show ?thesis
    unfolding cinv_def settle_simps
  proof (intro conjI allI impI)
    show "storage_inv (device w) (heap w)" by (rule storage)
    show "buf_mutex (device w) \<longleftrightarrow> (\<exists>u d. calls ?s u = Some d \<and> in_section (phase d))"
      by (rule settle_mutex [OF inv c mutex])
    show "bufs c1 \<inter> bufs d = {}" if "calls ?s u = Some c1" "calls ?s v = Some d" "u \<noteq> v" for u v c1 d
      by (rule settle_bufs [OF inv c new that])
    show "call_ok (heap w) d" "bufs d \<inter> set (owned (device w)) = {}" if "calls ?s u = Some d" for u d
      using ok [OF that] by simp_all
  qed (fact uniq com)+
qed

section \<open>The kinds of steps\<close>

lemma cinv_outside:
  assumes inv: "cinv s" and c: "calls s t = Some c"
    and out: "\<not> in_section (phase c)" "\<not> in_section (phase c')" and dev: "device w = cdevice s"
    and heap: "\<And>a. a \<notin> bufs c \<Longrightarrow> cheap s a \<noteq> None \<Longrightarrow> heap w a = cheap s a"
    and ok: "call_ok (heap w) c'" and new: "\<And>a. a \<in> bufs c' \<Longrightarrow> a \<in> bufs c \<or> cheap s a = None"
  shows "cinv (settle t c' w s)" and "\<And>a. a \<in> set (owned (cdevice s)) \<Longrightarrow> heap w a = cheap s a"
proof -
  note D = cinvD [OF inv]
  show own: "heap w a = cheap s a" if "a \<in> set (owned (cdevice s))" for a
    using heap that owned_live [OF D(1) that] D(5) [OF c] by blast
  have storage: "storage_inv (device w) (heap w)"
    unfolding dev using D(1) own by (rule storage_inv_frame)
  have disj: "bufs c' \<inter> set (owned (device w)) = {}"
    using new owned_live [OF D(1)] D(5) [OF c] unfolding dev by blast
  have com: "entry_ok (heap w) (working_entry (device w))" if "entry_ok (cheap s) (working_entry (cdevice s))"
  proof -
    have "entry_ok (heap w) (working_entry (cdevice s)) = entry_ok (cheap s) (working_entry (cdevice s))"
      by (rule entry_ok_cong) (rule own, simp add: owned_def)
    with that show ?thesis by (simp add: dev)
  qed
  show "cinv (settle t c' w s)"
  proof (rule cinv_settle [OF inv c storage _ ok disj new])
    show "heap w a = cheap s a \<and> a \<notin> set (owned (device w))"
      if "a \<notin> set (owned (cdevice s))" "cheap s a \<noteq> None" "a \<notin> bufs c" for a
      using that heap by (simp add: dev)
  qed (use out dev com in auto)
qed

lemma cinv_enter:
  assumes inv: "cinv s" and c: "calls s t = Some c" and free: "\<not> buf_mutex (cdevice s)"
    and c': "in_section (phase c')" "\<And>p. phase c' \<noteq> Committing p" "bufs c' = bufs c" "call_ok (cheap s) c'"
    and w: "device w = (cdevice s)\<lparr>buf_mutex := True\<rparr>" "heap w = cheap s"
  shows "cinv (settle t c' w s)"
proof (rule cinv_settle [OF inv c])
  show "storage_inv (device w) (heap w)" "bufs c' \<inter> set (owned (device w)) = {}"
    using cinvD(1) [OF inv] cinvD(5) [OF inv c] by (simp_all add: w c')
qed (use free c' w in auto)

text \<open>Inside the section the device may change, but nothing outside what it owns.\<close>

lemma cinv_inside:
  assumes inv: "cinv s" and c: "calls s t = Some c" and sec: "in_section (phase c)" "in_section (phase c')"
    and mutex: "buf_mutex (device w) = buf_mutex (cdevice s)"
    and storage: "storage_inv (device w) (heap w)"
    and keep: "\<And>a. a \<notin> set (owned (cdevice s)) \<Longrightarrow> cheap s a \<noteq> None \<Longrightarrow>
      heap w a = cheap s a \<and> a \<notin> set (owned (device w))"
    and ok: "call_ok (heap w) c'" and buf: "bufs c' \<subseteq> bufs c"
    and com: "\<And>p. phase c' = Committing p \<Longrightarrow> entry_ok (heap w) (working_entry (device w))"
  shows "cinv (settle t c' w s)"
proof (rule cinv_settle [OF inv c storage])
  show "heap w a = cheap s a \<and> a \<notin> set (owned (device w))"
    if "a \<notin> set (owned (cdevice s))" "cheap s a \<noteq> None" "a \<notin> bufs c" for a using that keep by blast
  show "bufs c' \<inter> set (owned (device w)) = {}"
    using keep buf cinvD(5) [OF inv c] call_ok_live [OF cinvD(4) [OF inv c]] by blast
  show "buf_mutex (device w) = (in_section (phase c') \<or> buf_mutex (cdevice s) \<and> \<not> in_section (phase c))"
    using mutex sec cinvD(2) [OF inv] c by blast
qed (use ok buf sec com in auto)

lemma foreign_keeps:
  assumes "foreign d' h' = foreign d h" and "a \<notin> set (owned d)" and "h a \<noteq> None"
  shows "h' a = h a \<and> a \<notin> set (owned d')"
proof -
  have "foreign d' h' a = h a" using assms by (simp add: foreign_def)
  then show ?thesis using assms(3) foreign_not_owned [of d' h' a] by fastforce
qed

lemma cinv_leave:
  assumes inv: "cinv s" and c: "calls s t = Some c" and sec: "in_section (phase c)" "\<not> in_section (phase c')"
    and w: "device w = (cdevice s)\<lparr>buf_mutex := False\<rparr>" "heap w = cheap s"
    and c': "bufs c' \<subseteq> bufs c" "call_ok (cheap s) c'"
  shows "cinv (settle t c' w s)"
proof (rule cinv_settle [OF inv c])
  show "storage_inv (device w) (heap w)" "bufs c' \<inter> set (owned (device w)) = {}"
    using cinvD(1) [OF inv] cinvD(5) [OF inv c] c' by (auto simp: w)
  show "\<And>p. phase c' = Committing p \<Longrightarrow> entry_ok (heap w) (working_entry (device w))" using sec by auto
qed (use c' sec in \<open>auto simp: w\<close>)

section \<open>What a step does to the store\<close>

text \<open>
  What a call in progress makes of the device: a complete line that a writer has appended counts as
  stored, even before the writer has moved it into the ring.
\<close>

definition seen :: "call \<Rightarrow> aesd_dev \<Rightarrow> kheap \<Rightarrow> command_store" where
  "seen c d h = (case phase c of Committing p \<Rightarrow> complete_pending (store_of d h) | _ \<Rightarrow> store_of d h)"

text \<open>The sequential specification: what the events do to a store, and what a read must answer.\<close>

definition store_read :: "command_store \<Rightarrow> nat \<Rightarrow> nat \<Rightarrow> byte list" where
  "store_read st i n = (case locate (map length (commands st)) i of
     None \<Rightarrow> [] | Some (k, off) \<Rightarrow> take n (drop off (commands st ! k)))"

fun replay :: "command_store \<Rightarrow> dev_event list \<Rightarrow> command_store" where
  "replay st [] = st"
| "replay st (Wrote t bs # es) = replay (store_write bs st) es"
| "replay st (e # es) = replay st es"

fun explains :: "command_store \<Rightarrow> dev_event list \<Rightarrow> bool" where
  "explains st [] \<longleftrightarrow> True"
| "explains st (Wrote t bs # es) \<longleftrightarrow> explains (store_write bs st) es"
| "explains st (Got t i n bs # es) \<longleftrightarrow> bs = store_read st i (unat n) \<and> explains st es"
| "explains st (Lost t # es) \<longleftrightarrow> explains st es"

lemma replay_append: "replay st (es @ fs) = replay (replay st es) fs"
  by (induction st es rule: replay.induct) simp_all

lemma explains_append: "explains st (es @ fs) \<longleftrightarrow> explains st es \<and> explains (replay st es) fs"
  by (induction st es rule: explains.induct) simp_all

text \<open>
  A step that does not fault, keeps the invariant, observes nothing outside the mutex, and does to
  the store what its events say.
\<close>

definition step_good :: "cworld \<Rightarrow> nat \<Rightarrow> call \<Rightarrow> (dev_event list \<times> call \<times> kworld) option comp \<Rightarrow> bool" where
  "step_good s t c r \<longleftrightarrow> (\<exists>res. r = returns res \<and> (\<forall>evs c' w. res = Some (evs, c', w) \<longrightarrow>
     process c' = process c \<and> request c' = request c \<and> cinv (settle t c' w s) \<and>
     (\<not> in_section (phase c) \<longrightarrow> evs = []) \<and>
     ((\<forall>u. Lost u \<notin> set evs) \<longrightarrow> working_intact (cdevice s) \<longrightarrow> working_intact (device w) \<and>
        explains (seen c (cdevice s) (cheap s)) evs \<and>
        seen c' (device w) (heap w) = replay (seen c (cdevice s) (cheap s)) evs)))"

lemma step_good_blocked: "step_good s t c (returns None)"
  by (simp add: step_good_def)

lemma seen_store: "(\<And>p. phase c \<noteq> Committing p) \<Longrightarrow> seen c d h = store_of d h"
  by (cases "phase c") (auto simp: seen_def)

lemma seen_outside: "\<not> in_section (phase c) \<Longrightarrow> seen c d h = store_of d h"
  by (rule seen_store) auto

lemma step_good_outside:
  assumes inv: "cinv s" and c: "calls s t = Some c"
    and out: "\<not> in_section (phase c)" "\<not> in_section (phase c')" and dev: "device w = cdevice s"
    and heap: "\<And>a. a \<notin> bufs c \<Longrightarrow> cheap s a \<noteq> None \<Longrightarrow> heap w a = cheap s a"
    and ok: "call_ok (heap w) c'" and new: "\<And>a. a \<in> bufs c' \<Longrightarrow> a \<in> bufs c \<or> cheap s a = None"
    and same: "process c' = process c" "request c' = request c"
  shows "step_good s t c (returns (Some ([], c', w)))"
proof -
  note settle = cinv_outside [OF inv c out dev heap ok new]
  have "store_of (cdevice s) (heap w) = store_of (cdevice s) (cheap s)"
    by (rule store_of_frame) (rule settle(2))
  then show ?thesis using settle(1) same out by (simp add: step_good_def seen_outside dev)
qed

text \<open>A step outside the mutex that leaves the shared state alone.\<close>

lemma step_good_still:
  assumes inv: "cinv s" and c: "calls s t = Some c"
    and out: "\<not> in_section (phase c)" "\<not> in_section ph" and buf: "ptr_addrs (buf_of ph) = []"
    and ok: "call_ok (cheap s) (c\<lparr>phase := ph\<rparr>)" and w: "device w = cdevice s" "heap w = cheap s"
  shows "step_good s t c (returns (Some ([], c\<lparr>phase := ph\<rparr>, w)))"
  by (rule step_good_outside [OF inv c out(1)]) (use out ok w buf in \<open>simp_all add: bufs_def\<close>)

lemma step_good_lock:
  assumes inv: "cinv s" and c: "calls s t = Some c" and out: "\<not> in_section (phase c)"
    and sig: "\<not> in_section sig" "buf_of sig = buf_of (phase c)" "call_ok (cheap s) (c\<lparr>phase := sig\<rparr>)"
    and ph: "in_section ph" "\<And>p. ph \<noteq> Committing p" "buf_of ph = buf_of (phase c)" "call_ok (cheap s) (c\<lparr>phase := ph\<rparr>)"
  shows "step_good s t c (returns (on_mutex intr sig ph c (world_of s (process c))))"
proof -
  let ?w = "world_of s (process c)"
  consider (signal) "intr" | (blocked) "\<not> intr" "buf_mutex (cdevice s)" | (go) "\<not> intr" "\<not> buf_mutex (cdevice s)" by blast
  then show ?thesis
  proof cases
    case signal
    have "step_good s t c (returns (Some ([], c\<lparr>phase := sig\<rparr>, ?w)))"
      by (rule step_good_outside [OF inv c out]) (use sig in \<open>simp_all add: bufs_def\<close>)
    with signal show ?thesis by (simp add: on_mutex_def take_mutex_def)
  next
    case blocked
    then show ?thesis by (simp add: on_mutex_def take_mutex_def step_good_blocked)
  next
    case go
    let ?w' = "?w\<lparr>device := (device ?w)\<lparr>buf_mutex := True\<rparr>\<rparr>"
    have "cinv (settle t (c\<lparr>phase := ph\<rparr>) ?w' s)"
      by (rule cinv_enter [OF inv c go(2)]) (use ph in \<open>simp_all add: bufs_def\<close>)
    moreover have "seen (c\<lparr>phase := ph\<rparr>) (device ?w') (heap ?w') = seen c (cdevice s) (cheap s)"
      using ph(2) out by (simp add: seen_store seen_outside)
    ultimately show ?thesis
      using go by (simp add: on_mutex_def take_mutex_def step_good_def)
  qed
qed

section \<open>Every step of every phase\<close>

lemma start_run:
  "phase c = Start \<Longrightarrow> phase_step K intr t c w = returns (Some ([], c\<lparr>phase := fst (start_call K c w)\<rparr>, snd (start_call K c w)))"
  by (simp add: phase_steps case_prod_unfold)

lemma start_still:
  assumes inv: "cinv s" and c: "calls s t = Some c" and ph: "phase c = Start"
    and "buf_of p = Null" "\<not> in_section p" "\<And>h. call_ok h (c\<lparr>phase := p\<rparr>)"
  shows "step_good s t c (returns (Some ([], c\<lparr>phase := p\<rparr>, world_of s (process c))))"
  using assms(4-6) by (intro step_good_still [OF inv c]) (simp_all add: ph world_of_def)

lemma start_write_good:
  assumes laws: "kernel_laws K" and inv: "cinv s" and c: "calls s t = Some c" and ph: "phase c = Start"
    and Write: "request c = Write buf cnt" and f: "filp c = Some f" "buf \<noteq> 0"
  shows "step_good s t c (phase_step K intr t c (world_of s (process c)))"
proof (rule kmalloc_buffer [OF laws, of "cheap s" cnt])
  assume "kmalloc K (cheap s) cnt = (Null, cheap s)"
  then show ?thesis
    unfolding start_run [OF ph] using Write f start_still [OF inv c ph, of "Done (- ENOMEM)"]
    by (simp add: start_call_def call_ok_def world_of_def)
next
  let ?w = "world_of s (process c)"
  fix p blk
  assume km: "kmalloc K (cheap s) cnt = (p, with_buf (cheap s) p blk)" and fresh: "fresh_buf (cheap s) p (unat cnt)"
    and len: "length blk = unat cnt" "unat cnt \<le> KMALLOC_MAX_SIZE"
  let ?ph = "if private_data f then Filling p else Done (- EPERM)"
  have "step_good s t c (returns (Some ([], c\<lparr>phase := ?ph\<rparr>, ?w\<lparr>heap := with_buf (cheap s) p blk\<rparr>)))"
  proof (rule step_good_outside [OF inv c])
    show "call_ok (heap (?w\<lparr>heap := with_buf (cheap s) p blk\<rparr>)) (c\<lparr>phase := ?ph\<rparr>)"
      using Write fresh len by (cases p) (auto simp: call_ok_def holds_bytes_def fresh_buf_def)
    show "heap (?w\<lparr>heap := with_buf (cheap s) p blk\<rparr>) a = cheap s a" if "cheap s a \<noteq> None" for a
      using fresh that by (cases p) (auto simp: fresh_buf_def world_of_def)
    show "a \<in> bufs c \<or> cheap s a = None" if "a \<in> bufs (c\<lparr>phase := ?ph\<rparr>)" for a
      using fresh that by (cases p) (auto simp: fresh_buf_def bufs_def split: if_splits)
  qed (simp_all add: ph world_of_def)
  moreover have "p \<noteq> Null" using fresh by (auto simp: fresh_buf_def)
  ultimately show ?thesis
    unfolding start_run [OF ph] using Write f km by (simp add: start_call_def world_of_def split: if_splits)
qed

lemma start_good:
  assumes laws: "kernel_laws K" and inv: "cinv s" and c: "calls s t = Some c" and ph: "phase c = Start"
  shows "step_good s t c (phase_step K intr t c (world_of s (process c)))"
proof -
  note run = start_run [OF ph] and still = start_still [OF inv c ph]
  show ?thesis
  proof (cases "request c")
    case (Write buf cnt)
    show ?thesis
    proof (cases "filp c = None \<or> buf = 0")
      case True
      then show ?thesis unfolding run using Write still [of "Done (- EINVAL)"] by (simp add: start_call_def call_ok_def)
    next
      case False
      then obtain f where "filp c = Some f" "buf \<noteq> 0" by auto
      with start_write_good [OF laws inv c ph Write] show ?thesis by blast
    qed
  next
    case (Read buf cnt)
    then show ?thesis
      unfolding run using still by (simp add: start_call_def call_ok_def)
  next
    case (Llseek off whence)
    then show ?thesis
      unfolding run using still by (cases "filp c") (simp_all add: start_call_def call_ok_def)
  next
    case (Ioctl cmd arg)
    then show ?thesis
      unfolding run using still by (cases "filp c") (simp_all add: start_call_def call_ok_def case_prod_unfold Let_def)
  qed
qed

lemma holds_bytes_write:
  assumes "holds_bytes h p old" and "length old = length bs"
  shows "heap_write h p 0 bs = returns (with_buf h p bs)" and "holds_bytes (with_buf h p bs) p bs"
    and "heap_read (with_buf h p bs) p 0 (length bs) = returns bs"
  using assms by (cases p; simp add: holds_bytes_def heap_write_def heap_read_def)+

lemma filling_good:
  assumes laws: "kernel_laws K" and inv: "cinv s" and c: "calls s t = Some c" and ph: "phase c = Filling p"
  shows "step_good s t c (phase_step K intr t c (world_of s (process c)))"
proof -
  let ?w = "world_of s (process c)"
  obtain buf cnt old where req: "request c = Write buf cnt" and old: "holds_bytes (cheap s) p old" "length old = unat cnt"
    and max: "unat cnt \<le> KMALLOC_MAX_SIZE"
    using cinvD(4) [OF inv c] ph by (auto simp: call_ok_def)
  obtain nc bs where cfu: "copy_from_user K (mems s (process c)) buf cnt = (nc, bs)"
    by (cases "copy_from_user K (mems s (process c)) buf cnt")
  have len: "length bs = unat cnt" using copied_all_cases(1) [OF laws cfu] .
  note buf = holds_bytes_write [OF old(1), of bs, unfolded old(2) len, OF refl]
  let ?ph = "if nc \<noteq> 0 then Freeing p (- EFAULT) else Ready_Write p bs"
  have "phase_step K intr t c ?w = returns (Some ([], c\<lparr>phase := ?ph\<rparr>, ?w\<lparr>heap := with_buf (cheap s) p bs\<rparr>))"
    using cfu buf by (simp add: phase_steps ph req fill_buffer_def world_of_def)
  moreover have "step_good s t c (returns (Some ([], c\<lparr>phase := ?ph\<rparr>, ?w\<lparr>heap := with_buf (cheap s) p bs\<rparr>)))"
  proof (rule step_good_outside [OF inv c])
    show "call_ok (heap (?w\<lparr>heap := with_buf (cheap s) p bs\<rparr>)) (c\<lparr>phase := ?ph\<rparr>)"
      using req buf(2) len max holds_bytes_live [OF buf(2)] by (simp add: call_ok_def)
    show "heap (?w\<lparr>heap := with_buf (cheap s) p bs\<rparr>) a = cheap s a" if "a \<notin> bufs c" for a
      using that by (cases p) (auto simp: bufs_def ph world_of_def)
  qed (simp_all add: ph bufs_def world_of_def split: if_splits)
  ultimately show ?thesis by simp
qed

lemma ready_good:
  assumes inv: "cinv s" and c: "calls s t = Some c"
    and ph: "phase c = Ready \<or> phase c = Ready_Ioctl st \<or> phase c = Ready_Write p bs"
  shows "step_good s t c (phase_step K intr t c (world_of s (process c)))"
  using ph
proof (elim disjE)
  assume ph: "phase c = Ready"
  show ?thesis
    unfolding phase_steps(4) [OF ph] by (intro step_good_lock [OF inv c]) (simp_all add: ph call_ok_def)
next
  assume ph: "phase c = Ready_Ioctl st"
  show ?thesis
    unfolding phase_steps(5) [OF ph] by (intro step_good_lock [OF inv c]) (simp_all add: ph call_ok_def)
next
  assume ph: "phase c = Ready_Write p bs"
  show ?thesis
    unfolding phase_steps(3) [OF ph] using cinvD(4) [OF inv c] ph
    by (intro step_good_lock [OF inv c]) (auto simp: call_ok_def dest: holds_bytes_live)
qed

text \<open>Inside the section.\<close>

lemma holds_bytes_read: "holds_bytes h p bs \<Longrightarrow> n \<le> length bs \<Longrightarrow> heap_read h p 0 n = returns (take n bs)"
  by (cases p) (simp_all add: holds_bytes_def heap_read_def)

lemma appending_good:
  assumes laws: "kernel_laws K" and inv: "cinv s" and c: "calls s t = Some c" and ph: "phase c = Appending p bs"
  shows "step_good s t c (phase_step K intr t c (world_of s (process c)))"
proof -
  let ?w = "world_of s (process c)"
  obtain buf cnt where req: "request c = Write buf cnt" and buf: "holds_bytes (cheap s) p bs" "length bs = unat cnt"
    and max: "unat cnt \<le> KMALLOC_MAX_SIZE"
    using cinvD(4) [OF inv c] ph by (auto simp: call_ok_def)
  let ?n = "bytes_to_write bs cnt"
  have n: "unat ?n = taken bs" using unat_bytes_to_write [OF buf(2)] by (simp add: bytes_to_write_def)
  have nmax: "unat ?n \<le> KMALLOC_MAX_SIZE" using n max taken_le [of bs] buf(2) by simp
  have src: "heap_read (heap ?w) p 0 (unat ?n) = returns (take (taken bs) bs)"
    using holds_bytes_read [OF buf(1) taken_le] n by simp
  have storage: "storage_inv (device ?w) (heap ?w)" using cinvD(1) [OF inv] by simp
  have disj: "set (ptr_addrs p) \<inter> set (owned (device ?w)) = {}"
    using cinvD(5) [OF inv c] ph by (simp add: bufs_def)
  have sec: "in_section (phase c)" by (simp add: ph)
  have p: "p \<noteq> Null" "live (cheap s) p" using holds_bytes_live [OF buf(1)] by simp_all
  from laws storage src disj nmax show ?thesis
  proof (cases rule: append_working_store)
    case lost
    let ?w' = "?w\<lparr>device := (cdevice s)\<lparr>working_entry := (working_entry (cdevice s))\<lparr>buffptr := Null\<rparr>\<rparr>\<rparr>"
    have "cinv (settle t (c\<lparr>phase := Unlocking p (- ENOMEM)\<rparr>) ?w' s)"
      by (rule cinv_inside [OF inv c sec])
        (use lost_working_inv [OF cinvD(1) [OF inv]] p ph in
          \<open>auto simp: call_ok_def bufs_def owned_def ring_addrs_def\<close>)
    then show ?thesis
      using lost by (simp add: phase_steps ph req step_good_def sec)
  next
    case (ok d' h')
    let ?c = "if memchr bs newline \<noteq> None then c\<lparr>phase := Committing p\<rparr> else c\<lparr>phase := Unlocking p cnt, pos := pos c + cnt\<rparr>"
    note keep = foreign_keeps [OF ok(4)]
    have p': "live h' p" using keep p disj by (cases p) auto
    have "cinv (settle t ?c (?w\<lparr>heap := h', device := d'\<rparr>) s)"
    proof (rule cinv_inside [OF inv c sec])
      show "entry_ok (heap (?w\<lparr>heap := h', device := d'\<rparr>)) (working_entry (device (?w\<lparr>heap := h', device := d'\<rparr>)))"
        if "phase ?c = Committing q" for q
      proof -
        have "?n \<noteq> 0" using that n by (auto simp: taken_def split: if_splits)
        with ok(3,5,6) show ?thesis
          by (auto simp: storage_inv_def working_ok_def working_intact_def)
      qed
    qed (use ok p p' keep ph in \<open>auto simp: call_ok_def bufs_def\<close>)
    moreover have "seen ?c d' h' = store_write bs (store_of (cdevice s) (cheap s))" if "working_intact (cdevice s)"
      using ok(7) that by (simp add: seen_def store_write_parts Let_def)
    ultimately show ?thesis
      using ok(1,5) by (simp add: phase_steps ph req step_good_def sec seen_def Let_def split: if_splits)
  qed
qed

lemma committing_good:
  assumes laws: "kernel_laws K" and inv: "cinv s" and c: "calls s t = Some c" and ph: "phase c = Committing p"
  shows "step_good s t c (phase_step K intr t c (world_of s (process c)))"
proof -
  let ?w = "world_of s (process c)" and ?cnt = "count_of (request c)"
  have entry: "entry_ok (cheap s) (working_entry (cdevice s))" using inv c ph by (rule cinvD(7))
  have p: "p \<noteq> Null" "live (cheap s) p" using cinvD(4) [OF inv c] ph by (simp_all add: call_ok_def)
  have intact: "working_intact (device ?w)" and some: "entry_size (working_entry (device ?w)) \<noteq> 0"
    using entry by (auto simp: working_intact_def entry_ok_def unat_eq_0)
  have sec: "in_section (phase c)" by (simp add: ph)
  have storage: "storage_inv (device ?w) (heap ?w)" using cinvD(1) [OF inv] by simp
  obtain d' h' where com: "commit_working K ?w = returns (?w\<lparr>heap := h', device := d'\<rparr>)"
    "buf_mutex d' = buf_mutex (cdevice s)" "storage_inv d' h'" "foreign d' h' = foreign (cdevice s) (cheap s)"
    "working_intact d'" "store_of d' h' = complete_pending (store_of (cdevice s) (cheap s))"
    using commit_working_store [OF laws storage intact some] by auto
  let ?c = "c\<lparr>phase := Unlocking p ?cnt, pos := pos c + ?cnt\<rparr>"
  note keep = foreign_keeps [OF com(4)]
  have "live h' p" using keep p cinvD(5) [OF inv c] ph by (cases p) (auto simp: bufs_def)
  then have "cinv (settle t ?c (?w\<lparr>heap := h', device := d'\<rparr>) s)"
    by (intro cinv_inside [OF inv c sec]) (use com keep ph in \<open>auto simp: call_ok_def bufs_def\<close>)
  then show ?thesis
    using com(1,5,6) by (simp add: phase_steps ph step_good_def sec seen_def Let_def)
qed

text \<open>A step inside the section that only reads the device.\<close>

lemma step_good_reads:
  assumes inv: "cinv s" and c: "calls s t = Some c" and ph: "phase c = Locked \<or> phase c = Locked_Ioctl st"
    and c': "phase c' = Unlocking Null r" "process c' = process c" "request c' = request c"
    and w: "device w = cdevice s" "heap w = cheap s"
    and evs: "evs = [] \<or> (\<exists>u i n bs. evs = [Got u i n bs] \<and> bs = store_read (store_of (cdevice s) (cheap s)) i (unat n))"
  shows "step_good s t c (returns (Some (evs, c', w)))"
proof -
  have sec: "in_section (phase c)" using ph by auto
  have "cinv (settle t c' w s)"
    by (rule cinv_inside [OF inv c sec]) (use w c' cinvD(1) [OF inv] in \<open>auto simp: call_ok_def bufs_def\<close>)
  moreover have "seen c d h = store_of d h" "seen c' d h = store_of d h" for d h
    using ph c'(1) by (auto simp: seen_store)
  ultimately show ?thesis using c' w evs sec by (auto simp: step_good_def)
qed

lemma read_good:
  assumes laws: "kernel_laws K" and inv: "cinv s" and c: "calls s t = Some c" and ph: "phase c = Locked"
    and req: "request c = Read buf cnt"
  shows "step_good s t c (phase_step K intr t c (world_of s (process c)))"
proof -
  let ?w = "world_of s (process c)" and ?st = "store_of (cdevice s) (cheap s)"
  have storage: "storage_inv (device ?w) (heap ?w)" using cinvD(1) [OF inv] by simp
  note reads = step_good_reads [OF inv c disjI1 [OF ph]]
  show ?thesis
  proof (cases "locate (map length (commands ?st)) (unat (pos c))")
    case None
    then have "read_locked K buf cnt (pos c) ?w = returns (0, pos c, Some [], ?w)"
      by (intro read_locked_miss [OF storage]) simp
    moreover have "[] = store_read ?st (unat (pos c)) (unat cnt)" using None by (simp add: store_read_def)
    ultimately show ?thesis by (simp add: phase_steps ph req) (rule reads, simp_all)
  next
    case (Some ko)
    then obtain k off where ko: "locate (map length (commands ?st)) (unat (pos c)) = Some (k, off)" by (cases ko) auto
    let ?bs = "take (unat cnt) (drop off (commands ?st ! k))"
    obtain nc m where ctu: "copy_to_user K (mems s (process c)) buf ?bs = (nc, m)"
      by (cases "copy_to_user K (mems s (process c)) buf ?bs")
    obtain n where "read_locked K buf cnt (pos c) ?w = (if nc \<noteq> 0
        then returns (- EFAULT, pos c, None, ?w\<lparr>umem := m\<rparr>)
        else returns (n, pos c + n, Some ?bs, ?w\<lparr>umem := m\<rparr>))"
      using read_locked_hit [OF storage, of "pos c" k off cnt K buf] ko ctu by auto
    moreover have "?bs = store_read ?st (unat (pos c)) (unat cnt)" using ko by (simp add: store_read_def)
    ultimately show ?thesis
      by (cases "nc = 0") (simp add: phase_steps ph req, rule reads, simp_all)+
  qed
qed

lemma llseek_locked_returns:
  "storage_inv (device w) (heap w) \<Longrightarrow> \<exists>r f'. llseek_locked K off whence f w = returns (r, f')"
  using FOREACH_size [of "device w" "heap w"] by (simp add: llseek_locked_def Let_def)

lemma ioctl_locked_returns:
  assumes inv: "storage_inv (device w) (heap w)" and cmd: "write_cmd st \<noteq> 10"
  shows "\<exists>r f'. ioctl_locked st f w = returns (r, f')"
proof -
  let ?c = "unat (write_cmd st)"
  have len: "length (entry (buffer (device w))) = 10" using inv by (simp add: storage_inv_def ring_wf_def)
  have "?c \<noteq> 10" using cmd by (simp add: word_unat_eq_iff)
  then consider "?c > 10" | "?c < 10" by linarith
  then show ?thesis
    using len sum_slots_take [of ?c "buffer (device w)" 0 0]
    by cases (auto simp: ioctl_locked_def split: if_splits)
qed

lemma locked_good:
  assumes laws: "kernel_laws K" and inv: "cinv s" and c: "calls s t = Some c"
    and ph: "phase c = Locked \<or> (\<exists>st. phase c = Locked_Ioctl st \<and> write_cmd st \<noteq> 10)"
  shows "step_good s t c (phase_step K intr t c (world_of s (process c)))"
proof -
  let ?w = "world_of s (process c)"
  have storage: "storage_inv (device ?w) (heap ?w)" using cinvD(1) [OF inv] by simp
  from ph show ?thesis
  proof (elim disjE exE conjE)
    assume ph: "phase c = Locked"
    show ?thesis
    proof (cases "request c")
      case (Llseek off whence)
      obtain r f' where "llseek_locked K off whence (the (filp c)) ?w = returns (r, f')"
        using llseek_locked_returns [OF storage] by blast
      then show ?thesis
        by (simp add: phase_steps ph Llseek) (rule step_good_reads [OF inv c disjI1 [OF ph]], simp_all)
    qed (use read_good [OF laws inv c ph] in \<open>auto simp: phase_steps ph step_good_blocked\<close>)
  next
    fix st
    assume ph: "phase c = Locked_Ioctl st" and cmd: "write_cmd st \<noteq> 10"
    obtain r f' where "ioctl_locked st (the (filp c)) ?w = returns (r, f')"
      using ioctl_locked_returns [OF storage cmd] by blast
    then show ?thesis
      by (simp add: phase_steps ph) (rule step_good_reads [OF inv c disjI2 [OF ph]], simp_all)
  qed
qed

lemma unlocking_good:
  assumes inv: "cinv s" and c: "calls s t = Some c" and ph: "phase c = Unlocking p r"
  shows "step_good s t c (phase_step K intr t c (world_of s (process c)))"
proof -
  let ?w = "world_of s (process c)"
  have sec: "in_section (phase c)" by (simp add: ph)
  then have mutex: "buf_mutex (cdevice s)" using cinvD(2) [OF inv] c by blast
  let ?c = "c\<lparr>phase := if p = Null then Done r else Freeing p r\<rparr>"
  let ?w' = "?w\<lparr>device := (cdevice s)\<lparr>buf_mutex := False\<rparr>\<rparr>"
  have "cinv (settle t ?c ?w' s)"
    by (rule cinv_leave [OF inv c sec]) (use cinvD(4) [OF inv c] ph in \<open>simp_all add: call_ok_def bufs_def\<close>)
  then show ?thesis
    using mutex by (simp add: phase_steps ph locking step_good_def sec seen_def)
qed

lemma freeing_good:
  assumes laws: "kernel_laws K" and inv: "cinv s" and c: "calls s t = Some c" and ph: "phase c = Freeing p r"
  shows "step_good s t c (phase_step K intr t c (world_of s (process c)))"
proof -
  let ?w = "world_of s (process c)"
  have "live (cheap s) p" using cinvD(4) [OF inv c] ph by (simp add: call_ok_def)
  then have "phase_step K intr t c ?w = returns (Some ([], c\<lparr>phase := Done r\<rparr>, ?w\<lparr>heap := unmap (cheap s) p\<rparr>))"
    using call_kfree_live [OF laws] by (simp add: phase_steps ph)
  moreover have "step_good s t c (returns (Some ([], c\<lparr>phase := Done r\<rparr>, ?w\<lparr>heap := unmap (cheap s) p\<rparr>)))"
    by (rule step_good_outside [OF inv c]) (use ph in \<open>cases p; simp add: call_ok_def bufs_def\<close>)+
  ultimately show ?thesis by simp
qed

text \<open>
  The one step that may fault: the seek command with command number 10, which the driver looks up
  behind its array.
\<close>

definition bad_seek :: "phase \<Rightarrow> bool" where
  "bad_seek ph \<longleftrightarrow> (\<exists>st. ph = Locked_Ioctl st \<and> write_cmd st = 10)"

lemma phase_good:
  assumes laws: "kernel_laws K" and inv: "cinv s" and c: "calls s t = Some c" and "\<not> bad_seek (phase c)"
  shows "step_good s t c (phase_step K intr t c (world_of s (process c)))"
proof (cases "phase c")
  case Start
  then show ?thesis by (rule start_good [OF laws inv c])
next
  case (Filling p)
  then show ?thesis by (rule filling_good [OF laws inv c])
next
  case (Appending p bs)
  then show ?thesis by (rule appending_good [OF laws inv c])
next
  case (Committing p)
  then show ?thesis by (rule committing_good [OF laws inv c])
next
  case (Unlocking p r)
  then show ?thesis by (rule unlocking_good [OF inv c])
next
  case (Freeing p r)
  then show ?thesis by (rule freeing_good [OF laws inv c])
next
  case (Done r)
  then show ?thesis by (simp add: phase_steps step_good_blocked)
qed (use assms(4) ready_good [OF inv c] locked_good [OF laws inv c] in \<open>auto simp: bad_seek_def\<close>)

lemma call_step_good:
  assumes laws: "kernel_laws K" and inv: "cinv s" and ok: "\<And>c. calls s t = Some c \<Longrightarrow> \<not> bad_seek (phase c)"
  shows "\<exists>r. call_step K intr t s = returns r"
proof (cases "calls s t")
  case (Some c)
  from phase_good [OF laws inv Some ok [OF Some], of intr] obtain res
    where "phase_step K intr t c (world_of s (process c)) = returns res" by (auto simp: step_good_def)
  with Some show ?thesis by (simp add: call_step_def)
qed (simp add: call_step_def)

lemma bad_seek_faults:
  assumes "cinv s" and "calls s t = Some c" and "bad_seek (phase c)"
  shows "call_step K intr t s = fails Out_Of_Bounds"
proof -
  have "length (entry (buffer (cdevice s))) = 10" using cinvD(1) [OF assms(1)] by (simp add: storage_inv_def ring_wf_def)
  with assms(2,3) show ?thesis
    by (auto simp: bad_seek_def call_step_def phase_steps ioctl_locked_def)
qed

text \<open>A step of a call, taken apart.\<close>

lemma call_stepE:
  assumes laws: "kernel_laws K" and inv: "cinv s" and run: "call_step K intr t s = returns (Some (evs, s'))"
  obtains c c' w where "calls s t = Some c" and "s' = settle t c' w s"
    and "phase_step K intr t c (world_of s (process c)) = returns (Some (evs, c', w))"
    and "step_good s t c (returns (Some (evs, c', w)))"
proof -
  from run obtain c where c: "calls s t = Some c" by (auto simp: call_step_def split: option.splits)
  then obtain c' w where r: "phase_step K intr t c (world_of s (process c)) = returns (Some (evs, c', w))" "s' = settle t c' w s"
    using run by (auto simp: call_step_def bindC_eq_returns)
  have "\<not> bad_seek (phase c)" using bad_seek_faults [OF inv c, of K intr] run by auto
  with phase_good [OF laws inv c] r(1) have "step_good s t c (returns (Some (evs, c', w)))" by metis
  with c r show thesis using that by blast
qed

lemma new_call_ok: "call_ok h (new_call r q f p)" "bufs (new_call r q f p) = {}" "\<not> in_section (phase (new_call r q f p))"
  by (simp_all add: call_ok_def bufs_def)

lemma cstep_keeps_cinv:
  assumes "cstep K s evs s'" and laws: "kernel_laws K" and inv: "cinv s"
  shows "cinv s'"
  using assms(1)
proof cases
  case (c_call intr t)
  from call_stepE [OF laws inv this] show ?thesis by (auto simp: step_good_def)
next
  case (c_begin t r q f p)
  let ?c = "new_call r q f p"
  have eq: "calls s' u = (if u = t then Some ?c else calls s u)" for u by (simp add: c_begin)
  have old: "cdevice s' = cdevice s" "cheap s' = cheap s" by (simp_all add: c_begin)
  note D = cinvD [OF inv]
  show ?thesis
    unfolding cinv_def old
  proof (intro conjI allI impI)
    show "buf_mutex (cdevice s) \<longleftrightarrow> (\<exists>t c. calls s' t = Some c \<and> in_section (phase c))"
    proof -
      have "(\<exists>t c. calls s' t = Some c \<and> in_section (phase c)) \<longleftrightarrow> (\<exists>t c. calls s t = Some c \<and> in_section (phase c))"
        using c_begin(3) by (auto simp: eq) (metis option.distinct(1))
      with D(2) show ?thesis by simp
    qed
  qed (use D(1,3-7) in \<open>auto simp: eq new_call_ok split: if_splits\<close>)
next
  case (c_user m)
  with inv show ?thesis by (simp add: cinv_def)
qed

end
