(* ===== verification/Driver_Linearizable.thy ===== *)
theory Driver_Linearizable
  imports Driver_Interleaving Driver_Properties
begin

text \<open>
  What interleaved calls on the device amount to. The abstract state of a run is the command store,
  its events are the writes and reads in the order in which they took effect inside the mutex. The
  properties: calls never fault and exclude each other, some call can always move, and every run
  answers as the sequential command store does for the events in that order, each successful write
  counting exactly once.
\<close>

section \<open>Runs\<close>

definition cidle :: "cworld \<Rightarrow> bool" where
  "cidle s \<longleftrightarrow> calls s = (\<lambda>t. None) \<and> \<not> buf_mutex (cdevice s) \<and> storage_inv (cdevice s) (cheap s)"

lemma cidle_cinv: "cidle s \<Longrightarrow> cinv s"
  by (simp add: cidle_def cinv_def)

lemma crun_cinv: "crun K s0 evs s \<Longrightarrow> kernel_laws K \<Longrightarrow> cinv s0 \<Longrightarrow> cinv s"
proof (induction rule: crun.induct)
  case (crun_step evs s' e s'')
  then show ?case using cstep_keeps_cinv by blast
qed

section \<open>The abstract state\<close>

definition committing :: "cworld \<Rightarrow> bool" where
  "committing s \<longleftrightarrow> (\<exists>t c p. calls s t = Some c \<and> phase c = Committing p)"

definition abs_store :: "cworld \<Rightarrow> command_store" where
  "abs_store s = (if committing s
     then complete_pending (store_of (cdevice s) (cheap s)) else store_of (cdevice s) (cheap s))"

lemma abs_in_section:
  assumes "cinv s" and "calls s t = Some c" and "in_section (phase c)"
  shows "abs_store s = seen c (cdevice s) (cheap s)"
proof (cases "\<exists>p. phase c = Committing p")
  case True
  with assms(2) show ?thesis by (auto simp: abs_store_def committing_def seen_def)
next
  case False
  have "u = t" if "calls s u = Some d" "phase d = Committing p" for u d p
    using cinvD(3) [OF assms(1) that(1) assms(2)] that(2) assms(3) by simp
  then have "\<not> committing s" using False assms(2) by (fastforce simp: committing_def)
  with False show ?thesis by (simp add: abs_store_def seen_store)
qed

lemma abs_free:
  assumes "\<And>t c. calls s t = Some c \<Longrightarrow> \<not> in_section (phase c)"
  shows "abs_store s = store_of (cdevice s) (cheap s)"
proof -
  have "\<not> committing s" using assms by (fastforce simp: committing_def)
  then show ?thesis by (simp add: abs_store_def)
qed

lemma abs_unlocked: "cinv s \<Longrightarrow> \<not> buf_mutex (cdevice s) \<Longrightarrow> abs_store s = store_of (cdevice s) (cheap s)"
  using cinvD(2) [of s] by (intro abs_free) auto

lemma settle_calls [simp]: "calls (settle t c w s) = (calls s)(t \<mapsto> c)"
  by (simp add: settle_def)

lemma settle_abs:
  assumes inv: "cinv s" "cinv (settle t c' w s)" and c: "calls s t = Some c"
    and out: "\<not> in_section (phase c) \<Longrightarrow> evs = []"
    and seen: "seen c' (device w) (heap w) = replay (seen c (cdevice s) (cheap s)) evs"
  shows "abs_store s = seen c (cdevice s) (cheap s) \<and> abs_store (settle t c' w s) = seen c' (device w) (heap w) \<or>
    evs = [] \<and> abs_store (settle t c' w s) = abs_store s"
proof -
  have others: "\<not> in_section (phase d)" if "in_section (phase c) \<or> in_section (phase c')" "calls s u = Some d" "u \<noteq> t" for u d
  proof -
    have "calls (settle t c' w s) u = Some d" "calls (settle t c' w s) t = Some c'" using that by simp_all
    then show ?thesis using that cinvD(3) [OF inv(1) that(2) c] cinvD(3) [OF inv(2)] by blast
  qed
  consider (inside) "in_section (phase c)" | (enter) "\<not> in_section (phase c)" "in_section (phase c')"
    | (outside) "\<not> in_section (phase c)" "\<not> in_section (phase c')" by blast
  then show ?thesis
  proof cases
    case inside
    have "abs_store (settle t c' w s) = seen c' (device w) (heap w)"
    proof (cases "in_section (phase c')")
      case True
      then show ?thesis using abs_in_section [OF inv(2), of t c'] by simp
    next
      case False
      have "\<not> in_section (phase d)" if "calls (settle t c' w s) u = Some d" for u d
        using that False others [of u d] inside by (cases "u = t") simp_all
      then have "abs_store (settle t c' w s) = store_of (device w) (heap w)"
        using abs_free [of "settle t c' w s"] by simp
      with False show ?thesis by (simp add: seen_outside)
    qed
    with abs_in_section [OF inv(1) c inside] show ?thesis by simp
  next
    case enter
    have "abs_store s = store_of (cdevice s) (cheap s)"
      by (rule abs_free) (use enter others c in \<open>metis option.inject\<close>)
    with enter show ?thesis
      using abs_in_section [OF inv(2), of t c'] by (simp add: seen_outside)
  next
    case outside
    then have "store_of (device w) (heap w) = store_of (cdevice s) (cheap s)"
      using seen out by (simp add: seen_outside)
    moreover have "committing (settle t c' w s) = committing s"
    proof -
      have "(calls (settle t c' w s) u = Some d \<and> phase d = Committing p) = (calls s u = Some d \<and> phase d = Committing p)"
        if "u \<noteq> t" for u d p using that by simp
      moreover have "phase c \<noteq> Committing p" "phase c' \<noteq> Committing p" for p using outside by auto
      ultimately show ?thesis unfolding committing_def using c by (metis settle_calls fun_upd_same option.inject)
    qed
    ultimately show ?thesis using out outside by (simp add: abs_store_def)
  qed
qed

lemma cstep_abs:
  assumes "cstep K s evs s'" and laws: "kernel_laws K" and inv: "cinv s"
    and "\<And>u. Lost u \<notin> set evs" and "working_intact (cdevice s)"
  shows "working_intact (cdevice s') \<and> explains (abs_store s) evs \<and> abs_store s' = replay (abs_store s) evs"
  using assms(1)
proof cases
  case (c_call intr t)
  from call_stepE [OF laws inv this] obtain c c' w where c: "calls s t = Some c" and s': "s' = settle t c' w s"
    and good: "step_good s t c (returns (Some (evs, c', w)))" .
  from good have inv': "cinv (settle t c' w s)" and out: "\<not> in_section (phase c) \<Longrightarrow> evs = []"
    and eff: "working_intact (device w)" "explains (seen c (cdevice s) (cheap s)) evs"
      "seen c' (device w) (heap w) = replay (seen c (cdevice s) (cheap s)) evs"
    using assms(4,5) by (auto simp: step_good_def)
  from settle_abs [OF inv inv' c out eff(3)] eff show ?thesis by (auto simp: s')
next
  case (c_begin t r q f p)
  have "committing s' = committing s"
    using c_begin by (auto simp: committing_def) (metis option.distinct(1))
  then show ?thesis using c_begin assms(5) by (simp add: abs_store_def)
next
  case (c_user m)
  then have "committing s' = committing s" by (simp add: committing_def)
  with c_user assms(5) show ?thesis by (simp add: abs_store_def)
qed

lemma crun_abs:
  assumes "crun K s0 evs s" and "kernel_laws K" and "cinv s0" and "\<And>u. Lost u \<notin> set evs"
    and "working_intact (cdevice s0)"
  shows "working_intact (cdevice s) \<and> explains (abs_store s0) evs \<and> abs_store s = replay (abs_store s0) evs"
  using assms
proof (induction rule: crun.induct)
  case (crun_step evs s' e s'')
  have "cinv s'" using crun_cinv crun_step.hyps(1) crun_step.prems by blast
  with crun_step cstep_abs [OF crun_step.hyps(2)] show ?case
    by (simp add: explains_append replay_append)
qed simp

section \<open>Phases fit their requests, and every step is progress\<close>

fun is_write :: "request \<Rightarrow> bool" where
  "is_write (Write buf cnt) = True"
| "is_write _ = False"

fun is_ioctl :: "request \<Rightarrow> bool" where
  "is_ioctl (Ioctl cmd arg) = True"
| "is_ioctl _ = False"

definition fits :: "request \<Rightarrow> phase \<Rightarrow> bool" where
  "fits r ph \<longleftrightarrow> (case ph of
       Start \<Rightarrow> True | Done x \<Rightarrow> True | Unlocking p x \<Rightarrow> is_write r \<or> p = Null
     | Ready \<Rightarrow> \<not> is_write r \<and> \<not> is_ioctl r | Locked \<Rightarrow> \<not> is_write r \<and> \<not> is_ioctl r
     | Ready_Ioctl st \<Rightarrow> is_ioctl r | Locked_Ioctl st \<Rightarrow> is_ioctl r
     | _ \<Rightarrow> is_write r)"

text \<open>How many steps a call has left at most.\<close>

fun rank :: "phase \<Rightarrow> nat" where
  "rank Start = 7"
| "rank (Filling p) = 6"
| "rank (Ready_Write p bs) = 5"
| "rank Ready = 5"
| "rank (Ready_Ioctl st) = 5"
| "rank (Appending p bs) = 4"
| "rank Locked = 4"
| "rank (Locked_Ioctl st) = 4"
| "rank (Committing p) = 3"
| "rank (Unlocking p r) = 2"
| "rank (Freeing p r) = 1"
| "rank (Done r) = 0"

lemma start_fits:
  "fits (request c) (fst (start_call K c w)) \<and> rank (fst (start_call K c w)) < 7"
  by (cases "request c"; cases "filp c")
    (auto simp: start_call_def fits_def case_prod_unfold Let_def)

lemma phase_fits:
  assumes "phase_step K intr t c w = returns (Some (evs, c', w'))" and "fits (request c) (phase c)"
  shows "request c' = request c \<and> fits (request c) (phase c') \<and> rank (phase c') < rank (phase c)"
proof (cases "phase c")
  case Start
  with assms(1) start_fits [of c K w] show ?thesis by (auto simp: phase_steps)
next
  case Locked
  with assms show ?thesis by (cases "request c") (auto simp: phase_steps bindC_eq_returns fits_def)
qed (use assms in \<open>auto simp: phase_steps fill_buffer_def on_mutex_def case_prod_unfold Let_def bindC_eq_returns fits_def
      split: if_splits\<close>)

section \<open>What a finished write has done\<close>

text \<open>The bytes of the writes of call \<open>t\<close> among the events.\<close>

definition writes_of :: "nat \<Rightarrow> dev_event list \<Rightarrow> byte list list" where
  "writes_of t evs = concat (map (\<lambda>e. case e of Wrote u bs \<Rightarrow> if u = t then [bs] else [] | _ \<Rightarrow> []) evs)"

lemma writes_of_simps [simp]:
  "writes_of t [] = []" "writes_of t (es @ fs) = writes_of t es @ writes_of t fs"
  "writes_of t (Wrote u bs # es) = (if u = t then bs # writes_of t es else writes_of t es)"
  "writes_of t (Lost u # es) = writes_of t es" "writes_of t (Got u i n bs # es) = writes_of t es"
  by (simp_all add: writes_of_def)

definition told_result :: "i64 \<Rightarrow> u64 \<Rightarrow> byte list list \<Rightarrow> bool" where
  "told_result r cnt ws \<longleftrightarrow> (r = cnt \<and> (\<exists>bs. ws = [bs] \<and> length bs = unat cnt)) \<or>
     (r \<in> {- EINVAL, - ENOMEM, - EPERM, - EFAULT, - ERESTARTSYS} \<and> ws = [])"

text \<open>The return value of a write agrees with the events.\<close>

definition told :: "call \<Rightarrow> byte list list \<Rightarrow> bool" where
  "told c ws \<longleftrightarrow> (if is_write (request c) then (case phase c of
       Committing p \<Rightarrow> told_result (count_of (request c)) (count_of (request c)) ws
     | Unlocking p r \<Rightarrow> told_result r (count_of (request c)) ws
     | Freeing p r \<Rightarrow> told_result r (count_of (request c)) ws
     | Done r \<Rightarrow> told_result r (count_of (request c)) ws
     | _ \<Rightarrow> ws = []) else ws = [])"

lemma start_told: "fst (start_call K c w) = ph \<Longrightarrow> told (c\<lparr>phase := ph\<rparr>) []"
  by (cases "request c"; cases "filp c")
    (auto simp: start_call_def told_def told_result_def case_prod_unfold Let_def)

lemma phase_events:
  assumes "phase_step K intr t c w = returns (Some (evs, c', w'))" and "u \<noteq> t"
  shows "writes_of u evs = []"
proof (cases "phase c")
  case Locked
  with assms show ?thesis
    by (cases "request c") (auto simp: phase_steps bindC_eq_returns split: option.splits)
qed (use assms in \<open>auto simp: phase_steps fill_buffer_def on_mutex_def case_prod_unfold Let_def
      bindC_eq_returns split: if_splits\<close>)

lemma phase_told:
  assumes step: "phase_step K intr t c w = returns (Some (evs, c', w'))" and fits: "fits (request c) (phase c)"
    and ok: "call_ok h c" and told: "told c ws"
  shows "told c' (ws @ writes_of t evs)"
proof (cases "phase c")
  case Start
  with step told start_told [of K c w] show ?thesis by (auto simp: phase_steps told_def split: if_splits)
next
  case Locked
  with step fits told show ?thesis
    by (cases "request c") (auto simp: phase_steps bindC_eq_returns fits_def told_def split: option.splits)
next
  case (Appending p bs)
  with ok obtain buf cnt where "request c = Write buf cnt" "length bs = unat cnt" by (auto simp: call_ok_def)
  with step told Appending show ?thesis
    by (auto simp: phase_steps bindC_eq_returns told_def told_result_def case_prod_unfold split: if_splits)
next
  case (Locked_Ioctl st)
  with step fits told show ?thesis
    by (cases "request c") (auto simp: phase_steps bindC_eq_returns fits_def told_def)
qed (use step fits told in \<open>auto simp: phase_steps fill_buffer_def on_mutex_def case_prod_unfold Let_def
      bindC_eq_returns fits_def told_def told_result_def split: if_splits\<close>)

definition run_inv :: "dev_event list \<Rightarrow> cworld \<Rightarrow> bool" where
  "run_inv evs s \<longleftrightarrow> cinv s \<and>
     (\<forall>t c. calls s t = Some c \<longrightarrow> fits (request c) (phase c) \<and> told c (writes_of t evs)) \<and>
     (\<forall>t. calls s t = None \<longrightarrow> writes_of t evs = [])"

lemma cstep_run_inv:
  assumes "cstep K s e s'" and laws: "kernel_laws K" and inv: "run_inv evs s"
  shows "run_inv (evs @ e) s'"
proof -
  have cinv: "cinv s" using inv by (simp add: run_inv_def)
  note cinv' = cstep_keeps_cinv [OF assms(1) laws cinv]
  from assms(1) show ?thesis
  proof cases
    case (c_call intr t)
    from call_stepE [OF laws cinv this] obtain c c' w where c: "calls s t = Some c" and s': "s' = settle t c' w s"
      and step: "phase_step K intr t c (world_of s (process c)) = returns (Some (e, c', w))" by blast
    have old: "fits (request c) (phase c)" "told c (writes_of t evs)" using inv c by (auto simp: run_inv_def)
    have "fits (request c') (phase c')" using phase_fits [OF step old(1)] by simp
    moreover have "told c' (writes_of t (evs @ e))"
      using phase_told [OF step old(1) cinvD(4) [OF cinv c] old(2)] by simp
    moreover have "writes_of u (evs @ e) = writes_of u evs" if "u \<noteq> t" for u
      using phase_events [OF step that] by simp
    ultimately show ?thesis using inv cinv' unfolding run_inv_def s' by simp
  next
    case (c_begin t r q f p)
    then have "calls s' u = (if u = t then Some (new_call r q f p) else calls s u)" for u by simp
    moreover have "fits r Start" "told (new_call r q f p) []" by (simp_all add: fits_def told_def)
    ultimately show ?thesis using inv cinv' c_begin(1,3) by (simp add: run_inv_def)
  next
    case (c_user m)
    with inv cinv' show ?thesis by (simp add: run_inv_def)
  qed
qed

lemma crun_inv: "crun K s0 evs s \<Longrightarrow> kernel_laws K \<Longrightarrow> cidle s0 \<Longrightarrow> run_inv evs s"
proof (induction rule: crun.induct)
  case crun_start
  then show ?case using cidle_cinv by (simp add: run_inv_def cidle_def)
next
  case (crun_step evs s' e s'')
  then show ?case using cstep_run_inv by blast
qed

section \<open>A call that can move\<close>

lemma phase_stuck:
  assumes stuck: "phase_step K False t c w = returns None" and fits: "fits (request c) (phase c)"
    and "rank (phase c) \<noteq> 0" and "in_section (phase c) \<or> \<not> buf_mutex (device w)"
  shows False
proof (cases "phase c")
  case Locked
  with stuck fits show ?thesis
    by (cases "request c") (auto simp: phase_steps fits_def bindC_eq_returns)
qed (use stuck assms(3,4) in \<open>auto simp: phase_steps on_mutex_def take_mutex_def bindC_eq_returns\<close>)

lemma run_progress:
  assumes laws: "kernel_laws K" and inv: "run_inv evs s" and c: "calls s t = Some c" "rank (phase c) \<noteq> 0"
    and ok: "\<And>t c. calls s t = Some c \<Longrightarrow> \<not> bad_seek (phase c)"
  shows "\<exists>u d d' w e. calls s u = Some d \<and> call_step K False u s = returns (Some (e, settle u d' w s)) \<and>
    rank (phase d') < rank (phase d)"
proof -
  have cinv: "cinv s" using inv by (simp add: run_inv_def)
  have "\<exists>u d. calls s u = Some d \<and> rank (phase d) \<noteq> 0 \<and> (in_section (phase d) \<or> \<not> buf_mutex (cdevice s))"
  proof (cases "buf_mutex (cdevice s)")
    case True
    then obtain u d where "calls s u = Some d" "in_section (phase d)" using cinvD(2) [OF cinv] by blast
    moreover from this(2) have "rank (phase d) \<noteq> 0" by (cases "phase d") auto
    ultimately show ?thesis by blast
  qed (use c in blast)
  then obtain u d where d: "calls s u = Some d" "rank (phase d) \<noteq> 0" "in_section (phase d) \<or> \<not> buf_mutex (cdevice s)"
    by blast
  have fits: "fits (request d) (phase d)" using inv d(1) by (auto simp: run_inv_def)
  obtain res where res: "phase_step K False u d (world_of s (process d)) = returns res"
    using phase_good [OF laws cinv d(1) ok [OF d(1)], of False] unfolding step_good_def by blast
  moreover have "res \<noteq> None"
    by (rule notI) (use phase_stuck [of K u d "world_of s (process d)"] fits d res in auto)
  ultimately obtain e d' w where r: "phase_step K False u d (world_of s (process d)) = returns (Some (e, d', w))"
    by (cases res) auto
  then have "call_step K False u s = returns (Some (e, settle u d' w s))" using d(1) by (simp add: call_step_def)
  with phase_fits [OF r fits] d(1) show ?thesis by blast
qed

section \<open>Runs of calls as runs of the store\<close>

lemma driver_linear:
  assumes "kernel_laws K" and "cidle s0" and "working_intact (cdevice s0)" and "crun K s0 evs s"
    and "\<forall>t. Lost t \<notin> set evs"
  shows "explains (store_of (cdevice s0) (cheap s0)) evs \<and>
    (\<not> buf_mutex (cdevice s) \<longrightarrow>
       store_of (cdevice s) (cheap s) = replay (store_of (cdevice s0) (cheap s0)) evs)"
proof -
  have inv: "cinv s0" using assms(2) by (rule cidle_cinv)
  have "abs_store s0 = store_of (cdevice s0) (cheap s0)"
    using abs_unlocked [OF inv] assms(2) by (simp add: cidle_def)
  moreover have "explains (abs_store s0) evs \<and> abs_store s = replay (abs_store s0) evs"
    using crun_abs [OF assms(4,1) inv _ assms(3)] assms(5) by blast
  moreover have "cinv s" using crun_cinv [OF assms(4,1) inv] .
  ultimately show ?thesis using abs_unlocked [of s] by metis
qed

section \<open>Schedules\<close>

text \<open>A schedule starts calls and moves them; it runs if no step in it is blocked or faults.\<close>

datatype action = Begin nat request nat "open_file option" i64 | Move nat

fun act :: "kernel \<Rightarrow> action \<Rightarrow> cworld \<Rightarrow> (dev_event list \<times> cworld) option" where
  "act K (Begin t r q f p) s =
     (if calls s t = None then Some ([], s\<lparr>calls := (calls s)(t \<mapsto> new_call r q f p)\<rparr>) else None)"
| "act K (Move t) s = (case call_step K False t s of Some (Inr (Some r)) \<Rightarrow> Some r | _ \<Rightarrow> None)"

fun schedule :: "kernel \<Rightarrow> action list \<Rightarrow> cworld \<Rightarrow> (dev_event list \<times> cworld) option" where
  "schedule K [] s = Some ([], s)"
| "schedule K (a # as) s = (case act K a s of None \<Rightarrow> None
     | Some (e, s') \<Rightarrow> map_option (\<lambda>(evs, s''). (e @ evs, s'')) (schedule K as s'))"

lemma act_cstep: "act K a s = Some (e, s') \<Longrightarrow> cstep K s e s'"
  by (cases a) (auto intro: c_begin c_call split: if_splits option.splits sum.splits)

lemma crun_cons: "crun K s' evs s'' \<Longrightarrow> cstep K s e s' \<Longrightarrow> crun K s (e @ evs) s''"
proof (induction evs s'' rule: crun.induct)
  case crun_start
  then show ?case using crun_step [OF crun.crun_start] by fastforce
next
  case (crun_step evs s1 e' s2)
  then show ?case using crun.crun_step [of K s "e @ evs" s1 e' s2] by simp
qed

lemma schedule_crun: "schedule K as s = Some (evs, s') \<Longrightarrow> crun K s evs s'"
proof (induction as arbitrary: s evs)
  case (Cons a as)
  then show ?case by (auto split: option.splits intro: crun_cons act_cstep)
qed (simp add: crun_start)

text \<open>
  Two processes, each with a line in its memory, and the run in which both writers have filled
  their buffers before either takes the mutex, and a reader comes in between.
\<close>

definition two_processes :: cworld where
  "two_processes = \<lparr>cdevice = zero_device, cheap = Map.empty,
     mems = (\<lambda>q. user_store Map.empty 8 (if q = 0 then line 1 CHR ''a'' else line 1 CHR ''b'')), calls = \<lambda>t. None\<rparr>"

definition racing :: "action list" where
  "racing = [Begin 0 (Write 8 2) 0 (Some opened) 0, Begin 1 (Write 8 2) 1 (Some opened) 0,
     Begin 2 (Read 8 2) 0 (Some opened) 0,
     Move 0, Move 1, Move 0, Move 1, Move 2, Move 1, Move 1, Move 1, Move 1, Move 2, Move 2, Move 2,
     Move 0, Move 0, Move 0, Move 1, Move 0, Move 0]"

definition after :: "cworld \<Rightarrow> action list \<Rightarrow> cworld" where
  "after s0 as = (case schedule small_kernel as s0 of Some (evs, s) \<Rightarrow> s | None \<Rightarrow> s0)"

abbreviation raced :: cworld where
  "raced \<equiv> after two_processes racing"

definition race_events :: "dev_event list" where
  "race_events = [Wrote 1 (line 1 CHR ''b''), Got 2 0 2 (line 1 CHR ''b''), Wrote 0 (line 1 CHR ''a'')]"

lemma after_run:
  "map_option fst (schedule small_kernel as s0) = Some evs \<Longrightarrow> crun small_kernel s0 evs (after s0 as)"
  by (intro schedule_crun [of _ as]) (auto simp: after_def)

lemma race_runs: "crun small_kernel two_processes race_events raced"
  by (rule after_run) code_simp

lemma two_processes_idle: "cidle two_processes"
  using fresh_inv [of "[]"] by (simp add: cidle_def two_processes_def dev_inv_def fresh_world_def zero_device_def)

section \<open>Properties\<close>

text \<open>
  C12: In every interleaving of any number of reads, writes, seeks and seek commands, no step of any
  call runs into a memory or locking fault, except the seek command with command number 10; and
  two calls that are both between taking and releasing the mutex are the same call.
\<close>

theorem interleaved_calls_safe:
  assumes "kernel_laws K" and "cidle s0" and "crun K s0 evs s"
  shows "((\<forall>c. calls s t = Some c \<longrightarrow> \<not> bad_seek (phase c)) \<longrightarrow> (\<exists>r. call_step K intr t s = returns r)) \<and>
    (\<forall>u c d. calls s t = Some c \<longrightarrow> calls s u = Some d \<longrightarrow> in_section (phase c) \<longrightarrow> in_section (phase d) \<longrightarrow> t = u)"
proof (intro conjI allI impI)
  have inv: "cinv s" using crun_inv [OF assms(3,1,2)] by (simp add: run_inv_def)
  show "\<exists>r. call_step K intr t s = returns r" if "\<forall>c. calls s t = Some c \<longrightarrow> \<not> bad_seek (phase c)"
    using call_step_good [OF assms(1) inv, of t intr] that by blast
  show "t = u" if "calls s t = Some c" "calls s u = Some d" "in_section (phase c)" "in_section (phase d)" for u c d
    using that by (rule cinvD(3) [OF inv])
qed

theorem interleaved_calls_safe_witness: "\<exists>r. call_step small_kernel False 0 raced = returns r"
proof -
  have "map_option (\<lambda>c. phase c = Done 2) (calls raced 0) = Some True" by code_simp
  then have "\<forall>c. calls raced 0 = Some c \<longrightarrow> \<not> bad_seek (phase c)" by (auto simp: bad_seek_def)
  with interleaved_calls_safe [OF small_kernel_laws two_processes_idle race_runs, of 0 False] show ?thesis by blast
qed

text \<open>
  C23: Interleaved calls never block each other for good: as long as a call is unfinished, some call
  can take a step, and each step brings the call that takes it nearer to its end. (No call is
  about to execute the faulting seek command.)
\<close>

theorem interleaved_calls_progress:
  assumes "kernel_laws K" and "cidle s0" and "crun K s0 evs s"
    and "calls s t = Some c" and "\<forall>r. phase c \<noteq> Done r"
    and "\<forall>t c. calls s t = Some c \<longrightarrow> \<not> bad_seek (phase c)"
  shows "\<exists>u d d' e s'. calls s u = Some d \<and> call_step K False u s = returns (Some (e, s')) \<and>
    calls s' u = Some d' \<and> rank (phase d') < rank (phase d)"
proof -
  have "rank (phase c) \<noteq> 0" using assms(5) by (cases "phase c") auto
  from run_progress [OF assms(1) crun_inv [OF assms(3,1,2)] assms(4) this] assms(6) show ?thesis
    by fastforce
qed

theorem interleaved_calls_progress_witness:
  "\<exists>u e s'. call_step small_kernel False u (after two_processes [Begin 0 (Write 8 2) 0 (Some opened) 0]) = returns (Some (e, s'))"
proof -
  let ?s = "after two_processes [Begin 0 (Write 8 2) 0 (Some opened) 0]" and ?c = "new_call (Write 8 2) 0 (Some opened) 0"
  have "crun small_kernel two_processes [] ?s" by (rule after_run) code_simp
  moreover have calls: "calls ?s = [0 \<mapsto> ?c]" by (simp add: after_def two_processes_def)
  moreover have "\<forall>t c. calls ?s t = Some c \<longrightarrow> \<not> bad_seek (phase c)" by (simp add: calls bad_seek_def)
  ultimately show ?thesis
    using interleaved_calls_progress [OF small_kernel_laws two_processes_idle, of "[]" ?s 0 ?c] by fastforce
qed

text \<open>
  C1: The device is linearizable. However the calls interleave, the events of the run, in the order
  in which they happened inside the mutex, are a sequential run of the command store: every read
  copied out exactly the bytes the store holds at its position after the writes before it, and
  whenever the mutex is free the device holds what the writes so far make of the initial store.
  (No reallocation has failed.)
\<close>

theorem driver_linearizable:
  assumes "kernel_laws K" and "cidle s0" and "working_intact (cdevice s0)" and "crun K s0 evs s"
    and "\<forall>t. Lost t \<notin> set evs"
  shows "explains (store_of (cdevice s0) (cheap s0)) evs \<and>
    (\<not> buf_mutex (cdevice s) \<longrightarrow>
       store_of (cdevice s) (cheap s) = replay (store_of (cdevice s0) (cheap s0)) evs)"
  using assms by (rule driver_linear)

theorem driver_linearizable_witness:
  "explains \<lparr>commands = [], pending = []\<rparr> race_events \<and>
   store_of (cdevice raced) (cheap raced) = \<lparr>commands = [line 1 CHR ''b'', line 1 CHR ''a''], pending = []\<rparr>"
proof -
  have start: "store_of (cdevice two_processes) (cheap two_processes) = \<lparr>commands = [], pending = []\<rparr>"
    using zero_device_store by (simp add: two_processes_def)
  have "working_intact (cdevice two_processes)" by (simp add: two_processes_def working_intact_def zero_device_def)
  moreover have "\<forall>t. Lost t \<notin> set race_events" by (simp add: race_events_def)
  moreover have "\<not> buf_mutex (cdevice raced)" by code_simp
  moreover have "replay \<lparr>commands = [], pending = []\<rparr> race_events =
      \<lparr>commands = [line 1 CHR ''b'', line 1 CHR ''a''], pending = []\<rparr>" by code_simp
  ultimately show ?thesis
    using driver_linearizable [OF small_kernel_laws two_processes_idle _ race_runs] start by simp
qed

text \<open>
  C19: However the calls interleave, a write that has returned its count has taken effect exactly
  once, with as many bytes as it was given, and a write that has returned an error has not taken
  effect at all; there is no third outcome.
\<close>

theorem finished_write_counts_once:
  assumes "kernel_laws K" and "cidle s0" and "crun K s0 evs s"
    and "calls s t = Some c" and "request c = Write buf cnt" and "phase c = Done r"
  shows "(r = cnt \<and> (\<exists>bs. writes_of t evs = [bs] \<and> length bs = unat cnt)) \<or>
    (r \<in> {- EINVAL, - ENOMEM, - EPERM, - EFAULT, - ERESTARTSYS} \<and> writes_of t evs = [])"
proof -
  have "told c (writes_of t evs)" using crun_inv [OF assms(3,1,2)] assms(4) by (simp add: run_inv_def)
  with assms(5,6) show ?thesis by (simp add: told_def told_result_def)
qed

theorem finished_write_counts_once_witness:
  "writes_of 0 race_events = [line 1 CHR ''a''] \<and> (\<exists>bs. writes_of 0 race_events = [bs] \<and> length bs = 2)"
proof -
  have "map_option (\<lambda>c. request c = Write 8 2 \<and> phase c = Done 2) (calls raced 0) = Some True" by code_simp
  then obtain c where "calls raced 0 = Some c" "request c = Write 8 2" "phase c = Done 2" by auto
  from finished_write_counts_once [OF small_kernel_laws two_processes_idle race_runs this]
  show ?thesis by (simp add: race_events_def)
qed

text \<open>
  A call whose steps are not interleaved with others, and that finds the mutex free, is the
  sequential operation: same return value, position, file, device, heap and user memory, and the
  same faults, for all four operations.
\<close>

lemma calls_run_alone:
  assumes "\<not> buf_mutex (device w)"
  shows "run_alone K intr t 8 (new_call (Write buf cnt) q f fpos) w =
      bindC (aesd_write K intr f buf cnt fpos w) (\<lambda>(r, p, w').
        returns (\<lparr>request = Write buf cnt, process = q, filp = f, pos = p, phase = Done r\<rparr>, w')) \<and>
    run_alone K intr t 6 (new_call (Read buf cnt) q f fpos) w =
      bindC (aesd_read K intr f buf cnt fpos w) (\<lambda>(r, p, w').
        returns (\<lparr>request = Read buf cnt, process = q, filp = f, pos = p, phase = Done r\<rparr>, w')) \<and>
    run_alone K intr t 6 (new_call (Llseek off whence) q f fpos) w =
      bindC (aesd_llseek K intr f off whence w) (\<lambda>(r, f', w').
        returns (\<lparr>request = Llseek off whence, process = q, filp = f', pos = fpos, phase = Done r\<rparr>, w')) \<and>
    run_alone K intr t 6 (new_call (Ioctl cmd arg) q f fpos) w =
      bindC (aesd_ioctl K intr f cmd arg w) (\<lambda>(r, f', w').
        returns (\<lparr>request = Ioctl cmd arg, process = q, filp = f', pos = fpos, phase = Done r\<rparr>, w'))"
  by (intro conjI write_alone read_alone llseek_alone ioctl_alone assms)

end
