(* ===== verification/Driver_Readers.thy ===== *)
theory Driver_Readers
  imports Driver_Linearizable
begin

text \<open>
  A client that reads the device from the start to the end of the file while others write to it,
  as \<open>handle_client\<close> of the socket server does when it sends the log back: it does so with many
  reads and without holding \<open>log_mutex\<close>. As long as the device has room the client gets exactly
  the log as it stands when it meets the end; once lines are evicted it can miss a line that was
  there all the time.
\<close>

section \<open>What a reader gathers\<close>

text \<open>
  \<open>R\<close> says which calls are the reader's. \<open>follows\<close>: each of its reads starts where the one
  before ended.
\<close>

fun follows :: "(nat \<Rightarrow> bool) \<Rightarrow> nat \<Rightarrow> dev_event list \<Rightarrow> bool" where
  "follows R p [] \<longleftrightarrow> True"
| "follows R p (Got t i n bs # es) \<longleftrightarrow> (if R t then i = p \<and> follows R (p + length bs) es else follows R p es)"
| "follows R p (e # es) \<longleftrightarrow> follows R p es"

fun gathered :: "(nat \<Rightarrow> bool) \<Rightarrow> dev_event list \<Rightarrow> byte list" where
  "gathered R [] = []"
| "gathered R (Got t i n bs # es) = (if R t then bs @ gathered R es else gathered R es)"
| "gathered R (e # es) = gathered R es"

text \<open>The lines that the events complete.\<close>

fun lines_in :: "dev_event list \<Rightarrow> nat" where
  "lines_in [] = 0"
| "lines_in (Wrote t bs # es) = (if newline \<in> set bs then Suc (lines_in es) else lines_in es)"
| "lines_in (e # es) = lines_in es"

lemma gathered_append: "gathered R (es @ fs) = gathered R es @ gathered R fs"
  by (induction R es rule: gathered.induct) simp_all

lemma follows_append:
  "follows R p (es @ fs) \<longleftrightarrow> follows R p es \<and> follows R (p + length (gathered R es)) fs"
  by (induction R p es rule: follows.induct) (simp_all add: add.assoc)

text \<open>With room for them, lines are only added at the end.\<close>

lemma store_write_grows:
  assumes "newline \<in> set bs \<Longrightarrow> length (commands st) < 10"
  shows "(\<exists>x. contents (store_write bs st) = contents st @ x) \<and>
    length (commands (store_write bs st)) = length (commands st) + (if newline \<in> set bs then 1 else 0)"
proof (cases "memchr bs newline")
  case None
  then have "newline \<notin> set bs" by (simp add: memchr_None_iff)
  with None show ?thesis by (simp add: store_write_def contents_def)
next
  case (Some i)
  then have "newline \<in> set bs" using memchr_None_iff [of bs newline] by auto
  with Some assms show ?thesis by (simp add: store_write_def contents_def)
qed

lemma replay_grows:
  "length (commands st) + lines_in es \<le> 10 \<Longrightarrow> \<exists>x. contents (replay st es) = contents st @ x"
proof (induction st es rule: replay.induct)
  case (2 st t bs es)
  have room: "newline \<in> set bs \<Longrightarrow> length (commands st) < 10" using 2(2) by simp
  from store_write_grows [of bs st] room 2 show ?case by (auto split: if_splits)
qed auto

lemma store_read_prefix: "\<exists>rest. drop i (contents st) = store_read st i n @ rest"
proof (cases "locate (map length (commands st)) i")
  case (Some ko)
  then obtain k off where ko: "locate (map length (commands st)) i = Some (k, off)" by (cases ko) auto
  have "drop i (contents st) = drop off (commands st ! k) @ concat (drop (Suc k) (commands st))"
    using locate_drop_concat [OF ko] by (simp add: contents_def)
  also have "\<dots> = store_read st i n @ drop n (drop off (commands st ! k)) @ concat (drop (Suc k) (commands st))"
    using ko by (simp only: store_read_def option.case prod.case append_assoc [symmetric] append_take_drop_id)
  finally show ?thesis by blast
qed (simp add: store_read_def)

lemma room_after_write:
  "length (commands st) + (if newline \<in> set bs then Suc n else n) \<le> 10 \<Longrightarrow> length (commands (store_write bs st)) + n \<le> 10"
  using store_write_grows [of bs st] by (auto split: if_splits)

lemma gathered_prefix:
  "explains st es \<Longrightarrow> follows R p es \<Longrightarrow> length (commands st) + lines_in es \<le> 10 \<Longrightarrow>
   \<exists>rest. drop p (contents (replay st es)) = gathered R es @ rest"
proof (induction R p es arbitrary: st rule: follows.induct)
  case (2 R p t i n bs es)
  show ?case
  proof (cases "R t \<and> bs \<noteq> []")
    case True
    then have i: "i = p" and bs: "bs = store_read st p (unat n)" using 2 by auto
    obtain r where r: "drop p (contents st) = bs @ r" using store_read_prefix bs by blast
    obtain x where x: "contents (replay st es) = contents st @ x" using replay_grows 2(5) by fastforce
    have "p \<le> length (contents st)" using r True by (cases "p \<le> length (contents st)") auto
    then have whole: "drop p (contents (replay st es)) = bs @ r @ x" using r x by simp
    obtain rest where "drop (p + length bs) (contents (replay st es)) = gathered R es @ rest"
      using 2(1) [of st] 2(3-5) True by auto
    moreover have "drop (p + length bs) (contents (replay st es)) = r @ x"
      using arg_cong [OF whole, of "drop (length bs)"] by (simp add: add.commute)
    ultimately show ?thesis using whole True by simp
  qed (use 2 in auto)
qed (auto dest: room_after_write)

section \<open>Properties\<close>

text \<open>
  C20: A client that reads on until a read answers with nothing, while any number of other calls are
  interleaved with its reads, has gathered exactly the log as it stands at that moment, from the
  first byte to the last, provided the device has room for the lines written meanwhile and no
  reallocation fails.
\<close>

theorem concurrent_reader_complete:
  assumes "kernel_laws K" and "cidle s0" and "working_intact (cdevice s0)"
    and "crun K s0 (evs @ [Got t i n []]) s" and "\<forall>u. Lost u \<notin> set evs"
    and "R t" and "n \<noteq> 0" and "follows R 0 (evs @ [Got t i n []])"
    and "length (commands (store_of (cdevice s0) (cheap s0))) + lines_in evs \<le> 10"
  shows "gathered R evs = contents (replay (store_of (cdevice s0) (cheap s0)) evs)"
proof -
  let ?st = "store_of (cdevice s0) (cheap s0)"
  have "explains ?st (evs @ [Got t i n []])"
    using driver_linear [OF assms(1-4)] assms(5) by simp
  then have evs: "explains ?st evs" and eof: "[] = store_read (replay ?st evs) i (unat n)"
    by (simp_all add: explains_append)
  have i: "i = length (gathered R evs)" and fol: "follows R 0 evs"
    using assms(6,8) by (simp_all add: follows_append)
  obtain rest where rest: "contents (replay ?st evs) = gathered R evs @ rest"
    using gathered_prefix [OF evs fol assms(9)] by auto
  have "rest = []"
  proof (rule ccontr)
    assume "rest \<noteq> []"
    then have "locate (map length (commands (replay ?st evs))) i \<noteq> None"
      using rest i by (simp add: locate_None_iff contents_def flip: length_concat)
    then obtain k off where ko: "locate (map length (commands (replay ?st evs))) i = Some (k, off)" by auto
    moreover have "0 < unat n" using assms(7) by (simp add: unat_gt_0)
    ultimately show False using eof locate_SomeD [OF ko] by (auto simp: store_read_def)
  qed
  with rest show ?thesis by simp
qed

text \<open>A whole call as a part of a schedule: a write of two bytes, a read of up to two.\<close>

definition writing :: "nat \<Rightarrow> nat \<Rightarrow> action list" where
  "writing t q = Begin t (Write 8 2) q (Some opened) 0 # replicate 7 (Move t)"

definition reading :: "nat \<Rightarrow> i64 \<Rightarrow> action list" where
  "reading t p = Begin t (Read 8 2) 2 (Some opened) p # replicate 4 (Move t)"

theorem concurrent_reader_complete_witness:
  "gathered (\<lambda>t. 10 \<le> t) [Wrote 0 (line 1 CHR ''a''), Got 10 0 2 (line 1 CHR ''a''), Wrote 1 (line 1 CHR ''b''),
     Got 11 2 2 (line 1 CHR ''b'')] =
   contents \<lparr>commands = [line 1 CHR ''a'', line 1 CHR ''b''], pending = []\<rparr>"
proof -
  let ?evs = "[Wrote 0 (line 1 CHR ''a''), Got 10 0 2 (line 1 CHR ''a''), Wrote 1 (line 1 CHR ''b''),
     Got 11 2 2 (line 1 CHR ''b'')]"
  let ?as = "writing 0 0 @ reading 10 0 @ writing 1 1 @ reading 11 2 @ reading 12 4"
  have run: "crun small_kernel two_processes (?evs @ [Got 12 4 2 []]) (after two_processes ?as)"
    by (rule after_run) code_simp
  have start: "store_of (cdevice two_processes) (cheap two_processes) = \<lparr>commands = [], pending = []\<rparr>"
    using zero_device_store by (simp add: two_processes_def)
  have "working_intact (cdevice two_processes)" by (simp add: two_processes_def working_intact_def zero_device_def)
  moreover have "follows (\<lambda>t. 10 \<le> t) 0 (?evs @ [Got 12 4 2 []])" "lines_in ?evs \<le> 10" by (simp_all add: line_def)
  moreover have "replay \<lparr>commands = [], pending = []\<rparr> ?evs =
      \<lparr>commands = [line 1 CHR ''a'', line 1 CHR ''b''], pending = []\<rparr>" by code_simp
  ultimately show ?thesis
    using concurrent_reader_complete [OF small_kernel_laws two_processes_idle _ run, of "\<lambda>t. 10 \<le> t"] start by simp
qed

text \<open>The device after ten different lines, and three processes, the first with an eleventh.\<close>

definition ten_lines :: "byte list list" where
  "ten_lines = map (\<lambda>c. line 1 c) ''abcdefghij''"

definition full_device :: kworld where
  "full_device = (case put_all small_kernel (fresh_world []) ten_lines of Some (Inr w) \<Rightarrow> w | _ \<Rightarrow> fresh_world [])"

definition full_processes :: cworld where
  "full_processes = \<lparr>cdevice = device full_device, cheap = heap full_device,
     mems = (\<lambda>q. user_store Map.empty 8 (line 1 CHR ''k'')), calls = \<lambda>t. None\<rparr>"

lemma full_device_inv: "dev_inv full_device"
proof (cases "\<exists>w. put_all small_kernel (fresh_world []) ten_lines = returns w")
  case True
  then obtain w where w: "put_all small_kernel (fresh_world []) ten_lines = returns w" by blast
  with put_all_reachable [OF w fresh_reachable] reachable_inv [OF _ small_kernel_laws] show ?thesis
    by (auto simp: full_device_def)
qed (use fresh_inv in \<open>auto simp: full_device_def split: option.splits sum.splits\<close>)

text \<open>
  On a full device a reader can miss a line: it reads the oldest line, then another client's
  line evicts that line, and the reader's next read, at the position behind what it has read,
  answers with the third line. The second line is on the device before, between and after the two
  reads, and the reader never sees it.
\<close>

theorem concurrent_reader_skips:
  "\<exists>evs s. cidle full_processes \<and> crun small_kernel full_processes evs s \<and> \<not> buf_mutex (cdevice s) \<and>
     follows (\<lambda>t. 10 \<le> t) 0 evs \<and> gathered (\<lambda>t. 10 \<le> t) evs = line 1 CHR ''a'' @ line 1 CHR ''c'' \<and>
     take 3 (commands (store_of (cdevice full_processes) (cheap full_processes))) =
       [line 1 CHR ''a'', line 1 CHR ''b'', line 1 CHR ''c''] \<and>
     take 2 (commands (store_of (cdevice s) (cheap s))) = [line 1 CHR ''b'', line 1 CHR ''c'']"
proof -
  let ?as = "reading 10 0 @ writing 0 0 @ reading 11 2"
  let ?evs = "[Got 10 0 2 (line 1 CHR ''a''), Wrote 0 (line 1 CHR ''k''), Got 11 2 2 (line 1 CHR ''c'')]"
  let ?look = "\<lambda>n s. take n (commands (store_of (cdevice s) (cheap s)))"
  have "map_option (\<lambda>(evs, s). (evs, buf_mutex (cdevice s), ?look 2 s, ?look 3 full_processes))
      (schedule small_kernel ?as full_processes) =
    Some (?evs, False, [line 1 CHR ''b'', line 1 CHR ''c''], [line 1 CHR ''a'', line 1 CHR ''b'', line 1 CHR ''c''])"
    by code_simp
  then obtain s where run: "schedule small_kernel ?as full_processes = Some (?evs, s)" and s: "\<not> buf_mutex (cdevice s)"
    "?look 2 s = [line 1 CHR ''b'', line 1 CHR ''c'']"
    "?look 3 full_processes = [line 1 CHR ''a'', line 1 CHR ''b'', line 1 CHR ''c'']"
    by auto
  moreover have "cidle full_processes"
    using full_device_inv by (simp add: cidle_def full_processes_def dev_inv_def)
  moreover have "follows (\<lambda>t. 10 \<le> t) 0 ?evs" "gathered (\<lambda>t. 10 \<le> t) ?evs = line 1 CHR ''a'' @ line 1 CHR ''c''"
    by (simp_all add: line_def)
  ultimately show ?thesis using schedule_crun [OF run] by blast
qed

end
