(* ===== verification/Socket_Client.thy ===== *)
theory Socket_Client
  imports Prelude
begin

text \<open>
  One client of the socket server: \<open>handle_client\<close> of \<open>server/aesdsocket.c\<close>, in both builds: for
  the character device (\<open>USE_AESD_CHAR_DEVICE\<close> defined, as the file does) and for a plain log file.
  The theory has the C string functions it calls, as checked accesses to a block of bytes; the log file as a record of
  functions, so that any device can be put behind it; the receiving loop, the choice between the
  seek command and a line for the log, and the loop that sends the log back; and what all this does
  on the requests a client can send.
\<close>

section \<open>C strings in a block of bytes\<close>

text \<open>
  The argument is the block from the pointer to its end; running off the end is a fault.
\<close>

fun strlen :: "byte list \<Rightarrow> nat comp" where
  "strlen [] = fails Out_Of_Bounds"
| "strlen (b # bs) = (if b = nul then returns 0 else bindC (strlen bs) (\<lambda>n. returns (Suc n)))"

text \<open>\<open>memchr\<close> stops at the first match, so it may be told a length beyond the block.\<close>

fun memchr_checked :: "byte list \<Rightarrow> byte \<Rightarrow> nat \<Rightarrow> nat option comp" where
  "memchr_checked bs c 0 = returns None"
| "memchr_checked [] c (Suc n) = fails Out_Of_Bounds"
| "memchr_checked (b # bs) c (Suc n) =
     (if b = c then returns (Some 0)
      else bindC (memchr_checked bs c n) (\<lambda>r. returns (map_option Suc r)))"

fun strncmp :: "byte list \<Rightarrow> byte list \<Rightarrow> nat \<Rightarrow> int comp" where
  "strncmp xs ys 0 = returns 0"
| "strncmp (x # xs) (y # ys) (Suc n) =
     (if x \<noteq> y then returns (int (of_char x) - int (of_char y))
      else if x = nul then returns 0
      else strncmp xs ys n)"
| "strncmp _ _ (Suc n) = fails Out_Of_Bounds"

definition strcpy :: "byte list \<Rightarrow> byte list \<Rightarrow> byte list comp" where
  "strcpy dst src = bindC (strlen src) (\<lambda>n.
     if Suc n \<le> length dst then returns (take n src @ [nul] @ drop (Suc n) dst) else fails Out_Of_Bounds)"

text \<open>\<open>strtoul\<close> in base 10: white space, an optional sign, digits; it saturates.\<close>

definition is_digit :: "byte \<Rightarrow> bool" where
  "is_digit c \<longleftrightarrow> (48 :: nat) \<le> of_char c \<and> of_char c \<le> (57 :: nat)"

definition is_space :: "byte \<Rightarrow> bool" where
  "is_space c \<longleftrightarrow> c = CHR '' '' \<or> ((9 :: nat) \<le> of_char c \<and> of_char c \<le> (13 :: nat))"

fun digits_value :: "byte list \<Rightarrow> nat \<Rightarrow> nat comp" where
  "digits_value [] acc = fails Out_Of_Bounds"
| "digits_value (c # cs) acc = (if is_digit c then digits_value cs (10 * acc + (of_char c - 48)) else returns acc)"

definition ULONG_MAX :: nat where
  "ULONG_MAX = 2 ^ 64 - 1"

fun strtoul :: "byte list \<Rightarrow> u64 comp" where
  "strtoul [] = fails Out_Of_Bounds"
| "strtoul (c # cs) =
     (if is_space c then strtoul cs
      else if c = CHR ''-'' then bindC (digits_value cs 0) (\<lambda>n.
        returns (if n > ULONG_MAX then of_nat ULONG_MAX else - of_nat n))
      else bindC (digits_value (if c = CHR ''+'' then cs else c # cs) 0) (\<lambda>n. returns (of_nat (min n ULONG_MAX))))"

section \<open>The surroundings\<close>

text \<open>
  What the log file offers through \<open>stdio\<close>: open it, write the bytes and close it; open it and
  issue the seek command with the two numbers, which leaves a read position; read it from a
  position to its end.
\<close>

record 'd log_api =
  log_append :: "byte list \<Rightarrow> 'd \<Rightarrow> 'd comp"
  log_seek :: "u32 \<Rightarrow> u32 \<Rightarrow> 'd \<Rightarrow> (i64 \<times> 'd) comp"
  log_rest :: "i64 \<Rightarrow> 'd \<Rightarrow> (byte list \<times> 'd) comp"

text \<open>
  The answers of the C library and the system: \<open>malloc(1)\<close>, \<open>realloc\<close> on a block to a length,
  \<open>pthread_mutex_lock\<close>, \<open>fopen\<close> before writing and before reading, how many bytes the \<open>i\<close>-th
  \<open>send\<close> takes (\<open>None\<close> for an error), and \<open>close\<close>. \<open>char_device\<close> is whether the server is built
  with \<open>USE_AESD_CHAR_DEVICE\<close>.
\<close>

record client_env =
  char_device :: bool
  malloc_answer :: "byte list option"
  realloc_answer :: "byte list \<Rightarrow> nat \<Rightarrow> byte list option"
  lock_error :: bool
  fopen_a_ok :: bool
  fopen_r_ok :: bool
  send_answer :: "nat \<Rightarrow> byte list \<Rightarrow> nat option"
  close_error :: bool

definition env_laws :: "client_env \<Rightarrow> bool" where
  "env_laws env \<longleftrightarrow>
     (\<forall>blk. malloc_answer env = Some blk \<longrightarrow> length blk = 1) \<and>
     (\<forall>blk n blk'. realloc_answer env blk n = Some blk' \<longrightarrow> length blk' = n \<and> take (length blk) blk' = take n blk)"

datatype recv_answer = Recv_Error | Recv_Closed | Recv "byte list"

section \<open>Receiving\<close>

definition AESD_CHAR_IOCTL_CMD :: "byte list" where
  "AESD_CHAR_IOCTL_CMD = ''AESDCHAR_IOCSEEKTO:'' @ [nul]"

definition CMD_IDENTIFIER_LEN :: nat where
  "CMD_IDENTIFIER_LEN = 19"

definition TOTAL_CMD_LEN :: nat where
  "TOTAL_CMD_LEN = 22"

record client_state =
  recv_buf :: "byte list"
  final_buffer :: "byte list"
  total_bytes_recv :: i32
  more_bytes_to_read :: bool
  ioctl_cmd_found :: int
  retval :: int

text \<open>
  What the loop does with \<open>n\<close> received bytes that have been stored at the start of \<open>recv_buf\<close>
  over what earlier calls left there.
\<close>

definition received :: "client_env \<Rightarrow> nat \<Rightarrow> client_state \<Rightarrow> client_state comp" where
  "received env n st =
     bindC (strlen (final_buffer st)) (\<lambda>old_len.
     bindC (strlen (recv_buf st)) (\<lambda>new_len.
       case realloc_answer env (final_buffer st) (old_len + new_len + 1) of
         None \<Rightarrow> returns (st\<lparr>retval := - 1\<rparr>)
       | Some tmp_buf \<Rightarrow>
           let st1 = st\<lparr>total_bytes_recv := total_bytes_recv st + of_nat n\<rparr>
           in bindC (strcpy tmp_buf (recv_buf st)) (\<lambda>fb.
              bindC (memchr_checked fb newline 512) (\<lambda>new_line_found.
                let st2 = (if new_line_found \<noteq> None then st1\<lparr>more_bytes_to_read := False\<rparr> else st1)
                in if char_device env
                   then bindC (strncmp fb AESD_CHAR_IOCTL_CMD CMD_IDENTIFIER_LEN) (\<lambda>cmp.
                     let st3 = st2\<lparr>final_buffer := fb, ioctl_cmd_found := cmp\<rparr>
                     in returns (if sint (total_bytes_recv st3) \<ge> int TOTAL_CMD_LEN \<and> cmp = 0
                                 then st3\<lparr>more_bytes_to_read := False\<rparr> else st3))
                   else returns (st2\<lparr>final_buffer := fb\<rparr>)))))"

text \<open>
  The loop consumes the answers of \<open>recv\<close>; when it wants more than there are, it waits for ever.
\<close>

fun receive_loop :: "client_env \<Rightarrow> recv_answer list \<Rightarrow> client_state \<Rightarrow> client_state comp" where
  "receive_loop env answers st =
     (if more_bytes_to_read st \<and> retval st \<noteq> - 1
      then (case answers of
              [] \<Rightarrow> None
            | Recv_Error # rest \<Rightarrow>
                receive_loop env rest (st\<lparr>more_bytes_to_read := False, retval := - 1\<rparr>)
            | Recv_Closed # rest \<Rightarrow> receive_loop env rest (st\<lparr>more_bytes_to_read := False\<rparr>)
            | Recv bs # rest \<Rightarrow>
                bindC (received env (length bs) (st\<lparr>recv_buf := bs @ drop (length bs) (recv_buf st)\<rparr>))
                  (receive_loop env rest))
      else returns st)"

declare receive_loop.simps [simp del]

section \<open>Answering\<close>

record client_result =
  result_retval :: int
  sent :: "byte list"
  client_closed :: bool

text \<open>
  The loop that reads the log in chunks of 512 bytes and sends them, until a chunk falls short; a
  short or failed \<open>send\<close> does not stop it and is not repeated.
\<close>

function send_loop :: "client_env \<Rightarrow> nat \<Rightarrow> byte list \<Rightarrow> byte list \<Rightarrow> int \<Rightarrow> byte list \<times> int" where
  "send_loop env i rest out rv =
     (let chunk = take 512 rest;
          (out', rv') = (case send_answer env i chunk of
                           None \<Rightarrow> (out, - 1)
                         | Some k \<Rightarrow> (out @ take k chunk, rv))
      in if length chunk < 512 then (out', rv') else send_loop env (Suc i) (drop 512 rest) out' rv')"
  by pat_completeness auto
termination
  by (relation "measure (\<lambda>(env, i, rest, out, rv). length rest)") auto

declare send_loop.simps [simp del]

text \<open>From the position at which the log is open, and the value of \<open>retval\<close> so far, to the end.\<close>

definition respond :: "client_env \<Rightarrow> 'd log_api \<Rightarrow> i64 \<Rightarrow> int \<Rightarrow> 'd \<Rightarrow> (client_result \<times> 'd) comp" where
  "respond env api pos rv d =
     bindC (log_rest api pos d) (\<lambda>(rest, d').
       let (out, rv') = send_loop env 0 rest [] rv
       in returns (\<lparr>result_retval = (if close_error env then - 1 else rv'), sent = out,
                    client_closed = True\<rparr>, d'))"

text \<open>
  Without the character device the branch for the seek command is empty, and \<open>fp\<close> would be read
  uninitialised behind it.
\<close>

definition handle_client ::
  "client_env \<Rightarrow> 'd log_api \<Rightarrow> recv_answer list \<Rightarrow> 'd \<Rightarrow> (client_result \<times> 'd) comp" where
  "handle_client env api answers d =
     (case malloc_answer env of
        None \<Rightarrow> fails Null_Deref
      | Some blk \<Rightarrow>
          bindC (arr_set blk 0 nul) (\<lambda>fb.
          bindC (receive_loop env answers
                   \<lparr>recv_buf = replicate 512 nul, final_buffer = fb, total_bytes_recv = 0,
                    more_bytes_to_read = True, ioctl_cmd_found = - 1, retval = 0\<rparr>) (\<lambda>st.
            if ioctl_cmd_found st = 0
            then if \<not> char_device env then fails Use_After_Free
                 else bindC (strtoul (drop CMD_IDENTIFIER_LEN (final_buffer st))) (\<lambda>cmd.
                 bindC (strtoul (drop (TOTAL_CMD_LEN - 1) (final_buffer st))) (\<lambda>offs.
                   if \<not> fopen_a_ok env then fails Null_Deref
                   else bindC (log_seek api (ucast cmd) (ucast offs) d) (\<lambda>(pos, d1).
                          respond env api pos (retval st) d1)))
            else bindC (if lock_error env then returns (- 1, d)
                        else if \<not> fopen_a_ok env then fails Null_Deref
                        else if length (final_buffer st) < unat (scast (total_bytes_recv st) :: u64)
                        then fails Out_Of_Bounds
                        else bindC (log_append api (take (unat (scast (total_bytes_recv st) :: u64)) (final_buffer st)) d)
                               (\<lambda>d1. returns (retval st, d1))) (\<lambda>(rv, d1).
                 if \<not> fopen_r_ok env then fails Null_Deref
                 else respond env api 0 rv d1))))"

section \<open>C strings\<close>

lemma strlen_terminated: "nul \<notin> set bs \<Longrightarrow> strlen (bs @ nul # r) = returns (length bs)"
  by (induction bs) auto

lemma strlen_unterminated: "nul \<notin> set bs \<Longrightarrow> strlen bs = fails Out_Of_Bounds"
  by (induction bs) auto

lemma memchr_checked_found:
  "c \<notin> set bs \<Longrightarrow> length bs < n \<Longrightarrow> memchr_checked (bs @ c # r) c n = returns (Some (length bs))"
  by (induction bs c n rule: memchr_checked.induct) (auto simp: Suc_le_eq gr0_conv_Suc)

lemma memchr_checked_runs_off:
  "c \<notin> set bs \<Longrightarrow> length bs < n \<Longrightarrow> memchr_checked bs c n = fails Out_Of_Bounds"
  by (induction bs c n rule: memchr_checked.induct) auto

lemma strcpy_exact:
  "nul \<notin> set bs \<Longrightarrow> length dst = Suc (length bs) \<Longrightarrow> strcpy dst (bs @ nul # r) = returns (bs @ [nul])"
  by (simp add: strcpy_def strlen_terminated)

lemma strncmp_strings:
  "nul \<notin> set xs \<Longrightarrow> nul \<notin> set ys \<Longrightarrow>
   \<exists>r. strncmp (xs @ [nul]) (ys @ [nul]) n = returns r \<and> (r = 0 \<longleftrightarrow> take n xs = take n ys)"
proof (induction n arbitrary: xs ys)
  case (Suc n)
  have differ: "int (of_char x) - int (of_char y) \<noteq> 0" if "x \<noteq> y" for x y :: byte
    using that by (simp add: of_char_eq_iff)
  have pos: "0 < (of_char x :: nat)" if "x \<noteq> nul" for x :: byte
  proof -
    have "(of_char x :: nat) \<noteq> of_char nul" using that by (simp only: of_char_eq_iff not_False_eq_True)
    then show ?thesis by simp
  qed
  show ?case
    using Suc by (cases xs; cases ys) (auto simp: differ intro: pos)
qed simp

lemma digits_value_run:
  "\<forall>c \<in> set ds. is_digit c \<Longrightarrow> \<not> is_digit c \<Longrightarrow>
   digits_value (ds @ c # r) acc = returns (foldl (\<lambda>a d. 10 * a + (of_char d - 48)) acc ds)"
  by (induction ds arbitrary: acc) auto

text \<open>The number that a string of digits denotes.\<close>

definition decimal :: "byte list \<Rightarrow> nat" where
  "decimal ds = foldl (\<lambda>a d. 10 * a + (of_char d - 48)) 0 ds"

lemma digit_not_special: "is_digit c \<Longrightarrow> \<not> is_space c \<and> c \<noteq> CHR ''-'' \<and> c \<noteq> CHR ''+''"
  by (auto simp: is_digit_def is_space_def)

lemma strtoul_digits:
  assumes "\<forall>c \<in> set ds. is_digit c" and "\<not> is_digit c"
    and "ds = [] \<Longrightarrow> \<not> is_space c \<and> c \<noteq> CHR ''-'' \<and> c \<noteq> CHR ''+''"
  shows "strtoul (ds @ c # r) = returns (of_nat (min (decimal ds) ULONG_MAX))"
proof (cases ds)
  case Nil
  with assms show ?thesis by (simp add: decimal_def)
next
  case (Cons d ds')
  with assms(1) digit_not_special [of d] have "\<not> is_space d" "d \<noteq> CHR ''-''" "d \<noteq> CHR ''+''" by auto
  with Cons show ?thesis
    using digits_value_run [OF assms(1,2), of r 0] by (simp add: decimal_def)
qed

section \<open>One complete line\<close>

text \<open>Surroundings in which nothing fails and everything that is sent arrives.\<close>

definition smooth :: "client_env \<Rightarrow> bool" where
  "smooth env \<longleftrightarrow> env_laws env \<and> malloc_answer env \<noteq> None \<and> (\<forall>blk n. realloc_answer env blk n \<noteq> None) \<and>
     \<not> lock_error env \<and> fopen_a_ok env \<and> fopen_r_ok env \<and> \<not> close_error env \<and>
     (\<forall>i bs. send_answer env i bs = Some (length bs))"

abbreviation start_state :: client_state where
  "start_state \<equiv> \<lparr>recv_buf = replicate 512 nul, final_buffer = [nul], total_bytes_recv = 0,
     more_bytes_to_read = True, ioctl_cmd_found = - 1, retval = 0\<rparr>"

text \<open>
  The first piece: the buffer then holds the string \<open>s\<close>, whose end is the first zero byte, be it
  received or left from the initialisation.
\<close>

lemma received_first:
  assumes "smooth env" and "nul \<notin> set s"
  shows "received env n (start_state\<lparr>recv_buf := s @ nul # r\<rparr>) =
    bindC (memchr_checked (s @ [nul]) newline 512) (\<lambda>found.
    bindC (if char_device env then strncmp (s @ [nul]) AESD_CHAR_IOCTL_CMD CMD_IDENTIFIER_LEN else returns (- 1)) (\<lambda>cmp.
      let st = start_state\<lparr>recv_buf := s @ nul # r, final_buffer := s @ [nul],
                  total_bytes_recv := of_nat n, ioctl_cmd_found := cmp\<rparr>
      in returns (if found \<noteq> None \<or> (sint (of_nat n :: i32) \<ge> int TOTAL_CMD_LEN \<and> cmp = 0)
                  then st\<lparr>more_bytes_to_read := False\<rparr> else st)))"
proof -
  obtain blk where blk: "realloc_answer env [nul] (Suc (length s)) = Some blk" "length blk = Suc (length s)"
    using assms(1) unfolding smooth_def env_laws_def by (metis option.exhaust)
  have len: "strlen (s @ nul # r) = returns (length s)" using assms(2) by (rule strlen_terminated)
  have cpy: "strcpy blk (s @ nul # r) = returns (s @ [nul])" using assms(2) blk(2) by (rule strcpy_exact)
  show ?thesis
    by (cases "char_device env"; simp add: received_def len cpy blk(1) Let_def; intro bindC_cong refl; auto)
qed

lemma receive_piece:
  assumes "smooth env" and "nul \<notin> set s" and "newline \<in> set s" and "length s < 512"
    and buf: "bs @ drop (length bs) (replicate 512 nul) = s @ nul # r"
  obtains cmp where "receive_loop env (Recv bs # later) start_state =
      returns (start_state\<lparr>recv_buf := s @ nul # r, final_buffer := s @ [nul],
        total_bytes_recv := of_nat (length bs), ioctl_cmd_found := cmp, more_bytes_to_read := False\<rparr>)"
    and "cmp = 0 \<longleftrightarrow> char_device env \<and> take 19 s = ''AESDCHAR_IOCSEEKTO:''"
proof -
  obtain xs ys where xs: "s = xs @ newline # ys" "newline \<notin> set xs"
    using assms(3) by (meson split_list_first)
  then have found: "memchr_checked (s @ [nul]) newline 512 = returns (Some (length xs))"
    using memchr_checked_found [of newline xs 512 "ys @ [nul]"] assms(4) by simp
  have "nul \<notin> set ''AESDCHAR_IOCSEEKTO:''" by simp
  from strncmp_strings [OF assms(2) this, of 19] obtain cmp where
    cmp: "(if char_device env then strncmp (s @ [nul]) AESD_CHAR_IOCTL_CMD CMD_IDENTIFIER_LEN else returns (- 1)) = returns cmp"
      "cmp = 0 \<longleftrightarrow> char_device env \<and> take 19 s = ''AESDCHAR_IOCSEEKTO:''"
    unfolding AESD_CHAR_IOCTL_CMD_def CMD_IDENTIFIER_LEN_def by (cases "char_device env") auto
  note first = received_first [OF assms(1,2), of "length bs" r]
  show thesis
  proof (rule that [OF _ cmp(2)])
    show "receive_loop env (Recv bs # later) start_state =
      returns (start_state\<lparr>recv_buf := s @ nul # r, final_buffer := s @ [nul],
        total_bytes_recv := of_nat (length bs), ioctl_cmd_found := cmp, more_bytes_to_read := False\<rparr>)"
      using first found cmp(1) buf
      by (simp add: receive_loop.simps [of env "Recv bs # later"] receive_loop.simps [of env later] Let_def)
  qed
qed

lemma line_buffer:
  assumes "length bs < 512"
  obtains r where "bs @ drop (length bs) (replicate 512 nul) = bs @ nul # r"
  using assms by (cases "512 - length bs") auto

section \<open>The whole handler in smooth surroundings\<close>

lemma send_loop_smooth: "smooth env \<Longrightarrow> send_loop env i rest out rv = (out @ rest, rv)"
proof (induction rest arbitrary: i out rule: length_induct)
  case (1 rest)
  show ?case
  proof (cases "length rest < 512")
    case True
    with 1(2) show ?thesis by (subst send_loop.simps) (simp add: smooth_def Let_def)
  next
    case False
    then have "length (drop 512 rest) < length rest" by simp
    with 1 have "send_loop env (Suc i) (drop 512 rest) (out @ take 512 rest) rv = (out @ rest, rv)" by simp
    with False 1(2) show ?thesis by (subst send_loop.simps) (simp add: smooth_def Let_def)
  qed
qed

lemma respond_smooth:
  "smooth env \<Longrightarrow> respond env api pos rv d =
     bindC (log_rest api pos d) (\<lambda>(rest, d').
       returns (\<lparr>result_retval = rv, sent = rest, client_closed = True\<rparr>, d'))"
  by (simp add: respond_def send_loop_smooth) (simp add: smooth_def)

lemma respond_smooth_fun:
  "smooth env \<Longrightarrow> respond env api pos rv = (\<lambda>d. bindC (log_rest api pos d) (\<lambda>(rest, d').
       returns (\<lparr>result_retval = rv, sent = rest, client_closed = True\<rparr>, d')))"
  by (rule ext) (rule respond_smooth)

lemma total_value:
  assumes "n \<le> 512"
  shows "unat (scast (of_nat n :: i32) :: u64) = n" and "sint (of_nat n :: i32) = int n"
proof -
  show s: "sint (of_nat n :: i32) = int n"
    using assms unfolding sint_uint by (simp add: unsigned_of_nat take_bit_nat_eq_self signed_take_bit_int_eq_self)
  have "(scast (of_nat n :: i32) :: u64) = of_nat n"
    unfolding scast_eq s by simp
  with assms show "unat (scast (of_nat n :: i32) :: u64) = n"
    by (simp add: unat_of_nat_u64)
qed

lemma handle_client_run:
  assumes "smooth env"
  shows "handle_client env api answers d =
    bindC (receive_loop env answers start_state) (\<lambda>st.
      if ioctl_cmd_found st = 0
      then if \<not> char_device env then fails Use_After_Free
           else bindC (strtoul (drop 19 (final_buffer st))) (\<lambda>cmd.
           bindC (strtoul (drop 21 (final_buffer st))) (\<lambda>offs.
           bindC (log_seek api (ucast cmd) (ucast offs) d) (\<lambda>(pos, d1). respond env api pos (retval st) d1)))
      else bindC (if length (final_buffer st) < unat (scast (total_bytes_recv st) :: u64)
                  then fails Out_Of_Bounds
                  else log_append api (take (unat (scast (total_bytes_recv st) :: u64)) (final_buffer st)) d)
             (respond env api 0 (retval st)))"
proof -
  obtain blk where blk: "malloc_answer env = Some blk" "length blk = 1"
    using assms by (auto simp: smooth_def env_laws_def)
  then have "blk[0 := nul] = [nul]" by (cases blk) auto
  with assms blk show ?thesis
    by (auto simp: handle_client_def smooth_def CMD_IDENTIFIER_LEN_def TOTAL_CMD_LEN_def bindC_assoc
        intro!: bindC_cong)
qed

text \<open>A seek request in one piece, up to the reading of its numbers.\<close>

lemma handle_seek_request:
  assumes "smooth env" and "char_device env" and "nul \<notin> set bs" and "newline \<in> set bs" and "length bs < 512"
    and "take 19 bs = ''AESDCHAR_IOCSEEKTO:''"
  shows "handle_client env api (Recv bs # later) d =
    bindC (strtoul (drop 19 (bs @ [nul]))) (\<lambda>cmd.
    bindC (strtoul (drop 21 (bs @ [nul]))) (\<lambda>offs.
    bindC (log_seek api (ucast cmd) (ucast offs) d) (\<lambda>(pos, d1). respond env api pos 0 d1)))"
proof -
  obtain r where r: "bs @ drop (length bs) (replicate 512 nul) = bs @ nul # r"
    using line_buffer [OF assms(5)] by blast
  obtain q where "receive_loop env (Recv bs # later) start_state =
      returns (start_state\<lparr>recv_buf := q, final_buffer := bs @ [nul],
        total_bytes_recv := of_nat (length bs), ioctl_cmd_found := 0, more_bytes_to_read := False\<rparr>)"
    using receive_piece [OF assms(1,3-5) r, of later] assms(2,6) by metis
  with assms(1,2) show ?thesis by (simp add: handle_client_run)
qed

lemma piece_string:
  assumes "length (takeWhile (\<lambda>b. b \<noteq> nul) bs) < 512" and "length bs \<le> 512"
  obtains r where "bs @ drop (length bs) (replicate 512 nul) = takeWhile (\<lambda>b. b \<noteq> nul) bs @ nul # r"
proof (cases "nul \<in> set bs")
  case True
  then obtain xs ys where bs: "bs = xs @ nul # ys" "nul \<notin> set xs" by (meson split_list_first)
  then have "takeWhile (\<lambda>b. b \<noteq> nul) bs = xs" by (auto simp: takeWhile_append takeWhile_eq_all_conv)
  with bs that show thesis by simp
next
  case False
  then have "takeWhile (\<lambda>b. b \<noteq> nul) bs = bs" by (auto simp: takeWhile_eq_all_conv)
  with assms line_buffer [of bs] that show thesis by metis
qed

lemma not_digits: "\<not> is_digit CHR '',''" "\<not> is_digit newline" "\<not> is_digit nul"
  by (simp_all add: is_digit_def)

lemma one_digit: "is_digit x \<Longrightarrow> decimal [x] < 10"
  by (auto simp: is_digit_def decimal_def)

lemma two_digits: "is_digit x \<Longrightarrow> is_digit y \<Longrightarrow> decimal [x, y] < 100"
  by (auto simp: is_digit_def decimal_def)

lemma ucast_small: "n < 100 \<Longrightarrow> ucast (of_nat n :: u64) = (of_nat n :: u32)"
  by (simp add: word_unat_eq_iff unsigned_ucast_eq unsigned_of_nat take_bit_nat_eq_self)

text \<open>One line in one piece.\<close>

lemma handle_line:
  assumes "smooth env" and "nul \<notin> set ls" and "newline \<notin> set ls" and "length ls < 511"
    and "char_device env \<Longrightarrow> take 19 (ls @ [newline]) \<noteq> ''AESDCHAR_IOCSEEKTO:''"
  shows "handle_client env api (Recv (ls @ [newline]) # later) d =
    bindC (log_append api (ls @ [newline]) d) (\<lambda>d1.
    bindC (log_rest api 0 d1) (\<lambda>(rest, d2).
      returns (\<lparr>result_retval = 0, sent = rest, client_closed = True\<rparr>, d2)))"
proof -
  let ?bs = "ls @ [newline]"
  have bs: "nul \<notin> set ?bs" "newline \<in> set ?bs" "length ?bs < 512" using assms by auto
  obtain r where r: "?bs @ drop (length ?bs) (replicate 512 nul) = ?bs @ nul # r"
    using line_buffer [OF bs(3)] by blast
  obtain cmp where loop: "receive_loop env (Recv ?bs # later) start_state =
      returns (start_state\<lparr>recv_buf := ?bs @ nul # r, final_buffer := ?bs @ [nul],
        total_bytes_recv := of_nat (length ?bs), ioctl_cmd_found := cmp, more_bytes_to_read := False\<rparr>)"
    and "cmp \<noteq> 0"
    using receive_piece [OF assms(1) bs r, of later] assms(5) by metis
  moreover have "unat (scast (of_nat (length ?bs) :: i32) :: u64) = length ?bs"
    using bs(3) by (intro total_value) simp
  ultimately show ?thesis
    using assms(1) by (simp add: handle_client_run respond_smooth_fun)
qed

text \<open>One seek request with a one-digit command number.\<close>

lemma handle_seek:
  assumes "smooth env" and "char_device env" and "is_digit x" and "\<forall>c \<in> set ys. is_digit c" and "ys \<noteq> []"
    and "decimal ys \<le> ULONG_MAX" and "length ys < 480"
  shows "handle_client env api (Recv (''AESDCHAR_IOCSEEKTO:'' @ [x, CHR '',''] @ ys @ [newline]) # later) d =
    bindC (log_seek api (of_nat (decimal [x])) (ucast (of_nat (decimal ys) :: u64)) d) (\<lambda>(pos, d1).
    bindC (log_rest api pos d1) (\<lambda>(rest, d2).
      returns (\<lparr>result_retval = 0, sent = rest, client_closed = True\<rparr>, d2)))"
proof -
  let ?bs = "''AESDCHAR_IOCSEEKTO:'' @ [x, CHR '',''] @ ys @ [newline]"
  have num: "strtoul ([x] @ CHR '','' # (ys @ [newline, nul])) = returns (of_nat (decimal [x]))"
    using assms(3) one_digit [of x] by (subst strtoul_digits) (auto simp: not_digits ULONG_MAX_def)
  have off: "strtoul (ys @ newline # [nul]) = returns (of_nat (decimal ys))"
    using assms(4-6) by (subst strtoul_digits) (auto simp: not_digits)
  have "handle_client env api (Recv ?bs # later) d =
      bindC (strtoul (drop 19 (?bs @ [nul]))) (\<lambda>cmd.
      bindC (strtoul (drop 21 (?bs @ [nul]))) (\<lambda>offs.
      bindC (log_seek api (ucast cmd) (ucast offs) d) (\<lambda>(pos, d1). respond env api pos 0 d1)))"
    using assms by (intro handle_seek_request) (auto simp: not_digits)
  then show ?thesis
    using num off one_digit [OF assms(3)] assms(1) by (simp add: respond_smooth ucast_small)
qed

section \<open>The contract of a log\<close>

text \<open>
  What the server relies on when it writes lines and reads the log back: a state in which lines
  can be taken, a line that is written joins the stored data or, when the log refuses it, changes
  nothing, and reading from a position to the end delivers the rest of the stored text.
\<close>

locale line_log =
  fixes api :: "'d log_api"
    and idle :: "'d \<Rightarrow> bool"
    and store :: "'d \<Rightarrow> 's"
    and add_line :: "byte list \<Rightarrow> 's \<Rightarrow> 's"
    and text_of :: "'s \<Rightarrow> byte list"
  assumes append_ok: "idle d \<Longrightarrow> newline \<notin> set ls \<Longrightarrow> length ls < 511 \<Longrightarrow>
      \<exists>d'. log_append api (ls @ [newline]) d = returns d' \<and> idle d' \<and>
           (store d' = add_line (ls @ [newline]) (store d) \<or> store d' = store d)"
    and rest_ok: "idle d \<Longrightarrow>
      \<exists>d'. log_rest api pos d = returns (drop (unat pos) (text_of (store d)), d') \<and> idle d' \<and> store d' = store d"
begin

lemma serve_line:
  assumes "smooth env" and "idle d" and "nul \<notin> set ls" and "newline \<notin> set ls" and "length ls < 511"
    and "char_device env \<Longrightarrow> take 19 (ls @ [newline]) \<noteq> ''AESDCHAR_IOCSEEKTO:''"
  shows "\<exists>res d'. handle_client env api (Recv (ls @ [newline]) # later) d = returns (res, d') \<and> idle d' \<and>
    (store d' = add_line (ls @ [newline]) (store d) \<or> store d' = store d) \<and>
    result_retval res = 0 \<and> sent res = text_of (store d') \<and> client_closed res"
proof -
  obtain d1 where d1: "log_append api (ls @ [newline]) d = returns d1" "idle d1"
    "store d1 = add_line (ls @ [newline]) (store d) \<or> store d1 = store d"
    using append_ok [OF assms(2,4,5)] by blast
  obtain d2 where "log_rest api 0 d1 = returns (text_of (store d1), d2)" "idle d2" "store d2 = store d1"
    using rest_ok [OF d1(2), of 0] by auto
  with d1 show ?thesis using handle_line [OF assms(1,3-6), of api later d] by auto
qed

end

section \<open>Properties\<close>

text \<open>Concrete surroundings, and a log that is a list of bytes with a seek command of its own.\<close>

definition calm_env :: client_env where
  "calm_env = \<lparr>char_device = True, malloc_answer = Some [CHR ''?''],
     realloc_answer = \<lambda>blk n. Some (take n blk @ replicate (n - length blk) CHR ''?''),
     lock_error = False, fopen_a_ok = True, fopen_r_ok = True,
     send_answer = \<lambda>i bs. Some (length bs), close_error = False\<rparr>"

lemma calm_smooth: "smooth calm_env"
  by (auto simp: smooth_def env_laws_def calm_env_def min_def)

lemma calm_device: "char_device calm_env"
  by (simp add: calm_env_def)

definition byte_log :: "byte list log_api" where
  "byte_log = \<lparr>log_append = \<lambda>bs d. returns (d @ bs),
     log_seek = \<lambda>c x d. returns (of_nat (unat c + unat x), d),
     log_rest = \<lambda>pos d. returns (drop (unat pos) d, d)\<rparr>"

text \<open>
  A client that sends one line of up to 511 bytes, in one piece, without zero bytes and
  not starting with the name of the seek command in the build that knows it, has exactly that line appended to the log, and
  receives exactly what the log then holds from its start; the connection is closed and 0 returned.
\<close>

theorem line_is_logged_and_answered:
  assumes "smooth env" and "nul \<notin> set ls" and "newline \<notin> set ls" and "length ls < 511"
    and "char_device env \<Longrightarrow> take 19 (ls @ [newline]) \<noteq> ''AESDCHAR_IOCSEEKTO:''"
  shows "handle_client env api (Recv (ls @ [newline]) # later) d =
    bindC (log_append api (ls @ [newline]) d) (\<lambda>d1.
    bindC (log_rest api 0 d1) (\<lambda>(rest, d2).
      returns (\<lparr>result_retval = 0, sent = rest, client_closed = True\<rparr>, d2)))"
  using assms by (rule handle_line)

theorem line_is_logged_and_answered_witness:
  "handle_client calm_env byte_log [Recv (''hi'' @ [newline])] ''old '' =
     returns (\<lparr>result_retval = 0, sent = ''old hi'' @ [newline], client_closed = True\<rparr>, ''old hi'' @ [newline])"
  using line_is_logged_and_answered [OF calm_smooth, of "''hi''" byte_log "[]" "''old ''"]
  by (simp add: byte_log_def)

text \<open>
  A client that sends the seek command with a one-digit command number and a decimal offset,
  as one line, has exactly that command issued on the log, and receives what the log holds from the
  position the command chose.
\<close>

theorem seek_request_is_issued:
  assumes "smooth env" and "char_device env" and "is_digit x" and "\<forall>c \<in> set ys. is_digit c" and "ys \<noteq> []"
    and "decimal ys \<le> ULONG_MAX" and "length ys < 480"
  shows "handle_client env api (Recv (''AESDCHAR_IOCSEEKTO:'' @ [x, CHR '',''] @ ys @ [newline]) # later) d =
    bindC (log_seek api (of_nat (decimal [x])) (ucast (of_nat (decimal ys) :: u64)) d) (\<lambda>(pos, d1).
    bindC (log_rest api pos d1) (\<lambda>(rest, d2).
      returns (\<lparr>result_retval = 0, sent = rest, client_closed = True\<rparr>, d2)))"
  using assms by (rule handle_seek)

theorem seek_request_is_issued_witness:
  "handle_client calm_env byte_log [Recv (''AESDCHAR_IOCSEEKTO:1,2'' @ [newline])] ''hello'' =
     returns (\<lparr>result_retval = 0, sent = ''lo'', client_closed = True\<rparr>, ''hello'')"
proof -
  have seek: "bindC (log_seek byte_log (of_nat (decimal ''1'')) (ucast (of_nat (decimal ''2'') :: u64)) ''hello'')
      (\<lambda>(pos, d1). bindC (log_rest byte_log pos d1) (\<lambda>(rest, d2).
        returns (\<lparr>result_retval = 0, sent = rest, client_closed = True\<rparr>, d2))) =
    returns (\<lparr>result_retval = 0, sent = ''lo'', client_closed = True\<rparr>, ''hello'')"
    by code_simp
  have "is_digit CHR ''1''" "\<forall>c \<in> set ''2''. is_digit c" "decimal ''2'' \<le> ULONG_MAX"
    by (simp_all add: is_digit_def decimal_def ULONG_MAX_def)
  from seek_request_is_issued [OF calm_smooth calm_device this(1,2) _ this(3), of byte_log "[]" "''hello''"] seek
  show ?thesis by simp
qed

text \<open>
  The offset is always read from the third byte behind the command's name, so a seek
  command with a two-digit command number has its offset read as 0: the position is parsed at the
  comma.
\<close>

theorem two_digit_seek_loses_offset:
  assumes "smooth env" and "char_device env" and "is_digit x1" and "is_digit x2" and "\<forall>c \<in> set ys. is_digit c" and "length ys < 480"
  shows "handle_client env api (Recv (''AESDCHAR_IOCSEEKTO:'' @ [x1, x2, CHR '',''] @ ys @ [newline]) # later) d =
    bindC (log_seek api (of_nat (decimal [x1, x2])) 0 d) (\<lambda>(pos, d1).
    bindC (log_rest api pos d1) (\<lambda>(rest, d2).
      returns (\<lparr>result_retval = 0, sent = rest, client_closed = True\<rparr>, d2)))"
proof -
  let ?bs = "''AESDCHAR_IOCSEEKTO:'' @ [x1, x2, CHR '',''] @ ys @ [newline]"
  have num: "strtoul ([x1, x2] @ CHR '','' # (ys @ [newline, nul])) = returns (of_nat (decimal [x1, x2]))"
    using assms(3,4) two_digits [of x1 x2] by (subst strtoul_digits) (auto simp: not_digits ULONG_MAX_def)
  have off: "strtoul ([] @ CHR '','' # (ys @ [newline, nul])) = returns 0"
    by (subst strtoul_digits) (auto simp: not_digits decimal_def is_space_def)
  have "handle_client env api (Recv ?bs # later) d =
      bindC (strtoul (drop 19 (?bs @ [nul]))) (\<lambda>cmd.
      bindC (strtoul (drop 21 (?bs @ [nul]))) (\<lambda>offs.
      bindC (log_seek api (ucast cmd) (ucast offs) d) (\<lambda>(pos, d1). respond env api pos 0 d1)))"
    using assms by (intro handle_seek_request) (auto simp: not_digits)
  then show ?thesis
    using num off two_digits [OF assms(3,4)] assms(1) by (simp add: respond_smooth ucast_small)
qed

theorem two_digit_seek_loses_offset_witness:
  "handle_client calm_env byte_log [Recv (''AESDCHAR_IOCSEEKTO:10,5'' @ [newline])] ''0123456789abcdefg'' =
     returns (\<lparr>result_retval = 0, sent = ''abcdefg'', client_closed = True\<rparr>, ''0123456789abcdefg'')"
proof -
  have seek: "bindC (log_seek byte_log (of_nat (decimal ''10'')) 0 ''0123456789abcdefg'')
      (\<lambda>(pos, d1). bindC (log_rest byte_log pos d1) (\<lambda>(rest, d2).
        returns (\<lparr>result_retval = 0, sent = rest, client_closed = True\<rparr>, d2))) =
    returns (\<lparr>result_retval = 0, sent = ''abcdefg'', client_closed = True\<rparr>, ''0123456789abcdefg'')"
    by code_simp
  have "is_digit CHR ''1''" "is_digit CHR ''0''" "\<forall>c \<in> set ''5''. is_digit c"
    by (simp_all add: is_digit_def)
  from two_digit_seek_loses_offset [OF calm_smooth calm_device this, of byte_log "[]" "''0123456789abcdefg''"] seek
  show ?thesis by simp
qed

text \<open>
  C37: A request whose first piece has fewer than 511 bytes before its end or its first zero byte, none
  of them a newline, or whose first piece fills the whole receive buffer with no zero byte in it, makes
  the server read behind the end of a buffer: the search for the newline is told 512 bytes whatever the
  size of the allocated string, and the length of the received bytes is taken as that of a string
  although nothing terminates it. (Exactly 511 bytes do fit, \<open>piece_of_511_fits\<close>.)
\<close>

theorem split_request_overruns:
  assumes "smooth env" and "length bs \<le> 512"
    and "newline \<notin> set (takeWhile (\<lambda>b. b \<noteq> nul) bs) \<and> length (takeWhile (\<lambda>b. b \<noteq> nul) bs) < 511 \<or>
         length bs = 512 \<and> nul \<notin> set bs"
  shows "handle_client env api (Recv bs # later) d = fails Out_Of_Bounds"
  using assms(3)
proof
  let ?s = "takeWhile (\<lambda>b. b \<noteq> nul) bs"
  assume l: "newline \<notin> set ?s \<and> length ?s < 511"
  have s: "nul \<notin> set ?s" by (auto dest: set_takeWhileD)
  obtain r where r: "bs @ drop (length bs) (replicate 512 nul) = ?s @ nul # r"
    using piece_string [of bs] l assms(2) by auto
  have "memchr_checked (?s @ [nul]) newline 512 = fails Out_Of_Bounds"
    using l by (intro memchr_checked_runs_off) auto
  with received_first [OF assms(1) s, of "length bs" r] r
  have "receive_loop env (Recv bs # later) start_state = fails Out_Of_Bounds"
    by (simp add: receive_loop.simps [of env "Recv bs # later"])
  then show ?thesis using assms(1) by (simp add: handle_client_run)
next
  assume "length bs = 512 \<and> nul \<notin> set bs"
  then have "receive_loop env (Recv bs # later) start_state = fails Out_Of_Bounds"
    by (simp add: receive_loop.simps [of env "Recv bs # later"] received_def strlen_unterminated)
  then show ?thesis using assms(1) by (simp add: handle_client_run)
qed

theorem split_request_overruns_witness:
  "handle_client calm_env byte_log [Recv ''hel'', Recv (''lo'' @ [newline])] [] = fails Out_Of_Bounds"
  using split_request_overruns [OF calm_smooth, of "''hel''" byte_log] by simp

text \<open>With the terminator 511 bytes are the 512 that are searched: the server goes on and waits for more.\<close>

lemma memchr_checked_absent:
  "c \<notin> set bs \<Longrightarrow> n \<le> length bs \<Longrightarrow> memchr_checked bs c n = returns None"
  by (induction bs c n rule: memchr_checked.induct) auto

lemma piece_of_511_fits:
  assumes env: "smooth env" and bs: "nul \<notin> set bs" "newline \<notin> set bs" "length bs = 511"
    and no: "char_device env \<Longrightarrow> take 19 bs \<noteq> ''AESDCHAR_IOCSEEKTO:''"
  shows "handle_client env api [Recv bs] d = None"
proof -
  have buf: "bs @ drop (length bs) (replicate 512 nul) = bs @ nul # []" using bs(3) by (simp add: numeral_eq_Suc)
  have absent: "memchr_checked (bs @ [nul]) newline 512 = returns None" using bs by (intro memchr_checked_absent) auto
  have "nul \<notin> set ''AESDCHAR_IOCSEEKTO:''" by simp
  from strncmp_strings [OF bs(1) this, of 19] obtain cmp where
    cmp: "(if char_device env then strncmp (bs @ [nul]) AESD_CHAR_IOCTL_CMD CMD_IDENTIFIER_LEN else returns (- 1)) = returns cmp"
    and "cmp \<noteq> 0"
    using no by (cases "char_device env") (auto simp: AESD_CHAR_IOCTL_CMD_def CMD_IDENTIFIER_LEN_def)
  then have "received env (length bs) (start_state\<lparr>recv_buf := bs @ nul # []\<rparr>) =
      returns (start_state\<lparr>recv_buf := bs @ nul # [], final_buffer := bs @ [nul],
        total_bytes_recv := of_nat (length bs), ioctl_cmd_found := cmp\<rparr>)"
    unfolding received_first [OF env bs(1)] absent by (simp add: Let_def)
  then have "receive_loop env [Recv bs] start_state = None"
    using buf by (simp add: receive_loop.simps [of env "[Recv bs]"] receive_loop.simps [of env "[]"])
  then show ?thesis using env by (simp add: handle_client_run)
qed

text \<open>
  A zero byte behind the newline makes the server write more bytes to the log than its
  buffer holds: the buffer is sized by the string's length, the write by the number of received
  bytes.
\<close>

theorem zero_byte_overruns_block:
  assumes "smooth env" and "nul \<notin> set ls" and "newline \<in> set ls" and "length (ls @ nul # x # xs) \<le> 512"
    and "char_device env \<Longrightarrow> take 19 ls \<noteq> ''AESDCHAR_IOCSEEKTO:''"
  shows "handle_client env api (Recv (ls @ nul # x # xs) # later) d = fails Out_Of_Bounds"
proof -
  let ?bs = "ls @ nul # x # xs"
  have l: "length ls < 512" using assms(4) by simp
  have r: "?bs @ drop (length ?bs) (replicate 512 nul) = ls @ nul # (x # xs @ drop (length ?bs) (replicate 512 nul))"
    by simp
  obtain cmp q where "receive_loop env (Recv ?bs # later) start_state =
      returns (start_state\<lparr>recv_buf := q, final_buffer := ls @ [nul],
        total_bytes_recv := of_nat (length ?bs), ioctl_cmd_found := cmp, more_bytes_to_read := False\<rparr>)"
    and "cmp \<noteq> 0"
    using receive_piece [OF assms(1-3) l r, of later] assms(5) by metis
  moreover have "unat (scast (of_nat (length ?bs) :: i32) :: u64) = length ?bs"
    using assms(4) by (intro total_value)
  ultimately show ?thesis
    using assms(1) by (simp add: handle_client_run)
qed

theorem zero_byte_overruns_block_witness:
  "handle_client calm_env byte_log [Recv (''a'' @ [newline, nul, CHR ''b''])] [] = fails Out_Of_Bounds"
  using zero_byte_overruns_block [OF calm_smooth, of "''a'' @ [newline]" "CHR ''b''" "[]" byte_log "[]" "[]"]
  by simp

end
