(* ===== verification/Socket_Device.thy ===== *)
theory Socket_Device
  imports Socket_Client Driver_Seek
begin

text \<open>
  The log file of the socket server when it is \<open>/dev/aesdchar\<close>: the operations of \<open>log_api\<close>
  in terms of the character driver's file operations, the proof that the driver keeps the contract
  \<open>line_log\<close>, and what a client of the whole system, server and driver together, sees.
\<close>

section \<open>The log file on the driver\<close>

text \<open>
  \<open>stdio\<close> keeps its buffer at one address of the server process and the argument of the seek
  command lies at another. Opening the file makes the driver store its device in a fresh file at
  position 0. What the server writes at a time fits into the buffer of \<open>stdio\<close>, so it is one \<open>write\<close>;
  that no signal interrupts the wait for the driver's mutex is assumed.
\<close>

definition stdio_buffer :: nat where
  "stdio_buffer = 4096"

definition fopen_aesdchar :: open_file where
  "fopen_aesdchar = snd (aesd_open \<lparr>private_data = False, f_pos = 0\<rparr>)"

definition le_bytes :: "u32 \<Rightarrow> byte list" where
  "le_bytes x = map (\<lambda>i. char_of (unat x div 256 ^ i mod 256)) [0..<4]"

definition aesdchar_append :: "kernel \<Rightarrow> byte list \<Rightarrow> kworld \<Rightarrow> kworld comp" where
  "aesdchar_append K bs w =
     (if bs = [] then returns w
      else bindC (aesd_write K False (Some fopen_aesdchar) stdio_buffer (of_nat (length bs)) 0
                    (w\<lparr>umem := user_store (umem w) stdio_buffer bs\<rparr>))
             (\<lambda>(r, pos, w'). returns w'))"

definition aesdchar_seek :: "kernel \<Rightarrow> u32 \<Rightarrow> u32 \<Rightarrow> kworld \<Rightarrow> (i64 \<times> kworld) comp" where
  "aesdchar_seek K c x w =
     bindC (aesd_ioctl K False (Some fopen_aesdchar) AESDCHAR_IOCSEEKTO 2048
              (w\<lparr>umem := user_store (umem w) 2048 (le_bytes c @ le_bytes x)\<rparr>))
       (\<lambda>(r, f, w'). returns (case f of None \<Rightarrow> 0 | Some f' \<Rightarrow> f_pos f', w'))"

text \<open>
  Reading to the end fills the buffer again and again until a read answers 0; a failed read is
  tried again, since \<open>feof\<close> does not report it.
\<close>

partial_function (option) read_all :: "kernel \<Rightarrow> i64 \<Rightarrow> kworld \<Rightarrow> (byte list \<times> kworld) comp" where
  "read_all K pos w =
     bindC (aesd_read K False (Some fopen_aesdchar) stdio_buffer 4096 pos w) (\<lambda>(r, pos', w').
       if r = 0 then returns ([], w')
       else if sint r < 0 then read_all K pos' w'
       else bindC (read_all K pos' w') (\<lambda>(bs, w'').
              returns (map (\<lambda>i. the (umem w' (stdio_buffer + i))) [0..<unat r] @ bs, w'')))"

declare read_all.simps [code]

definition aesdchar_log :: "kernel \<Rightarrow> kworld log_api" where
  "aesdchar_log K = \<lparr>log_append = aesdchar_append K, log_seek = aesdchar_seek K, log_rest = read_all K\<rparr>"

section \<open>The driver keeps the contract\<close>

text \<open>No command is unfinished.\<close>

definition idle :: "kworld \<Rightarrow> bool" where
  "idle w \<longleftrightarrow> dev_inv w \<and> working_intact (device w) \<and> pending (world_store w) = []"

lemma fopen_private [simp]: "private_data fopen_aesdchar"
  by (simp add: fopen_aesdchar_def aesd_open_def)

lemma idle_umem [simp]: "idle (w\<lparr>umem := m\<rparr>) = idle w"
  by (simp add: idle_def dev_inv_def)

lemma store_write_one_line:
  "newline \<notin> set ls \<Longrightarrow> pending (store_write (ls @ [newline]) s) = []"
  by (simp add: store_write_def memchr_append_newline)

lemma idle_after_loss:
  assumes "idle w"
  shows "idle (w\<lparr>device := (device w)\<lparr>working_entry := (working_entry (device w))\<lparr>buffptr := Null\<rparr>\<rparr>\<rparr>)"
proof -
  have inv: "storage_inv (device w) (heap w)" using assms by (simp add: idle_def dev_inv_def)
  have "length (block_of (heap w) (buffptr (working_entry (device w)))) = esize (working_entry (device w))"
    using inv assms by (intro working_block_length) (auto simp: storage_inv_def idle_def working_intact_def)
  then have "entry_size (working_entry (device w)) = 0"
    using assms by (simp add: idle_def store_of_def unat_eq_0)
  with assms lost_working_inv [OF inv] show ?thesis
    by (simp add: idle_def dev_inv_def working_intact_def store_of_def)
qed

lemma append_line:
  assumes laws: "kernel_laws K" and idle: "idle w" and ls: "newline \<notin> set ls" "length ls < 511"
  shows "\<exists>w'. aesdchar_append K (ls @ [newline]) w = returns w' \<and> idle w' \<and>
    (world_store w' = store_write (ls @ [newline]) (world_store w) \<or> world_store w' = world_store w)"
proof -
  let ?bs = "ls @ [newline]"
  let ?w = "w\<lparr>umem := user_store (umem w) stdio_buffer ?bs\<rparr>"
  have "dev_inv ?w" and intact: "working_intact (device w)" using idle by (simp_all add: idle_def dev_inv_def)
  have len: "unat (of_nat (length ?bs) :: u64) = length ?bs" using ls(2) by (intro unat_of_nat_u64) simp
  have run: "aesdchar_append K ?bs w =
      bindC (aesd_write K False (Some fopen_aesdchar) stdio_buffer (of_nat (length ?bs)) 0 ?w) (\<lambda>(r, pos, w'). returns w')"
    by (simp add: aesdchar_append_def)
  have idle': "idle ?w" using idle by simp
  from laws \<open>dev_inv ?w\<close> show ?thesis
  proof (cases rule: aesd_write_cases [where filp = "Some fopen_aesdchar" and buf = stdio_buffer
        and cnt = "of_nat (length ?bs)" and fpos = 0 and intr = False])
    case lost
    moreover have "world_store (?w\<lparr>device := (device ?w)\<lparr>working_entry := (working_entry (device ?w))
        \<lparr>buffptr := Null\<rparr>\<rparr>\<rparr>) = world_store w"
      using idle by (simp add: idle_def store_of_def)
    ultimately show ?thesis using idle_after_loss [OF idle'] by (simp add: run)
  next
    case (ok bs d' h')
    have "bs = ?bs"
      using ok(1,2) len user_bytes_unique [of "user_store (umem w) stdio_buffer ?bs" stdio_buffer bs ?bs] by simp
    with ok intact have st: "working_intact d' \<and> store_of d' h' = store_write ?bs (world_store w)" by simp
    with ok ls(1) show ?thesis
      unfolding run by (auto simp: idle_def dev_inv_def store_write_one_line)
  qed (use idle' in \<open>auto simp: run stdio_buffer_def\<close>)
qed

lemma stored_bytes:
  "map (\<lambda>i. the (user_store m u bs (u + i))) [0..<length bs] = bs"
  by (auto simp: user_store_def intro: nth_equalityI)

lemma read_all_rest:
  assumes laws: "kernel_laws K" and copies: "\<And>m u bs. fst (copy_to_user K m u bs) = 0"
  shows "dev_inv w \<Longrightarrow> \<exists>m. read_all K pos w =
    returns (drop (unat pos) (contents (world_store w)), w\<lparr>umem := m\<rparr>)"
proof (induction "length (contents (world_store w)) - unat pos" arbitrary: w pos rule: less_induct)
  case less
  have "stdio_buffer \<noteq> 0" "(4096 :: u64) \<noteq> 0" by (simp_all add: stdio_buffer_def)
  from laws less.prems fopen_private this copies show ?case
  proof (cases rule: aesd_read_step [where pos = pos])
    case eof
    then have "read_all K pos w = returns ([], w\<lparr>umem := umem w\<rparr>)" by (subst read_all.simps) simp
    with eof(1) show ?thesis by (auto intro!: exI [of _ "umem w"])
  next
    case (more n bs)
    let ?w = "w\<lparr>umem := user_store (umem w) stdio_buffer bs\<rparr>"
    have inv: "dev_inv ?w" using less.prems by (simp add: dev_inv_def)
    have "length (contents (world_store ?w)) - unat (pos + n) < length (contents (world_store w)) - unat pos"
      using more(1,2,6) by (cases bs) auto
    from less.hyps [OF this inv] obtain m where m: "read_all K (pos + n) ?w =
        returns (drop (unat (pos + n)) (contents (world_store ?w)), ?w\<lparr>umem := m\<rparr>)"
      by blast
    have "n \<noteq> 0" "\<not> sint n < 0" using more(4) by auto
    then have "read_all K pos w = returns (bs @ drop (unat (pos + n)) (contents (world_store w)), w\<lparr>umem := m\<rparr>)"
      using m more(7) stored_bytes [of "umem w" stdio_buffer bs] more(3)
      by (subst read_all.simps) simp
    with more(5) show ?thesis by auto
  qed
qed

text \<open>
  Read errors cannot happen when every copy to the process succeeds, which is what makes the
  reading loop end.
\<close>

definition copying :: "kernel \<Rightarrow> bool" where
  "copying K \<longleftrightarrow> kernel_laws K \<and> (\<forall>m u bs. fst (copy_to_user K m u bs) = 0)"

text \<open>The contract holds on every kernel of that kind; a kernel that is not one is replaced by one.\<close>

definition some_copying :: "kernel \<Rightarrow> kernel" where
  "some_copying K = (if copying K then K else copying_kernel)"

lemma copying_some: "copying (some_copying K)"
  by (simp add: some_copying_def copying_def copying_kernel_laws) (simp add: copying_kernel_def)

interpretation aesdchar: line_log "aesdchar_log (some_copying K)" idle world_store store_write contents
proof unfold_locales
  have laws: "kernel_laws (some_copying K)" and copies: "\<And>m u bs. fst (copy_to_user (some_copying K) m u bs) = 0"
    using copying_some [of K] by (simp_all add: copying_def)
  show "\<exists>d'. log_append (aesdchar_log (some_copying K)) (ls @ [newline]) d = returns d' \<and> idle d' \<and>
      (world_store d' = store_write (ls @ [newline]) (world_store d) \<or> world_store d' = world_store d)"
    if "idle d" "newline \<notin> set ls" "length ls < 511" for d ls
    using append_line [OF laws that] by (simp add: aesdchar_log_def)
  show "\<exists>d'. log_rest (aesdchar_log (some_copying K)) pos d =
      returns (drop (unat pos) (contents (world_store d)), d') \<and> idle d' \<and> world_store d' = world_store d"
    if "idle d" for d pos
    using read_all_rest [OF laws copies, of d pos] that
    by (auto simp: aesdchar_log_def) (auto simp: idle_def dev_inv_def)
qed

section \<open>The seek command through the server\<close>

lemma of_char_of_nat: "of_char (char_of (n :: nat)) = n mod 256"
  by simp

lemma base_256_digits:
  fixes n :: nat
  assumes "n < 2 ^ 32"
  shows "n mod 256 + 256 * (n div 256 mod 256 + 256 * (n div 256 div 256 mod 256 +
    256 * (n div 256 div 256 div 256 mod 256))) = n"
proof -
  have "n div 256 div 256 div 256 < 256"
    using assms by (simp add: less_mult_imp_div_less flip: div_mult2_eq)
  then show ?thesis
    using mod_mult_div_eq [of n 256] mod_mult_div_eq [of "n div 256" 256] mod_mult_div_eq [of "n div 256 div 256" 256]
    by simp
qed

lemma le32_le_bytes: "le32 (le_bytes x) = x"
proof -
  let ?n = "unat x"
  have n: "?n < 2 ^ 32" using unsigned_less [of x] by simp
  have "le_bytes x = [char_of (?n mod 256), char_of (?n div 256 mod 256), char_of (?n div 256 div 256 mod 256),
      char_of (?n div 256 div 256 div 256 mod 256)]"
    by (simp add: le_bytes_def upt_rec flip: div_mult2_eq)
  then have "le32 (le_bytes x) = word_of_nat (?n mod 256) + 256 * (word_of_nat (?n div 256 mod 256) +
      256 * (word_of_nat (?n div 256 div 256 mod 256) + 256 * word_of_nat (?n div 256 div 256 div 256 mod 256)))"
    by (simp add: le32_def)
  also have "\<dots> = word_of_nat (?n mod 256 + 256 * (?n div 256 mod 256 +
      256 * (?n div 256 div 256 mod 256 + 256 * (?n div 256 div 256 div 256 mod 256))))"
    by (simp only: of_nat_add of_nat_mult of_nat_numeral)
  also have "\<dots> = x" unfolding base_256_digits [OF n] by simp
  finally show ?thesis .
qed

lemma length_le_bytes [simp]: "length (le_bytes x) = 4"
  by (simp add: le_bytes_def)

lemma seekto_le_bytes:
  "seekto_of_bytes (le_bytes c @ le_bytes x) = \<lparr>write_cmd = c, write_cmd_offset = x\<rparr>"
  by (simp add: seekto_of_bytes_def le32_le_bytes)

text \<open>Copying from accessible memory of the process succeeds.\<close>

definition copying_in :: "kernel \<Rightarrow> bool" where
  "copying_in K \<longleftrightarrow> (\<forall>m u n. (\<forall>i < unat n. m (u + i) \<noteq> None) \<longrightarrow> fst (copy_from_user K m u n) = 0)"

lemma copying_in_bytes:
  assumes "copying_in K" and "kernel_laws K" and "length bs = unat n"
  shows "copy_from_user K (user_store m u bs) u n = (0, bs)"
proof -
  obtain left cs where c: "copy_from_user K (user_store m u bs) u n = (left, cs)" by fastforce
  have "\<forall>i < unat n. user_store m u bs (u + i) \<noteq> None" using assms(3) by (simp add: user_store_def)
  with assms(1) have "fst (copy_from_user K (user_store m u bs) u n) = 0" unfolding copying_in_def by blast
  with c have "left = 0" by simp
  with copy_from_user_law [OF assms(2) c] have "length cs = unat n" "user_bytes (user_store m u bs) u cs" by simp_all
  then have "cs = bs" using user_bytes_unique [of _ u cs bs] assms(3) by simp
  with c \<open>left = 0\<close> show ?thesis by simp
qed

lemma aesdchar_seek_run:
  assumes laws: "kernel_laws K" and "copying_in K" and inv: "dev_inv w" and out: "out_offs (buffer (device w)) = 0"
    and c: "unat c < length (commands (world_store w))" and x: "unat x < length (commands (world_store w) ! unat c)"
  shows "\<exists>p m. aesdchar_seek K c x w = returns (p, w\<lparr>umem := m\<rparr>) \<and>
    unat p = sum_list (map length (take (unat c) (commands (world_store w)))) + unat x"
proof -
  let ?m = "user_store (umem w) 2048 (le_bytes c @ le_bytes x)"
  let ?w = "w\<lparr>umem := ?m\<rparr>"
  have inv': "dev_inv ?w" and out': "out_offs (buffer (device ?w)) = 0" using inv out by (simp_all add: dev_inv_def)
  have copied: "copy_from_user K (umem ?w) (unat (2048 :: u64)) 8 = (0, le_bytes c @ le_bytes x)"
    using copying_in_bytes [OF assms(2) laws, of "le_bytes c @ le_bytes x" 8 "umem w" 2048] by simp
  have "length (commands (world_store w)) \<le> 10" using inv by (intro commands_bound) (simp add: dev_inv_def)
  with c have "unat c \<noteq> 10" by simp
  with ioctl_seek_run [OF inv' fopen_private out' copied] c x
  obtain p where "aesd_ioctl K False (Some fopen_aesdchar) AESDCHAR_IOCSEEKTO 2048 ?w =
      returns (0, Some (fopen_aesdchar\<lparr>f_pos := p\<rparr>), ?w)"
    "unat p = sum_list (map length (take (unat c) (commands (world_store w)))) + unat x"
    by (auto simp: seekto_le_bytes)
  then show ?thesis by (auto simp: aesdchar_seek_def)
qed

text \<open>A fresh device and a kernel as required.\<close>

lemma fresh_idle: "idle (fresh_world bs)"
  using fresh_inv [of bs] fresh_intact [of bs]
  by (simp add: idle_def) (simp add: fresh_world_def zero_device_store)

lemma copying_copying_kernel: "copying copying_kernel"
  by (simp add: copying_def copying_kernel_laws) (simp add: copying_kernel_def)

end
