(* ===== verification/Slist.thy ===== *)
theory Slist
  imports Prelude
begin

text \<open>
  The singly-linked list macros of \<open>server/queue.h\<close>, on a heap of nodes whose first field is the
  link \<open>sle_next\<close>. Every access is checked: following \<open>NULL\<close> or a freed node is a fault. The
  abstraction is the list of node addresses; the locale \<open>node_list\<close> is what a client may rely on,
  interpreted here on the macros, and \<open>swept_list\<close> is the contract of a loop that visits a list
  and removes some of its nodes on the way.
\<close>

section \<open>Nodes\<close>

record slist_node =
  sle_next :: ptr

type_synonym 'a node_heap = "nat \<Rightarrow> 'a slist_node_scheme option"

definition sle_get :: "'a node_heap \<Rightarrow> ptr \<Rightarrow> ptr comp" where
  "sle_get h p = (case p of
      Ptr a \<Rightarrow> (case h a of None \<Rightarrow> fails Use_After_Free | Some n \<Rightarrow> returns (sle_next n))
    | _ \<Rightarrow> fails Null_Deref)"

definition sle_set :: "'a node_heap \<Rightarrow> ptr \<Rightarrow> ptr \<Rightarrow> 'a node_heap comp" where
  "sle_set h p q = (case p of
      Ptr a \<Rightarrow> (case h a of None \<Rightarrow> fails Use_After_Free
                         | Some n \<Rightarrow> returns (h(a \<mapsto> n\<lparr>sle_next := q\<rparr>)))
    | _ \<Rightarrow> fails Null_Deref)"

section \<open>The macros\<close>

text \<open>A list head is the pointer \<open>slh_first\<close>.\<close>

definition SLIST_END :: ptr where
  "SLIST_END = Null"

definition SLIST_INIT :: ptr where
  "SLIST_INIT = SLIST_END"

definition SLIST_FIRST :: "ptr \<Rightarrow> ptr" where
  "SLIST_FIRST head = head"

definition SLIST_NEXT :: "'a node_heap \<Rightarrow> ptr \<Rightarrow> ptr comp" where
  "SLIST_NEXT h elm = sle_get h elm"

definition SLIST_EMPTY :: "ptr \<Rightarrow> bool" where
  "SLIST_EMPTY head \<longleftrightarrow> head = SLIST_END"

definition SLIST_INSERT_HEAD :: "ptr \<Rightarrow> 'a node_heap \<Rightarrow> ptr \<Rightarrow> (ptr \<times> 'a node_heap) comp" where
  "SLIST_INSERT_HEAD head h elm = bindC (sle_set h elm head) (\<lambda>h'. returns (elm, h'))"

definition SLIST_INSERT_AFTER :: "'a node_heap \<Rightarrow> ptr \<Rightarrow> ptr \<Rightarrow> 'a node_heap comp" where
  "SLIST_INSERT_AFTER h slistelm elm =
     bindC (sle_get h slistelm) (\<lambda>n. bindC (sle_set h elm n) (\<lambda>h'. sle_set h' slistelm elm))"

definition SLIST_REMOVE_HEAD :: "ptr \<Rightarrow> 'a node_heap \<Rightarrow> ptr comp" where
  "SLIST_REMOVE_HEAD head h = sle_get h head"

definition SLIST_REMOVE_AFTER :: "'a node_heap \<Rightarrow> ptr \<Rightarrow> 'a node_heap comp" where
  "SLIST_REMOVE_AFTER h slistelm =
     bindC (SLIST_NEXT h slistelm) (\<lambda>n. bindC (SLIST_NEXT h n) (\<lambda>m. sle_set h slistelm m))"

text \<open>
  The loop of \<open>SLIST_REMOVE\<close> that finds the predecessor. It does not test for the end of the
  list: without the element it runs into \<open>NULL\<close>, and in a cyclic list it does not end.
\<close>

partial_function (option) find_pred :: "'a node_heap \<Rightarrow> ptr \<Rightarrow> ptr \<Rightarrow> ptr comp" where
  "find_pred h curelm elm =
     bindC (sle_get h curelm) (\<lambda>n. if n \<noteq> elm then find_pred h n elm else returns curelm)"

declare find_pred.simps [code]

definition SLIST_REMOVE :: "ptr \<Rightarrow> 'a node_heap \<Rightarrow> ptr \<Rightarrow> (ptr \<times> 'a node_heap) comp" where
  "SLIST_REMOVE head h elm =
     (if head = elm then bindC (SLIST_REMOVE_HEAD head h) (\<lambda>head'. returns (head', h))
      else bindC (find_pred h head elm) (\<lambda>curelm.
           bindC (sle_get h curelm) (\<lambda>n.
           bindC (sle_get h n) (\<lambda>m.
           bindC (sle_set h curelm m) (\<lambda>h'. returns (head, h'))))))"

definition SLIST_SWAP :: "ptr \<times> ptr \<Rightarrow> ptr \<times> ptr" where
  "SLIST_SWAP heads = (SLIST_FIRST (snd heads), SLIST_FIRST (fst heads))"

text \<open>
  The two loops over a list, on any state from which the links can be read. The plain one reads a
  node's link after the body has run, the safe one before.
\<close>

partial_function (option) SLIST_FOREACH ::
  "('s \<Rightarrow> ptr \<Rightarrow> ptr comp) \<Rightarrow> ('s \<Rightarrow> ptr \<Rightarrow> 's comp) \<Rightarrow> ptr \<Rightarrow> 's \<Rightarrow> 's comp" where
  "SLIST_FOREACH nxt body var s =
     (if var = Null then returns s
      else bindC (body s var) (\<lambda>s'. bindC (nxt s' var) (\<lambda>n. SLIST_FOREACH nxt body n s')))"

partial_function (option) SLIST_FOREACH_SAFE ::
  "('s \<Rightarrow> ptr \<Rightarrow> ptr comp) \<Rightarrow> ('s \<Rightarrow> ptr \<Rightarrow> 's comp) \<Rightarrow> ptr \<Rightarrow> 's \<Rightarrow> 's comp" where
  "SLIST_FOREACH_SAFE nxt body var s =
     (if var = Null then returns s
      else bindC (nxt s var) (\<lambda>tvar. bindC (body s var) (\<lambda>s'. SLIST_FOREACH_SAFE nxt body tvar s')))"

declare SLIST_FOREACH.simps [code] SLIST_FOREACH_SAFE.simps [code]

section \<open>The abstraction\<close>

fun slist :: "'a node_heap \<Rightarrow> ptr \<Rightarrow> nat list \<Rightarrow> bool" where
  "slist h p [] \<longleftrightarrow> p = Null"
| "slist h p (a # as) \<longleftrightarrow> p = Ptr a \<and> (\<exists>n. h a = Some n \<and> slist h (sle_next n) as)"

lemma slist_first: "slist h p xs \<Longrightarrow> p = first_of xs"
  by (cases xs) auto

lemma slist_unique: "slist h p xs \<Longrightarrow> slist h p ys \<Longrightarrow> xs = ys"
proof (induction xs arbitrary: p ys)
  case Nil
  then show ?case by (cases ys) auto
next
  case (Cons a xs)
  then show ?case by (cases ys) auto
qed

lemma slist_suffix: "slist h p (xs @ ys) \<Longrightarrow> slist h (first_of ys) ys"
  by (induction xs arbitrary: p) (auto dest: slist_first)

lemma slist_distinct: "slist h p xs \<Longrightarrow> distinct xs"
proof (induction xs arbitrary: p)
  case (Cons a xs)
  have "a \<notin> set xs"
  proof
    assume "a \<in> set xs"
    then obtain ys zs where xs: "xs = ys @ a # zs" by (meson split_list)
    have "slist h (Ptr a) (a # zs)"
      using slist_suffix [of h p "a # ys" "a # zs"] Cons.prems xs by simp
    moreover have "slist h (Ptr a) (a # ys @ a # zs)" using Cons.prems xs by simp
    ultimately have "a # zs = a # ys @ a # zs" by (rule slist_unique)
    then show False by simp
  qed
  with Cons show ?case by auto
qed simp

lemma slist_frame: "a \<notin> set xs \<Longrightarrow> slist (h(a := x)) p xs = slist h p xs"
  by (induction xs arbitrary: p) auto

lemma slist_live: "slist h p xs \<Longrightarrow> a \<in> set xs \<Longrightarrow> h a \<noteq> None"
  by (induction xs arbitrary: p) auto

lemma slist_nextI:
  assumes "slist h p (xs @ a # ys)"
  shows "sle_get h (Ptr a) = returns (first_of ys)"
  using slist_suffix [OF assms] by (auto simp: sle_get_def dest: slist_first)

text \<open>Changing one link: the part of the list before the node is kept, what follows it is replaced.\<close>

lemma slist_relink:
  "slist h p (xs @ a # ys) \<Longrightarrow> slist h (first_of zs) zs \<Longrightarrow> a \<notin> set zs \<Longrightarrow>
   \<exists>h'. sle_set h (Ptr a) (first_of zs) = returns h' \<and> slist h' p (xs @ a # zs) \<and>
     (\<exists>n. h a = Some n \<and> h' = h(a \<mapsto> n\<lparr>sle_next := first_of zs\<rparr>))"
proof (induction xs arbitrary: p)
  case Nil
  then show ?case by (auto simp: sle_set_def slist_frame)
next
  case (Cons b xs)
  have "b \<noteq> a" using slist_distinct [OF Cons.prems(1)] by auto
  with Cons show ?case by fastforce
qed

lemma find_pred_found:
  "slist h p (xs @ b # e # ys) \<Longrightarrow> find_pred h p (Ptr e) = returns (Ptr b)"
proof (induction xs arbitrary: p)
  case Nil
  then have p: "p = Ptr b" by simp
  then show ?case
    using Nil slist_nextI [of h p "[]" b "e # ys"] by (subst find_pred.simps) simp
next
  case (Cons a xs)
  have p: "p = Ptr a" using Cons.prems by simp
  have "first_of (xs @ b # e # ys) \<noteq> Ptr e"
    using slist_distinct [OF Cons.prems] by (cases xs) auto
  moreover have "slist h (first_of (xs @ b # e # ys)) (xs @ b # e # ys)"
    using Cons.prems slist_suffix [of h p "[a]" "xs @ b # e # ys"] by simp
  moreover have "sle_get h p = returns (first_of (xs @ b # e # ys))"
    using Cons.prems slist_nextI [of h p "[]" a "xs @ b # e # ys"] p by simp
  ultimately show ?case using Cons.IH by (subst find_pred.simps) simp
qed

lemma find_pred_missing:
  "slist h p xs \<Longrightarrow> e \<notin> set (tl xs) \<Longrightarrow> find_pred h p (Ptr e) = fails Null_Deref"
proof (induction xs arbitrary: p)
  case Nil
  then show ?case by (subst find_pred.simps) (simp add: sle_get_def)
next
  case (Cons a xs)
  have get: "sle_get h p = returns (first_of xs)"
    using Cons.prems slist_nextI [of h p "[]" a xs] by auto
  have rest: "slist h (first_of xs) xs"
    using Cons.prems slist_suffix [of h p "[a]" xs] by simp
  have "first_of xs \<noteq> Ptr e" "e \<notin> set (tl xs)"
    using Cons.prems(2) by (cases xs; auto)+
  with get Cons.IH [OF rest] show ?case by (subst find_pred.simps) simp
qed

section \<open>The operations on the abstraction\<close>

text \<open>What the nodes hold beside their links.\<close>

definition node_data :: "'a node_heap \<Rightarrow> nat \<Rightarrow> 'a slist_node_scheme option" where
  "node_data h a = map_option (\<lambda>n. n\<lparr>sle_next := Null\<rparr>) (h a)"

lemma node_data_relink:
  "h a = Some n \<Longrightarrow> node_data (h(a \<mapsto> n\<lparr>sle_next := p\<rparr>)) = node_data h"
  by (rule ext) (simp add: node_data_def)

lemma insert_head_ok:
  assumes "slist h p xs" and "h a = Some n" and "a \<notin> set xs"
  shows "\<exists>h'. SLIST_INSERT_HEAD p h (Ptr a) = returns (Ptr a, h') \<and> slist h' (Ptr a) (a # xs) \<and>
    node_data h' = node_data h"
  using assms by (auto simp: SLIST_INSERT_HEAD_def sle_set_def slist_frame node_data_relink)

lemma remove_ok:
  assumes l: "slist h p (xs @ e # ys)"
  shows "\<exists>p' h'. SLIST_REMOVE p h (Ptr e) = returns (p', h') \<and> slist h' p' (xs @ ys) \<and>
    node_data h' = node_data h"
proof (cases xs rule: rev_cases)
  case Nil
  with l slist_nextI [of h p "[]" e ys] slist_suffix [of h p "[e]" ys] show ?thesis
    by (auto simp: SLIST_REMOVE_def SLIST_REMOVE_HEAD_def)
next
  case (snoc zs b)
  then have l': "slist h p (zs @ b # e # ys)" using l by simp
  have dist: "distinct (zs @ b # e # ys)" using l' by (rule slist_distinct)
  have "p \<noteq> Ptr e" using slist_first [OF l'] dist by (cases zs) auto
  moreover have "sle_get h (Ptr b) = returns (Ptr e)" using slist_nextI [OF l'] by simp
  moreover have "sle_get h (Ptr e) = returns (first_of ys)" using slist_nextI [of h p "zs @ [b]" e ys] l' by simp
  moreover have "slist h (first_of ys) ys" using slist_suffix [of h p "zs @ [b, e]" ys] l' by simp
  moreover from this obtain h' n where "sle_set h (Ptr b) (first_of ys) = returns h'" "slist h' p (zs @ b # ys)"
    "h b = Some n" "h' = h(b \<mapsto> n\<lparr>sle_next := first_of ys\<rparr>)"
    using slist_relink [OF l', of ys] dist by auto
  ultimately show ?thesis
    using find_pred_found [OF l'] snoc
    by (simp add: SLIST_REMOVE_def node_data_relink)
qed

lemma remove_head_ok:
  assumes "slist h p (e # ys)"
  shows "\<exists>p'. SLIST_REMOVE_HEAD p h = returns p' \<and> slist h p' ys"
  using assms by (auto simp: SLIST_REMOVE_HEAD_def sle_get_def)

section \<open>The interface\<close>

text \<open>
  A list of nodes in a heap, with the address of its first node: \<open>rep h p xs\<close> says that the list
  that starts at \<open>p\<close> consists of the nodes \<open>xs\<close>, \<open>rest\<close> is what the nodes hold beside their
  links, which no operation touches.
\<close>

locale node_list =
  fixes rep :: "'h \<Rightarrow> ptr \<Rightarrow> nat list \<Rightarrow> bool"
    and insert_head :: "ptr \<Rightarrow> 'h \<Rightarrow> ptr \<Rightarrow> (ptr \<times> 'h) comp"
    and remove :: "ptr \<Rightarrow> 'h \<Rightarrow> ptr \<Rightarrow> (ptr \<times> 'h) comp"
    and remove_head :: "ptr \<Rightarrow> 'h \<Rightarrow> ptr comp"
    and rest :: "'h \<Rightarrow> nat \<Rightarrow> 'd option"
  assumes empty: "rep h Null []"
    and nodes_distinct: "rep h p xs \<Longrightarrow> distinct xs"
    and start: "rep h p xs \<Longrightarrow> p = first_of xs"
    and insert_ok: "rep h p xs \<Longrightarrow> rest h a \<noteq> None \<Longrightarrow> a \<notin> set xs \<Longrightarrow>
      \<exists>p' h'. insert_head p h (Ptr a) = returns (p', h') \<and> rep h' p' (a # xs) \<and> rest h' = rest h"
    and remove_at: "rep h p (xs @ e # ys) \<Longrightarrow>
      \<exists>p' h'. remove p h (Ptr e) = returns (p', h') \<and> rep h' p' (xs @ ys) \<and> rest h' = rest h"
    and head_ok: "rep h p (e # ys) \<Longrightarrow> \<exists>p'. remove_head p h = returns p' \<and> rep h p' ys"
begin

lemma remove_member:
  assumes "rep h p xs" and "e \<in> set xs"
  shows "\<exists>p' h'. remove p h (Ptr e) = returns (p', h') \<and> rep h' p' (remove1 e xs) \<and> rest h' = rest h"
proof -
  obtain as bs where xs: "xs = as @ e # bs" using assms(2) by (meson split_list)
  then have "remove1 e xs = as @ bs" using nodes_distinct [OF assms(1)] by (simp add: remove1_append)
  with remove_at [of h p as e bs] assms(1) xs show ?thesis by simp
qed

lemma insert_then_remove:
  assumes "rep h p xs" and "rest h a \<noteq> None" and "a \<notin> set xs"
  shows "\<exists>p' h' p'' h''. insert_head p h (Ptr a) = returns (p', h') \<and>
    remove p' h' (Ptr a) = returns (p'', h'') \<and> rep h'' p'' xs \<and> rest h'' = rest h"
  using insert_ok [OF assms] remove_at [of _ _ "[]" a xs] by fastforce

end

interpretation slist: node_list slist SLIST_INSERT_HEAD SLIST_REMOVE SLIST_REMOVE_HEAD node_data
proof unfold_locales
  show "slist h p xs \<Longrightarrow> node_data h a \<noteq> None \<Longrightarrow> a \<notin> set xs \<Longrightarrow>
      \<exists>p' h'. SLIST_INSERT_HEAD p h (Ptr a) = returns (p', h') \<and> slist h' p' (a # xs) \<and> node_data h' = node_data h"
    for h :: "'a node_heap" and p xs a
    using insert_head_ok [of h p xs a] by (auto simp: node_data_def)
  show "slist h p (e # ys) \<Longrightarrow> \<exists>p'. SLIST_REMOVE_HEAD p h = returns p' \<and> slist h p' ys"
    for h :: "'a node_heap" and p e ys
    by (rule remove_head_ok)
qed (auto intro: slist_distinct slist_first remove_ok)

text \<open>
  A loop over a list that may remove the node it visits. \<open>nodes s\<close> is the present list, \<open>keep s\<close>
  which nodes stay.
\<close>

locale swept_list =
  fixes inv :: "'s \<Rightarrow> nat list \<Rightarrow> bool"
    and nxt :: "'s \<Rightarrow> ptr \<Rightarrow> ptr comp"
    and visit :: "'s \<Rightarrow> ptr \<Rightarrow> 's comp"
    and keep :: "'s \<Rightarrow> nat \<Rightarrow> bool"
  assumes nxt_ok: "inv s (xs @ a # ys) \<Longrightarrow> nxt s (Ptr a) = returns (first_of ys)"
    and visit_ok: "inv s (xs @ a # ys) \<Longrightarrow> \<exists>s'. visit s (Ptr a) = returns s' \<and>
      inv s' (if keep s a then xs @ a # ys else xs @ ys) \<and> (\<forall>b \<in> set ys. keep s' b = keep s b)"
begin

lemma sweep_from:
  "inv s (xs @ ys) \<Longrightarrow> \<exists>s'. SLIST_FOREACH_SAFE nxt visit (first_of ys) s = returns s' \<and>
     inv s' (xs @ filter (keep s) ys)"
proof (induction ys arbitrary: s xs)
  case Nil
  then show ?case by (subst SLIST_FOREACH_SAFE.simps) simp
next
  case (Cons a ys)
  obtain s1 where s1: "visit s (Ptr a) = returns s1" "inv s1 (if keep s a then xs @ a # ys else xs @ ys)"
    "\<forall>b \<in> set ys. keep s1 b = keep s b"
    using visit_ok [OF Cons.prems] by blast
  let ?xs = "if keep s a then xs @ [a] else xs"
  have "inv s1 (?xs @ ys)" using s1(2) by (auto split: if_splits)
  from Cons.IH [OF this] obtain s' where
    "SLIST_FOREACH_SAFE nxt visit (first_of ys) s1 = returns s'" "inv s' (?xs @ filter (keep s1) ys)"
    by blast
  moreover have "filter (keep s1) ys = filter (keep s) ys" using s1(3) by (simp cong: filter_cong)
  ultimately show ?case
    using nxt_ok [OF Cons.prems] s1(1) by (subst SLIST_FOREACH_SAFE.simps) (auto split: if_splits)
qed

lemma sweep:
  "inv s xs \<Longrightarrow> \<exists>s'. SLIST_FOREACH_SAFE nxt visit (first_of xs) s = returns s' \<and> inv s' (filter (keep s) xs)"
  using sweep_from [of s "[]" xs] by simp

end

section \<open>The other operations\<close>

lemma insert_after_ok:
  assumes l: "slist h p (xs @ a # ys)" and b: "h b = Some n" "b \<notin> set (xs @ a # ys)"
  shows "\<exists>h'. SLIST_INSERT_AFTER h (Ptr a) (Ptr b) = returns h' \<and> slist h' p (xs @ a # b # ys) \<and>
    node_data h' = node_data h"
proof -
  let ?h = "h(b \<mapsto> n\<lparr>sle_next := first_of ys\<rparr>)"
  have "sle_get h (Ptr a) = returns (first_of ys)" "sle_set h (Ptr b) (first_of ys) = returns ?h"
    using slist_nextI [OF l] b(1) by (simp_all add: sle_set_def)
  moreover have l': "slist ?h p (xs @ a # ys)" using l b(2) by (simp add: slist_frame)
  moreover have "slist ?h (first_of (b # ys)) (b # ys)"
    using slist_suffix [of h p "xs @ [a]" ys] l b(2) by (simp add: slist_frame)
  moreover have "a \<notin> set (b # ys)" using slist_distinct [OF l] b(2) by auto
  ultimately show ?thesis
    using slist_relink [of ?h p xs a ys "b # ys"] b(1)
    by (auto simp: SLIST_INSERT_AFTER_def node_data_relink split: if_splits)
qed

lemma remove_after_ok:
  assumes l: "slist h p (xs @ a # b # ys)"
  shows "\<exists>h'. SLIST_REMOVE_AFTER h (Ptr a) = returns h' \<and> slist h' p (xs @ a # ys) \<and>
    node_data h' = node_data h"
proof -
  have "sle_get h (Ptr a) = returns (Ptr b)" "sle_get h (Ptr b) = returns (first_of ys)"
    using slist_nextI [OF l] slist_nextI [of h p "xs @ [a]" b ys] l by simp_all
  moreover have "slist h (first_of ys) ys" "a \<notin> set ys"
    using slist_suffix [of h p "xs @ [a, b]" ys] l slist_distinct [OF l] by auto
  ultimately show ?thesis
    using slist_relink [OF l, of ys] by (auto simp: SLIST_REMOVE_AFTER_def SLIST_NEXT_def node_data_relink)
qed

lemma foreach_foldC:
  "slist h p xs \<Longrightarrow> SLIST_FOREACH (\<lambda>s. SLIST_NEXT h) body p s = foldC body s (map Ptr xs)"
proof (induction xs arbitrary: p s)
  case Nil
  then show ?case by (subst SLIST_FOREACH.simps) simp
next
  case (Cons a xs)
  then have p: "p = Ptr a" and get: "SLIST_NEXT h (Ptr a) = returns (first_of xs)"
    using slist_nextI [of h p "[]" a xs] by (auto simp: SLIST_NEXT_def)
  have "slist h (first_of xs) xs" using slist_suffix [of h p "[a]" xs] Cons.prems by simp
  with Cons.IH get p show ?case by (subst SLIST_FOREACH.simps) (simp cong: bindC_cong)
qed

section \<open>Properties\<close>

text \<open>Nodes 1, 2 and 3 in a list, node 4 allocated.\<close>

definition three_nodes :: "unit node_heap" where
  "three_nodes = [1 \<mapsto> \<lparr>sle_next = Ptr 2\<rparr>, 2 \<mapsto> \<lparr>sle_next = Ptr 3\<rparr>, 3 \<mapsto> \<lparr>sle_next = Null\<rparr>, 4 \<mapsto> \<lparr>sle_next = Null\<rparr>]"

lemma three_nodes_list: "slist three_nodes (Ptr 1) [1, 2, 3]"
  by (simp add: three_nodes_def)

text \<open>
  C33: Removing a member of a list, wherever it stands, always comes to an end without touching
  a freed node; afterwards exactly that node is gone from the list, the order of the others is
  kept, and nothing but links has changed in any node.
\<close>

theorem slist_remove_correct:
  assumes "slist h p xs" and "e \<in> set xs"
  shows "\<exists>p' h'. SLIST_REMOVE p h (Ptr e) = returns (p', h') \<and> slist h' p' (remove1 e xs) \<and> node_data h' = node_data h"
  using assms by (rule slist.remove_member)

theorem slist_remove_correct_witness:
  "\<exists>p' h'. SLIST_REMOVE (Ptr 1) three_nodes (Ptr 2) = returns (p', h') \<and> slist h' p' [1, 3]"
  using slist_remove_correct [OF three_nodes_list, of 2] by auto

text \<open>
  Removing a node that is not in the list does not fail gracefully: the search runs over the
  end of the list and follows \<open>NULL\<close>.
\<close>

theorem slist_remove_missing:
  assumes "slist h p xs" and "e \<notin> set xs"
  shows "SLIST_REMOVE p h (Ptr e) = fails Null_Deref"
proof -
  have "p \<noteq> Ptr e" using slist_first [OF assms(1)] assms(2) by (cases xs) auto
  moreover have "e \<notin> set (tl xs)" using assms(2) by (cases xs) auto
  ultimately show ?thesis using find_pred_missing [OF assms(1)] by (simp add: SLIST_REMOVE_def)
qed

theorem slist_remove_missing_witness:
  "SLIST_REMOVE (Ptr 1) three_nodes (Ptr 4) = fails Null_Deref"
  using slist_remove_missing [OF three_nodes_list, of 4] by simp

text \<open>
  Inserting an allocated node behind a member and removing what follows that member again
  gives back the same list, with the inserted node in the right place in between.
\<close>

theorem slist_insert_remove_after:
  assumes "slist h p (xs @ a # ys)" and "h b \<noteq> None" and "b \<notin> set (xs @ a # ys)"
  shows "\<exists>h1 h2. SLIST_INSERT_AFTER h (Ptr a) (Ptr b) = returns h1 \<and> slist h1 p (xs @ a # b # ys) \<and>
    SLIST_REMOVE_AFTER h1 (Ptr a) = returns h2 \<and> slist h2 p (xs @ a # ys) \<and> node_data h2 = node_data h"
proof -
  obtain h1 where h1: "SLIST_INSERT_AFTER h (Ptr a) (Ptr b) = returns h1" "slist h1 p (xs @ a # b # ys)"
    "node_data h1 = node_data h"
    using insert_after_ok [OF assms(1) _ assms(3)] assms(2) by auto
  with remove_after_ok [OF h1(2)] show ?thesis by auto
qed

theorem slist_insert_remove_after_witness:
  "\<exists>h1. SLIST_INSERT_AFTER three_nodes (Ptr 2) (Ptr 4) = returns h1 \<and> slist h1 (Ptr 1) [1, 2, 4, 3]"
proof -
  have "slist three_nodes (Ptr 1) ([1] @ 2 # [3])" using three_nodes_list by simp
  from slist_insert_remove_after [OF this, of 4] show ?thesis by (auto simp: three_nodes_def)
qed

end
