(* ===== verification/Socket_Timestamp.thy ===== *)
theory Socket_Timestamp
  imports Socket_Client
begin

text \<open>
  The time stamps of the server built without the character device: \<open>print_timestamp\<close> of
  \<open>server/aesdsocket.c\<close> with the C library's \<open>strftime\<close> on its format, and what its lines look like.
\<close>

section \<open>Formatting the time\<close>

text \<open>
  \<open>localtime\<close> fills a \<open>struct tm\<close>, and \<open>strftime\<close> prints it by the format
  \<open>timestamp: %Y, %m, %d, %H, %M, %S\<close>: the year in full, the other fields with at least two
  digits. It answers 0, here the empty text, when the text and its terminator do not fit.
\<close>

record tm =
  tm_sec :: i32
  tm_min :: i32
  tm_hour :: i32
  tm_mday :: i32
  tm_mon :: i32
  tm_year :: i32

fun dec_digits :: "nat \<Rightarrow> byte list" where
  "dec_digits n = (if n < 10 then [char_of (48 + n)] else dec_digits (n div 10) @ [char_of (48 + n mod 10)])"

declare dec_digits.simps [simp del]

definition padded :: "nat \<Rightarrow> int \<Rightarrow> byte list" where
  "padded w i =
     (let ds = dec_digits (nat \<bar>i\<bar>); sign = (if i < 0 then ''-'' else [])
      in sign @ replicate (w - length sign - length ds) (CHR ''0'') @ ds)"

definition strftime :: "nat \<Rightarrow> tm \<Rightarrow> byte list" where
  "strftime room t =
     (let out = ''timestamp: '' @ padded 1 (sint (tm_year t) + 1900) @ '', '' @ padded 2 (sint (tm_mon t) + 1) @
            '', '' @ padded 2 (sint (tm_mday t)) @ '', '' @ padded 2 (sint (tm_hour t)) @
            '', '' @ padded 2 (sint (tm_min t)) @ '', '' @ padded 2 (sint (tm_sec t)) @ [newline]
      in if length out < room then out else [])"

text \<open>
  \<open>strftime\<close> follows the pointer \<open>tmp\<close> that \<open>localtime\<close> answers, \<open>NULL\<close> included, and \<open>fputs\<close> through
  a stream that could not be opened follows \<open>NULL\<close>.
\<close>

definition print_timestamp ::
  "tm option \<Rightarrow> bool \<Rightarrow> bool \<Rightarrow> bool \<Rightarrow> 'd log_api \<Rightarrow> 'd \<Rightarrow> (int \<times> 'd) comp" where
  "print_timestamp tmp lock_err unlock_err fopen_ok api d =
     (case tmp of
        None \<Rightarrow> fails Null_Deref
      | Some t \<Rightarrow>
          let buf = strftime 200 t;
              retval = (if buf = [] then - 1 else 0)
          in if lock_err then returns (- 1, d)
             else if \<not> fopen_ok then fails Null_Deref
             else bindC (log_append api buf d) (\<lambda>d'.
                    returns (if unlock_err then - 1 else retval, d')))"

section \<open>The lines of time stamps\<close>

lemma dec_digit: "n < 10 \<Longrightarrow> is_digit (char_of (48 + n :: nat))"
  by (simp add: is_digit_def)

lemma dec_digits_digits: "c \<in> set (dec_digits n) \<Longrightarrow> is_digit c"
proof (induction n rule: dec_digits.induct)
  case (1 n)
  then show ?case by (cases "n < 10") (auto simp: dec_digits.simps [of n] dec_digit)
qed

lemma decimal_snoc: "decimal (ds @ [c]) = 10 * decimal ds + (of_char c - 48)"
  by (simp add: decimal_def)

text \<open>Printing a number is inverse to reading it (\<open>decimal\<close>, which \<open>strtoul\<close> computes).\<close>

lemma decimal_dec_digits: "decimal (dec_digits n) = n"
proof (induction n rule: dec_digits.induct)
  case (1 n)
  show ?case
  proof (cases "n < 10")
    case True
    then show ?thesis by (simp add: dec_digits.simps [of n] decimal_def)
  next
    case False
    with 1 show ?thesis by (subst dec_digits.simps) (simp add: decimal_snoc)
  qed
qed

lemma length_dec_digits: "n < 10 ^ Suc k \<Longrightarrow> length (dec_digits n) \<le> Suc k"
proof (induction k arbitrary: n)
  case 0
  then show ?case by (simp add: dec_digits.simps [of n])
next
  case (Suc k)
  then have "n div 10 < 10 ^ Suc k" by auto
  with Suc.IH [of "n div 10"] show ?case by (subst dec_digits.simps) simp
qed

lemma length_padded:
  assumes "\<bar>i\<bar> < 10 ^ 10" and "w \<le> 2"
  shows "length (padded w i) \<le> 11"
  using assms length_dec_digits [of "nat \<bar>i\<bar>" 9] by (auto simp: padded_def Let_def nat_less_iff)

lemma padded_chars: "c \<in> set (padded w i) \<Longrightarrow> is_digit c \<or> c = CHR ''-''"
  using dec_digits_digits [of c] by (auto simp: padded_def Let_def is_digit_def split: if_splits)

lemma sint_i32: "\<bar>sint (x :: i32)\<bar> \<le> 2 ^ 31"
  using sint_greater_eq [of x] sint_lt [of x] by simp

definition stamp_line :: "byte list \<Rightarrow> bool" where
  "stamp_line bs \<longleftrightarrow> (\<exists>fs. bs = ''timestamp: '' @ fs @ [newline] \<and> length bs < 200 \<and>
     (\<forall>c \<in> set fs. is_digit c \<or> c = CHR ''-'' \<or> c = CHR '','' \<or> c = CHR '' ''))"

text \<open>Whatever the time, the text fits into the buffer of 200 bytes.\<close>

lemma strftime_stamp: "stamp_line (strftime 200 t)"
proof -
  let ?fs = "padded 1 (sint (tm_year t) + 1900) @ '', '' @ padded 2 (sint (tm_mon t) + 1) @
            '', '' @ padded 2 (sint (tm_mday t)) @ '', '' @ padded 2 (sint (tm_hour t)) @
            '', '' @ padded 2 (sint (tm_min t)) @ '', '' @ padded 2 (sint (tm_sec t))"
  have small: "length (padded w (sint (x :: i32) + k)) \<le> 11" if "w \<le> 2" "0 \<le> k" "k \<le> 1900" for w x k
    using that sint_i32 [of x] by (intro length_padded) auto
  have "length ?fs \<le> 76"
    using small [of 1 1900 "tm_year t"] small [of 2 1 "tm_mon t"] small [of 2 0 "tm_mday t"] small [of 2 0 "tm_hour t"]
      small [of 2 0 "tm_min t"] small [of 2 0 "tm_sec t"] by simp
  moreover from this have "strftime 200 t = ''timestamp: '' @ ?fs @ [newline]"
    by (simp add: strftime_def Let_def)
  moreover have "\<forall>c \<in> set ?fs. is_digit c \<or> c = CHR ''-'' \<or> c = CHR '','' \<or> c = CHR '' ''"
    using padded_chars by auto
  ultimately show ?thesis unfolding stamp_line_def by (intro exI [of _ ?fs]) simp
qed

end
