(* ===== verification/Socket_Server.thy ===== *)
theory Socket_Server
  imports Slist Socket_Timestamp
begin

text \<open>
  The main thread of \<open>server/aesdsocket.c\<close>: setting up signals, timer, socket and daemon, the
  loop that accepts clients, starts a thread for each and collects the threads that are done, and
  the loop that waits for the rest at the end. The threads' structures are nodes of the list of
  \<open>Slist\<close>; the threads run beside the main thread and may finish between any two of its steps.
  The answers of the operating system are arguments.
\<close>

section \<open>Signals and the timer\<close>

record signal_flags =
  timer_fired :: bool
  signal_caught :: bool
  listening :: bool

text \<open>\<open>shutdown\<close> on the listening socket makes a waiting \<open>accept\<close> fail.\<close>

definition signal_handler :: "signal_flags \<Rightarrow> signal_flags" where
  "signal_handler g = g\<lparr>signal_caught := True, listening := False\<rparr>"

definition timer_handler :: "signal_flags \<Rightarrow> signal_flags" where
  "timer_handler g = g\<lparr>timer_fired := True\<rparr>"

definition register_signals :: "i32 \<Rightarrow> i32 \<Rightarrow> int" where
  "register_signals sigterm_answer sigint_answer =
     (let retval = 0;
          retval = (if sigterm_answer \<noteq> 0 then - 1 else retval);
          retval = (if sigint_answer \<noteq> 0 then - 1 else retval)
      in retval)"

record timer_answers =
  sigaction_answer :: i32
  sigprocmask_set_answer :: i32
  timer_create_answer :: i32
  timer_settime_answer :: i32
  sigprocmask_unblock_answer :: i32

definition init_timer :: "timer_answers \<Rightarrow> int" where
  "init_timer t =
     (let retval = 0;
          retval = (if sigaction_answer t \<noteq> 0 then - 1 else retval);
          retval = (if sigprocmask_set_answer t \<noteq> 0 then - 1 else retval);
          retval = (if timer_create_answer t \<noteq> 0 then - 1 else retval);
          retval = (if timer_settime_answer t \<noteq> 0 then - 1 else retval);
          retval = (if sigprocmask_unblock_answer t \<noteq> 0 then - 1 else retval)
      in retval)"

section \<open>The listening socket and the daemon\<close>

text \<open>
  \<open>get_in_addr\<close> answers where in a socket address the network address lies, by its family.
\<close>

definition AF_INET :: "16 word" where
  "AF_INET = 2"

definition get_in_addr :: "16 word \<Rightarrow> nat" where
  "get_in_addr sa_family = (if sa_family = AF_INET then 4 else 8)"

text \<open>The answers for one address that \<open>getaddrinfo\<close> found.\<close>

record addr_answers =
  socket_answer :: i32
  setsockopt_answer :: i32
  bind_answer :: i32

text \<open>
  The loop over the addresses, with the present \<open>sock_fd\<close>, the sockets opened so far that nothing
  closes, and \<open>retval\<close>.
\<close>

fun open_sockets :: "addr_answers list \<Rightarrow> i32 \<Rightarrow> i32 list \<Rightarrow> int \<Rightarrow> i32 \<times> i32 list \<times> int" where
  "open_sockets [] sock_fd opened rv = (sock_fd, opened, rv)"
| "open_sockets (p # ps) sock_fd opened rv =
     (let sock_fd = socket_answer p
      in if sock_fd = - 1 then (sock_fd, opened, - 1)
      else if setsockopt_answer p \<noteq> 0 then (sock_fd, opened @ [sock_fd], - 1)
      else if bind_answer p \<noteq> 0 then (sock_fd, opened @ [sock_fd], - 1)
      else open_sockets ps sock_fd (opened @ [sock_fd]) rv)"

datatype daemon_end = Continues | Exits bool   \<comment> \<open>\<open>Exits True\<close>: with \<open>EXIT_SUCCESS\<close>\<close>

definition daemonize :: "i32 \<Rightarrow> i32 \<Rightarrow> i32 \<Rightarrow> i32 \<Rightarrow> i32 \<Rightarrow> daemon_end" where
  "daemonize fork_answer setsid_answer chdir_answer dup1_answer dup2_answer =
     (if sint fork_answer < 0 then Exits False
      else if sint fork_answer > 0 then Exits True
      else if setsid_answer = - 1 then Exits False
      else if chdir_answer \<noteq> 0 then Exits False
      else if dup1_answer = - 1 then Exits False
      else if dup2_answer = - 1 then Exits False
      else Continues)"

section \<open>The accept loop\<close>

record thread_data_s = slist_node +
  thread_complete :: bool
  client_fd :: i32
  thread_id :: nat

text \<open>
  \<open>created\<close> and \<open>joined\<close> are the threads the process has created and joined, in order;
  \<open>client_fds\<close> are the client connections handed to the process and not closed.
\<close>

record server =
  head :: ptr
  nodes :: "nat \<Rightarrow> thread_data_s option"
  created :: "nat list"
  joined :: "nat list"
  client_fds :: "i32 list"
  main_retval :: int

definition node_at :: "server \<Rightarrow> ptr \<Rightarrow> (nat \<times> thread_data_s) comp" where
  "node_at s p = (case p of
      Ptr a \<Rightarrow> (case nodes s a of None \<Rightarrow> fails Use_After_Free | Some n \<Rightarrow> returns (a, n))
    | _ \<Rightarrow> fails Null_Deref)"

definition free_node :: "ptr \<Rightarrow> server \<Rightarrow> server comp" where
  "free_node p s = (case p of
      Ptr a \<Rightarrow> (if nodes s a = None then fails Invalid_Free
               else returns (s\<lparr>nodes := (nodes s)(a := None)\<rparr>))
    | Null \<Rightarrow> returns s
    | Zero_Size \<Rightarrow> fails Invalid_Free)"

text \<open>
  A client was accepted: \<open>fd\<close> its connection, \<open>p\<close> the answer of \<open>malloc\<close>, \<open>create_err\<close> whether
  \<open>pthread_create\<close> fails and \<open>t\<close> the new thread otherwise. The result says whether the rest of the
  loop body runs: the two error branches \<open>continue\<close>. The link and the thread number of a new
  structure are not initialised; \<open>Null\<close> and 0 stand for what is there.
\<close>

definition new_client :: "i32 \<Rightarrow> ptr \<Rightarrow> bool \<Rightarrow> nat \<Rightarrow> server \<Rightarrow> (bool \<times> server) comp" where
  "new_client fd p create_err t s =
     (let s1 = s\<lparr>client_fds := client_fds s @ [fd]\<rparr>
      in case p of
        Ptr a \<Rightarrow>
          let n = \<lparr>sle_next = Null, thread_complete = False, client_fd = fd, thread_id = 0\<rparr>;
              s2 = s1\<lparr>nodes := (nodes s1)(a \<mapsto> n)\<rparr>
          in if create_err
             then bindC (free_node p s2) (\<lambda>s3. returns (False, s3\<lparr>main_retval := - 1\<rparr>))
             else let s3 = s2\<lparr>created := created s2 @ [t], nodes := (nodes s2)(a \<mapsto> n\<lparr>thread_id := t\<rparr>)\<rparr>
             in bindC (SLIST_INSERT_HEAD (head s3) (nodes s3) p) (\<lambda>(hd, h).
                  returns (True, s3\<lparr>head := hd, nodes := h\<rparr>))
      | _ \<Rightarrow> returns (False, s1\<lparr>main_retval := - 1\<rparr>))"

text \<open>The body of the loop over the threads; \<open>join_err\<close> says for which threads \<open>pthread_join\<close> fails.\<close>

definition collect :: "(nat \<Rightarrow> bool) \<Rightarrow> server \<Rightarrow> ptr \<Rightarrow> server comp" where
  "collect join_err s thread_ptr =
     bindC (node_at s thread_ptr) (\<lambda>(a, n).
       if thread_complete n
       then let s1 = s\<lparr>joined := joined s @ [thread_id n],
                       main_retval := (if join_err (thread_id n) then - 1 else main_retval s)\<rparr>
            in bindC (SLIST_REMOVE (head s1) (nodes s1) thread_ptr) (\<lambda>(hd, h).
                 free_node thread_ptr (s1\<lparr>head := hd, nodes := h\<rparr>))
       else returns s)"

definition next_thread :: "server \<Rightarrow> ptr \<Rightarrow> ptr comp" where
  "next_thread s p = SLIST_NEXT (nodes s) p"

definition sweep_threads :: "(nat \<Rightarrow> bool) \<Rightarrow> server \<Rightarrow> server comp" where
  "sweep_threads join_err s =
     SLIST_FOREACH_SAFE next_thread (collect join_err) (SLIST_FIRST (head s)) s"

text \<open>One round of the loop; \<open>client\<close> is the answer of \<open>accept\<close>, -1 when there is no client.\<close>

definition accept_round :: "i32 \<Rightarrow> ptr \<Rightarrow> bool \<Rightarrow> nat \<Rightarrow> (nat \<Rightarrow> bool) \<Rightarrow> server \<Rightarrow> server comp" where
  "accept_round client p create_err t join_err s =
     bindC (if client \<noteq> - 1 then new_client client p create_err t s else returns (True, s)) (\<lambda>(go_on, s1).
       if go_on then sweep_threads join_err s1 else returns s1)"

text \<open>The last loop: join and free whatever is left, from the front.\<close>

definition join_first :: "server \<Rightarrow> server comp" where
  "join_first s =
     (let thread_rm = SLIST_FIRST (head s)
      in bindC (node_at s thread_rm) (\<lambda>(a, n).
         let s1 = s\<lparr>joined := joined s @ [thread_id n]\<rparr>
         in bindC (SLIST_REMOVE_HEAD (head s1) (nodes s1)) (\<lambda>hd.
            free_node thread_rm (s1\<lparr>head := hd\<rparr>))))"

partial_function (option) drain_threads :: "server \<Rightarrow> server comp" where
  "drain_threads s = (if SLIST_EMPTY (head s) then returns s else bindC (join_first s) drain_threads)"

declare drain_threads.simps [code]

text \<open>
  A client's thread at the end of \<open>thread_func\<close>: \<open>handle_client\<close> has closed the connection, and
  the thread marks its structure.
\<close>

definition thread_func_end :: "nat \<Rightarrow> server \<Rightarrow> server comp" where
  "thread_func_end a s =
     bindC (node_at s (Ptr a)) (\<lambda>(a, n).
       returns (s\<lparr>client_fds := remove1 (client_fd n) (client_fds s),
                  nodes := (nodes s)(a \<mapsto> n\<lparr>thread_complete := True\<rparr>)\<rparr>))"

text \<open>
  The whole of a client's thread, when nothing else runs meanwhile: it finds its connection in its
  structure, serves the client on the log, and marks the structure.
\<close>

definition thread_func ::
  "client_env \<Rightarrow> 'd log_api \<Rightarrow> recv_answer list \<Rightarrow> nat \<Rightarrow> server \<Rightarrow> 'd \<Rightarrow> (ptr \<times> server \<times> 'd) comp" where
  "thread_func env api answers a s d =
     bindC (node_at s (Ptr a)) (\<lambda>(a, n).
     bindC (handle_client env api answers d) (\<lambda>(result, d').
     bindC (thread_func_end a s) (\<lambda>s'. returns (Ptr a, s', d'))))"

section \<open>The main function\<close>

text \<open>
  The answers during set-up. \<open>addrs\<close> is what \<open>getaddrinfo\<close> stores; when it fails it stores
  nothing, and the loop over the addresses follows an uninitialised pointer. Only the build without
  \<open>USE_AESD_CHAR_DEVICE\<close> has a timer.
\<close>

record setup_answers =
  sigterm_answer :: i32
  sigint_answer :: i32
  mutex_init_answer :: i32
  getaddrinfo_answer :: i32
  addrs :: "addr_answers list"
  fork_answer :: i32
  setsid_answer :: i32
  chdir_answer :: i32
  dup1_answer :: i32
  dup2_answer :: i32
  timer :: "timer_answers option"
  listen_answer :: i32

datatype setup_end = Exited bool | Ready i32 "i32 list" int

definition server_setup :: "setup_answers \<Rightarrow> string list \<Rightarrow> setup_end comp" where
  "server_setup q argv =
     (let run_daemon = (length argv > 1 \<and> argv ! 1 = ''-d'')
      in if register_signals (sigterm_answer q) (sigint_answer q) \<noteq> 0 then returns (Exited False)
      else if getaddrinfo_answer q \<noteq> 0 then fails Use_After_Free
      else let (sock_fd, opened, rv) =
             open_sockets (addrs q) (- 1) [] (if mutex_init_answer q \<noteq> 0 then - 1 else 0)
      in case (if run_daemon
               then daemonize (fork_answer q) (setsid_answer q) (chdir_answer q) (dup1_answer q) (dup2_answer q)
               else Continues) of
           Exits success \<Rightarrow> returns (Exited success)
         | Continues \<Rightarrow>
             let rv1 = (case timer q of None \<Rightarrow> rv | Some t \<Rightarrow> if init_timer t \<noteq> 0 then - 1 else rv)
             in returns (Ready sock_fd opened (if listen_answer q \<noteq> 0 then - 1 else rv1)))"

text \<open>
  What happens while the main thread is in its loop: \<open>accept\<close> answers and a round runs, a client's
  thread ends, or a signal is caught. The answer of \<open>malloc\<close> may depend on what is allocated.
\<close>

record round_answers =
  accept_answer :: i32
  node_answer :: "(nat \<Rightarrow> thread_data_s option) \<Rightarrow> ptr"
  create_error :: bool
  new_thread :: nat
  join_error :: "nat \<Rightarrow> bool"

datatype event = Round round_answers | Client_Done nat | Signal

text \<open>
  The signal is noticed at the next test of the loop condition, so the round whose \<open>accept\<close> the
  main thread waits in is still run. Without further events it waits for ever.
\<close>

fun accept_loop :: "event list \<Rightarrow> bool \<Rightarrow> server \<Rightarrow> server comp" where
  "accept_loop [] caught s = None"
| "accept_loop (Round r # es) caught s =
     bindC (accept_round (accept_answer r) (node_answer r (nodes s)) (create_error r) (new_thread r) (join_error r) s)
       (\<lambda>s'. if caught \<or> main_retval s' = - 1 then returns s' else accept_loop es caught s')"
| "accept_loop (Client_Done a # es) caught s =
     bindC (if nodes s a \<noteq> None then thread_func_end a s else returns s) (accept_loop es caught)"
| "accept_loop (Signal # es) caught s = accept_loop es True s"

text \<open>
  The result is the status of \<open>exit\<close>, or the value returned and the final state. This is the main
  function on the character device, with the threads' ends as events.
\<close>

definition server_main :: "setup_answers \<Rightarrow> string list \<Rightarrow> event list \<Rightarrow> (bool + int \<times> server) comp" where
  "server_main q argv es =
     bindC (server_setup q argv) (\<lambda>e. case e of
         Exited success \<Rightarrow> returns (Inl success)
       | Ready sock_fd opened rv \<Rightarrow>
           let s = \<lparr>head = SLIST_INIT, nodes = \<lambda>a. None, created = [], joined = [], client_fds = [], main_retval = rv\<rparr>
           in bindC (if rv \<noteq> - 1 then accept_loop es False s else returns s) (\<lambda>s'.
              bindC (drain_threads s') (\<lambda>s''. returns (Inr (main_retval s'', s'')))))"

section \<open>The invariant\<close>

text \<open>
  The nodes of the list are all the structures there are, and every thread that was created is
  either joined or in the list, once.
\<close>

definition tid :: "(nat \<Rightarrow> thread_data_s option) \<Rightarrow> nat \<Rightarrow> nat" where
  "tid h a = thread_id (the (h a))"

definition running :: "(nat \<Rightarrow> thread_data_s option) \<Rightarrow> nat \<Rightarrow> bool" where
  "running h a \<longleftrightarrow> \<not> thread_complete (the (h a))"

definition thread_list :: "server \<Rightarrow> nat list \<Rightarrow> bool" where
  "thread_list s xs \<longleftrightarrow> slist (nodes s) (head s) xs \<and> dom (nodes s) = set xs \<and>
     mset (created s) = mset (joined s) + image_mset (tid (nodes s)) (mset xs)"

lemma node_data_fields:
  assumes "node_data h' = node_data (h :: nat \<Rightarrow> thread_data_s option)"
  shows "dom h' = dom h" and "map_option thread_complete (h' a) = map_option thread_complete (h a)"
    and "map_option thread_id (h' a) = map_option thread_id (h a)"
proof -
  have *: "node_data h' b = node_data h b" for b using assms by simp
  show "dom h' = dom h" using * by (auto simp: node_data_def dom_def) (metis option.map_disc_iff not_None_eq)+
  have tc: "map_option thread_complete (g b) = map_option thread_complete (node_data g b)"
    and ti: "map_option thread_id (g b) = map_option thread_id (node_data g b)"
    for g :: "nat \<Rightarrow> thread_data_s option" and b
    by (cases "g b"; simp add: node_data_def)+
  show "map_option thread_complete (h' a) = map_option thread_complete (h a)"
    using * [of a] tc [of h' a] tc [of h a] by simp
  show "map_option thread_id (h' a) = map_option thread_id (h a)"
    using * [of a] ti [of h' a] ti [of h a] by simp
qed

lemma thread_list_node:
  assumes "thread_list s xs" and "a \<in> set xs"
  obtains n where "nodes s a = Some n" and "node_at s (Ptr a) = returns (a, n)"
  using assms slist_live [of "nodes s" "head s" xs a] by (auto simp: thread_list_def node_at_def)

lemma collect_ok:
  assumes l: "thread_list s (xs @ a # ys)"
  shows "\<exists>s'. collect je s (Ptr a) = returns s' \<and>
    thread_list s' (if running (nodes s) a then xs @ a # ys else xs @ ys) \<and>
    (\<forall>b \<in> set (xs @ ys). running (nodes s') b = running (nodes s) b \<and> tid (nodes s') b = tid (nodes s) b) \<and>
    created s' = created s \<and> (if running (nodes s) a then s' = s else joined s' = joined s @ [tid (nodes s) a])"
proof -
  obtain n where n: "nodes s a = Some n" "node_at s (Ptr a) = returns (a, n)"
    using thread_list_node [OF l, of a] by auto
  show ?thesis
  proof (cases "thread_complete n")
    case False
    with l n show ?thesis by (auto simp: collect_def running_def)
  next
    case True
    have sl: "slist (nodes s) (head s) (xs @ a # ys)" using l by (simp add: thread_list_def)
    have dist: "distinct (xs @ a # ys)" using sl by (rule slist_distinct)
    obtain p h where rem: "SLIST_REMOVE (head s) (nodes s) (Ptr a) = returns (p, h)" "slist h p (xs @ ys)"
      and data: "node_data h = node_data (nodes s)"
      using slist.remove_at [OF sl] by blast
    note same = node_data_fields [OF data]
    have ha: "h a \<noteq> None" using same(1) n(1) by (metis domI domIff)
    let ?s = "s\<lparr>joined := joined s @ [thread_id n], main_retval := (if je (thread_id n) then - 1 else main_retval s),
      head := p, nodes := h(a := None)\<rparr>"
    have run: "collect je s (Ptr a) = returns ?s"
      using True n(2) rem(1) ha by (simp add: collect_def free_node_def Let_def)
    have ids: "tid (h(a := None)) b = tid (nodes s) b" if "b \<noteq> a" for b
      using same(3) [of b] that by (cases "h b"; cases "nodes s b") (auto simp: tid_def)
    have comp: "running (h(a := None)) b = running (nodes s) b" if "b \<noteq> a" for b
      using same(2) [of b] that by (cases "h b"; cases "nodes s b") (auto simp: running_def)
    have "image_mset (tid (h(a := None))) (mset zs) = image_mset (tid (nodes s)) (mset zs)" if "a \<notin> set zs" for zs
      using that by (intro image_mset_cong ids) auto
    moreover have "tid (nodes s) a = thread_id n" using n(1) by (simp add: tid_def)
    ultimately have "thread_list ?s (xs @ ys)"
      using l rem(2) dist same(1) by (auto simp: thread_list_def slist_frame)
    moreover have "running (nodes ?s) b = running (nodes s) b \<and> tid (nodes ?s) b = tid (nodes s) b" if "b \<in> set (xs @ ys)" for b
    proof -
      have "b \<noteq> a" using that dist by auto
      with comp ids show ?thesis by simp
    qed
    moreover have "\<not> running (nodes s) a" "tid (nodes s) a = thread_id n" using True n(1) by (simp_all add: running_def tid_def)
    ultimately show ?thesis using run by auto
  qed
qed

interpretation sweep: swept_list thread_list next_thread "collect je" "\<lambda>s. running (nodes s)"
proof unfold_locales
  show "thread_list s (xs @ a # ys) \<Longrightarrow> next_thread s (Ptr a) = returns (first_of ys)" for s xs a ys
    using slist_nextI [of "nodes s" "head s" xs a ys] by (simp add: thread_list_def next_thread_def SLIST_NEXT_def)
  show "\<exists>s'. collect je s (Ptr a) = returns s' \<and> thread_list s' (if running (nodes s) a then xs @ a # ys else xs @ ys) \<and>
      (\<forall>b \<in> set ys. running (nodes s') b = running (nodes s) b)" if "thread_list s (xs @ a # ys)" for s xs a ys
    using collect_ok [OF that, of je] by auto
qed

lemma sweep_threads_ok:
  assumes "thread_list s xs"
  shows "\<exists>s'. sweep_threads je s = returns s' \<and> thread_list s' (filter (running (nodes s)) xs)"
proof -
  have "SLIST_FIRST (head s) = first_of xs"
    using assms slist_first [of "nodes s" "head s" xs] by (simp add: thread_list_def SLIST_FIRST_def)
  with sweep.sweep [OF assms, of je] show ?thesis by (simp add: sweep_threads_def)
qed

text \<open>
  The list with what the main thread knows of the threads: which are created (\<open>ts\<close>), that those
  joined or marked complete are among the finished ones (\<open>fin\<close>), and that each thread was given its own
  structure (\<open>arg\<close>).
\<close>

definition main_inv :: "nat list \<Rightarrow> nat set \<Rightarrow> (nat \<Rightarrow> nat) \<Rightarrow> server \<Rightarrow> nat list \<Rightarrow> bool" where
  "main_inv ts fin arg s xs \<longleftrightarrow> thread_list s xs \<and> created s = ts \<and> set (joined s) \<subseteq> fin \<and>
     (\<forall>a \<in> set xs. arg (tid (nodes s) a) = a \<and> (running (nodes s) a \<longleftrightarrow> tid (nodes s) a \<notin> fin))"

interpretation guarded: swept_list "main_inv ts fin arg" next_thread "collect je" "\<lambda>s. running (nodes s)"
proof unfold_locales
  show "main_inv ts fin arg s (xs @ a # ys) \<Longrightarrow> next_thread s (Ptr a) = returns (first_of ys)" for s xs a ys
    using slist_nextI [of "nodes s" "head s" xs a ys] by (simp add: main_inv_def thread_list_def next_thread_def SLIST_NEXT_def)
  show "\<exists>s'. collect je s (Ptr a) = returns s' \<and>
      main_inv ts fin arg s' (if running (nodes s) a then xs @ a # ys else xs @ ys) \<and>
      (\<forall>b \<in> set ys. running (nodes s') b = running (nodes s) b)" if inv: "main_inv ts fin arg s (xs @ a # ys)" for s xs a ys
  proof -
    have "thread_list s (xs @ a # ys)" using inv by (simp add: main_inv_def)
    from collect_ok [OF this, of je] inv show ?thesis by (auto simp: main_inv_def)
  qed
qed

lemma sweep_threads_inv:
  assumes "main_inv ts fin arg s xs"
  shows "\<exists>s'. sweep_threads je s = returns s' \<and> main_inv ts fin arg s' (filter (running (nodes s)) xs)"
proof -
  have "SLIST_FIRST (head s) = first_of xs"
    using assms slist_first [of "nodes s" "head s" xs] by (simp add: main_inv_def thread_list_def SLIST_FIRST_def)
  with guarded.sweep [OF assms, of je] show ?thesis by (simp add: sweep_threads_def)
qed

lemma new_client_ok:
  assumes l: "thread_list s xs" and fresh: "\<And>a. p = Ptr a \<Longrightarrow> nodes s a = None"
  shows "\<exists>go_on s' ys. new_client fd p ce t s = returns (go_on, s') \<and> thread_list s' ys \<and>
    (if go_on then \<exists>a. p = Ptr a \<and> ys = a # xs \<and> \<not> ce \<and> created s' = created s @ [t] \<and> tid (nodes s') a = t \<and>
         running (nodes s') a \<and> (\<forall>b. b \<noteq> a \<longrightarrow> nodes s' b = nodes s b)
     else ys = xs \<and> (ce \<or> (\<forall>a. p \<noteq> Ptr a)) \<and> created s' = created s \<and> nodes s' = nodes s \<and> main_retval s' = - 1) \<and>
    joined s' = joined s"
proof (cases p)
  case (Ptr a)
  have fa: "nodes s a = None" using fresh Ptr by simp
  have na: "a \<notin> set xs" using l fa by (auto simp: thread_list_def)
  show ?thesis
  proof (cases ce)
    case True
    with Ptr l fa show ?thesis
      by (intro exI [of _ False]) (simp add: new_client_def free_node_def thread_list_def fun_upd_idem Let_def)
  next
    case False
    let ?n = "\<lparr>sle_next = head s, thread_complete = False, client_fd = fd, thread_id = t\<rparr>"
    let ?s = "s\<lparr>client_fds := client_fds s @ [fd], created := created s @ [t], head := Ptr a,
      nodes := (nodes s)(a \<mapsto> ?n)\<rparr>"
    have run: "new_client fd p ce t s = returns (True, ?s)"
      using False Ptr by (simp add: new_client_def SLIST_INSERT_HEAD_def sle_set_def Let_def)
    let ?h = "(nodes s)(a \<mapsto> ?n)"
    have "image_mset (tid ?h) (mset xs) = image_mset (tid (nodes s)) (mset xs)"
      using na by (intro image_mset_cong) (auto simp: tid_def)
    moreover have new: "tid ?h a = t" "running ?h a" by (simp_all add: tid_def running_def)
    ultimately have "thread_list ?s (a # xs)"
      using l na by (simp add: thread_list_def slist_frame)
    with run False Ptr new show ?thesis by (intro exI [of _ True]) simp
  qed
qed (use l in \<open>auto simp: new_client_def thread_list_def intro!: exI [of _ False]\<close>)

lemma join_first_ok:
  assumes l: "thread_list s (a # xs)"
  shows "\<exists>s'. join_first s = returns s' \<and> thread_list s' xs \<and> created s' = created s \<and>
    joined s' = joined s @ [tid (nodes s) a] \<and> (\<forall>b \<in> set xs. nodes s' b = nodes s b)"
proof -
  obtain n where n: "nodes s a = Some n" "node_at s (Ptr a) = returns (a, n)"
    using thread_list_node [OF l, of a] by auto
  have sl: "slist (nodes s) (head s) (a # xs)" using l by (simp add: thread_list_def)
  have dist: "distinct (a # xs)" using sl by (rule slist_distinct)
  obtain hd where hd: "SLIST_REMOVE_HEAD (head s) (nodes s) = returns hd" "slist (nodes s) hd xs"
    using slist.head_ok [OF sl] by blast
  have first: "head s = Ptr a" using slist_first [OF sl] by simp
  let ?s = "s\<lparr>joined := joined s @ [thread_id n], head := hd, nodes := (nodes s)(a := None)\<rparr>"
  have "join_first s = returns ?s"
    using n first hd(1) by (simp add: join_first_def SLIST_FIRST_def free_node_def Let_def)
  moreover have "image_mset (tid ((nodes s)(a := None))) (mset xs) = image_mset (tid (nodes s)) (mset xs)"
    using dist by (intro image_mset_cong) (auto simp: tid_def)
  moreover have "tid (nodes s) a = thread_id n" using n(1) by (simp add: tid_def)
  ultimately show ?thesis
    using l dist hd(2) by (auto simp: thread_list_def slist_frame)
qed

lemma drain_ok:
  "thread_list s xs \<Longrightarrow> \<exists>s'. drain_threads s = returns s' \<and> thread_list s' [] \<and> created s' = created s"
proof (induction xs arbitrary: s)
  case Nil
  then have "SLIST_EMPTY (head s)" by (simp add: thread_list_def SLIST_EMPTY_def SLIST_END_def)
  with Nil show ?case by (subst drain_threads.simps) simp
next
  case (Cons a xs)
  obtain s1 where s1: "join_first s = returns s1" "thread_list s1 xs" "created s1 = created s"
    using join_first_ok [OF Cons.prems] by blast
  have "\<not> SLIST_EMPTY (head s)"
    using Cons.prems slist_first [of "nodes s" "head s" "a # xs"] by (auto simp: thread_list_def SLIST_EMPTY_def SLIST_END_def)
  with s1(1) have "drain_threads s = drain_threads s1" by (subst drain_threads.simps) simp
  with Cons.IH [OF s1(2)] s1(3) show ?case by auto
qed

section \<open>The main thread and the clients' threads\<close>

text \<open>
  A round of the loop, with a block from \<open>malloc\<close> that is not in use, or the end of a running
  client's thread. Nothing else touches the list.
\<close>

inductive server_step :: "server \<Rightarrow> server \<Rightarrow> bool" where
  main_round: "(\<And>a. p = Ptr a \<Longrightarrow> nodes s a = None) \<Longrightarrow>
    accept_round client p create_err t join_err s = returns s' \<Longrightarrow> server_step s s'"
| client_done: "nodes s a \<noteq> None \<Longrightarrow> thread_func_end a s = returns s' \<Longrightarrow> server_step s s'"

inductive server_reachable :: "server \<Rightarrow> bool" where
  server_start: "server_reachable \<lparr>head = SLIST_INIT, nodes = \<lambda>a. None, created = [], joined = [],
    client_fds = [], main_retval = rv\<rparr>"
| server_more: "server_reachable s \<Longrightarrow> server_step s s' \<Longrightarrow> server_reachable s'"

lemma thread_func_end_ok:
  assumes l: "thread_list s xs" and a: "nodes s a \<noteq> None"
  shows "\<exists>s'. thread_func_end a s = returns s' \<and> thread_list s' xs"
proof -
  obtain n where n: "nodes s a = Some n" using a by auto
  let ?h = "(nodes s)(a \<mapsto> n\<lparr>thread_complete := True\<rparr>)"
  have "slist ?h p ys = slist (nodes s) p ys" for p ys
    by (induction ys arbitrary: p) (auto simp: n)
  moreover have "image_mset (tid ?h) (mset xs) = image_mset (tid (nodes s)) (mset xs)"
    by (intro image_mset_cong) (auto simp: tid_def n)
  ultimately show ?thesis
    using l n by (auto simp: thread_func_end_def node_at_def thread_list_def)
qed

lemma accept_round_ok:
  assumes l: "thread_list s xs" and fresh: "\<And>a. p = Ptr a \<Longrightarrow> nodes s a = None"
  shows "\<exists>s' ys. accept_round client p ce t je s = returns s' \<and> thread_list s' ys"
proof (cases "client = - 1")
  case True
  with sweep_threads_ok [OF l, of je] show ?thesis by (auto simp: accept_round_def)
next
  case False
  obtain go_on s1 ys where "new_client client p ce t s = returns (go_on, s1)" "thread_list s1 ys"
    using new_client_ok [OF l fresh, where fd = client and ce = ce and t = t] by blast
  with False sweep_threads_ok [of s1 ys je] show ?thesis by (cases go_on) (auto simp: accept_round_def)
qed

lemma server_reachable_list: "server_reachable s \<Longrightarrow> \<exists>xs. thread_list s xs"
proof (induction rule: server_reachable.induct)
  case (server_start rv)
  show ?case by (intro exI [of _ "[]"]) (simp add: thread_list_def SLIST_INIT_def SLIST_END_def)
next
  case (server_more s s')
  then obtain xs where xs: "thread_list s xs" by blast
  from server_more.hyps(2) show ?case
  proof cases
    case (main_round p client ce t je)
    with accept_round_ok [OF xs, where p = p and client = client and ce = ce and t = t and je = je] show ?thesis by auto
  next
    case (client_done a)
    with thread_func_end_ok [OF xs, of a] show ?thesis by auto
  qed
qed

section \<open>The loop to its end\<close>

definition malloc_fresh :: "event \<Rightarrow> bool" where
  "malloc_fresh e \<longleftrightarrow> (case e of Round r \<Rightarrow> \<forall>h a. node_answer r h = Ptr a \<longrightarrow> h a = None | _ \<Rightarrow> True)"

definition is_round :: "event \<Rightarrow> bool" where
  "is_round e \<longleftrightarrow> (case e of Round r \<Rightarrow> True | _ \<Rightarrow> False)"

lemma is_round_simps [simp]: "is_round (Round r)" "\<not> is_round (Client_Done a)" "\<not> is_round Signal"
  by (simp_all add: is_round_def)

lemma accept_loop_ok:
  assumes "thread_list s xs" and "list_all malloc_fresh es"
    and "(caught \<and> list_ex is_round es) \<or> (\<exists>ys zs. es = ys @ Signal # zs \<and> list_ex is_round zs)"
  shows "\<exists>s' ys. accept_loop es caught s = returns s' \<and> thread_list s' ys"
  using assms
proof (induction es caught s arbitrary: xs rule: accept_loop.induct)
  case (1 caught s)
  then show ?case by simp
next
  case (2 r es caught s)
  obtain s' ys where s': "accept_round (accept_answer r) (node_answer r (nodes s)) (create_error r) (new_thread r)
      (join_error r) s = returns s'" "thread_list s' ys"
    using accept_round_ok [OF 2(2), where p = "node_answer r (nodes s)" and client = "accept_answer r"
        and ce = "create_error r" and t = "new_thread r" and je = "join_error r"] 2(3)
    by (auto simp: malloc_fresh_def)
  show ?case
  proof (cases "caught \<or> main_retval s' = - 1")
    case True
    with s' show ?thesis by auto
  next
    case False
    have "\<exists>ys zs. es = ys @ Signal # zs \<and> list_ex is_round zs"
      using 2(4) False by (auto simp: Cons_eq_append_conv)
    with 2(1) [OF s'(1) False s'(2)] 2(3) s'(1) False show ?thesis by simp
  qed
next
  case (3 a es caught s)
  obtain s' where s': "(if nodes s a \<noteq> None then thread_func_end a s else returns s) = returns s'" "thread_list s' xs"
    using thread_func_end_ok [OF 3(2), of a] 3(2) by (cases "nodes s a = None") auto
  have "(caught \<and> list_ex is_round es) \<or> (\<exists>ys zs. es = ys @ Signal # zs \<and> list_ex is_round zs)"
    using 3(4) by (auto simp: Cons_eq_append_conv)
  with 3(1) [OF s'(1) s'(2)] 3(3) s'(1) show ?case by simp
next
  case (4 es caught s)
  have "list_ex is_round es"
    using 4(4) by (auto simp: Cons_eq_append_conv)
  with 4 show ?case by simp
qed

section \<open>Properties\<close>

definition idle_server :: server where
  "idle_server = \<lparr>head = SLIST_INIT, nodes = \<lambda>a. None, created = [], joined = [], client_fds = [], main_retval = 0\<rparr>"

text \<open>Two clients on connections 4 and 5, in threads 100 and 101; the first is done.\<close>

definition busy_server :: server where
  "busy_server = (case bindC (accept_round 4 (Ptr 1) False 100 (\<lambda>t. False) idle_server)
       (\<lambda>s. bindC (accept_round 5 (Ptr 2) False 101 (\<lambda>t. False) s) (thread_func_end 1)) of
     Some (Inr s) \<Rightarrow> s | _ \<Rightarrow> idle_server)"

lemma busy_server_eval:
  "head busy_server = Ptr 2" "nodes busy_server 1 = Some \<lparr>sle_next = Null, thread_complete = True, client_fd = 4, thread_id = 100\<rparr>"
  "nodes busy_server 2 = Some \<lparr>sle_next = Ptr 1, thread_complete = False, client_fd = 5, thread_id = 101\<rparr>"
  "nodes busy_server 3 = None" "created busy_server = [100, 101]" "joined busy_server = []"
  by code_simp+

lemma busy_server_reachable: "server_reachable busy_server"
proof -
  obtain s1 where s1: "accept_round 4 (Ptr 1) False 100 (\<lambda>t. False) idle_server = returns s1" "nodes s1 2 = None"
  proof -
    have "observe (\<lambda>s. nodes s 2) (accept_round 4 (Ptr 1) False 100 (\<lambda>t. False) idle_server) = returns None"
      by code_simp
    then show thesis using that by (elim observe_returnsE)
  qed
  have r1: "server_reachable s1"
    by (rule server_more [OF server_start [of 0, folded idle_server_def] main_round [OF _ s1(1)]])
      (simp add: idle_server_def)
  obtain s2 where s2: "accept_round 5 (Ptr 2) False 101 (\<lambda>t. False) s1 = returns s2"
    using accept_round_ok [of s1 _ "Ptr 2", where client = 5 and ce = False and t = 101 and je = "\<lambda>t. False"]
      server_reachable_list [OF r1] s1(2) by auto
  have r2: "server_reachable s2"
    by (rule server_more [OF r1 main_round [OF _ s2]]) (use s1(2) in simp)
  have eq: "busy_server = (case thread_func_end 1 s2 of Some (Inr s) \<Rightarrow> s | _ \<Rightarrow> idle_server)"
    unfolding busy_server_def s1(1) bindC_simps s2 by (rule refl)
  have idle: "server_reachable idle_server"
    unfolding idle_server_def by (rule server_start)
  have "server_reachable s3" if run: "thread_func_end 1 s2 = returns s3" for s3
  proof -
    have "nodes s2 1 \<noteq> None"
      using run by (auto simp: thread_func_end_def node_at_def split: option.splits)
    from server_more [OF r2 client_done [OF this run]] show ?thesis .
  qed
  with idle show ?thesis by (auto simp: eq split: option.splits sum.splits)
qed

text \<open>
  Whatever clients come, and whenever their threads end, no round of the accept loop
  follows a dangling pointer, frees a structure twice or runs over the end of the list; every round
  comes to its end.
\<close>

theorem accept_loop_never_faults:
  assumes "server_reachable s" and "\<And>a. p = Ptr a \<Longrightarrow> nodes s a = None"
  shows "\<exists>s'. accept_round client p create_err t join_err s = returns s'"
  using server_reachable_list [OF assms(1)] accept_round_ok [OF _ assms(2)] by blast

theorem accept_loop_never_faults_witness:
  "server_reachable busy_server \<and> (\<exists>s'. accept_round 6 (Ptr 3) False 102 (\<lambda>t. False) busy_server = returns s')"
  using accept_loop_never_faults [OF busy_server_reachable, of "Ptr 3" 6 False 102 "\<lambda>t. False"]
    busy_server_reachable busy_server_eval(4) by simp

text \<open>
  The sweep at the end of a round removes exactly the threads that are done: their
  structures are freed, those of running threads stay, and each thread removed is joined once.
\<close>

theorem sweep_collects_finished:
  assumes "server_reachable s"
  shows "\<exists>s'. sweep_threads join_err s = returns s' \<and>
    (\<forall>a. nodes s' a = None \<longleftrightarrow> nodes s a = None \<or> thread_complete (the (nodes s a))) \<and>
    mset (created s') = mset (joined s') + image_mset (tid (nodes s')) (mset_set (dom (nodes s')))"
proof -
  obtain xs where xs: "thread_list s xs" using server_reachable_list [OF assms] by blast
  obtain s' where s': "sweep_threads join_err s = returns s'" "thread_list s' (filter (running (nodes s)) xs)"
    using sweep_threads_ok [OF xs] by blast
  have dom: "dom (nodes s) = set xs" "dom (nodes s') = set (filter (running (nodes s)) xs)"
    using xs s'(2) by (simp_all add: thread_list_def)
  have "nodes s' a = None \<longleftrightarrow> nodes s a = None \<or> thread_complete (the (nodes s a))" for a
  proof -
    have "a \<in> dom (nodes s') \<longleftrightarrow> a \<in> dom (nodes s) \<and> running (nodes s) a" using dom by auto
    then show ?thesis by (auto simp: running_def dom_def)
  qed
  moreover have "distinct (filter (running (nodes s)) xs)"
    using xs by (auto simp: thread_list_def dest: slist_distinct)
  then have "mset_set (dom (nodes s')) = mset (filter (running (nodes s)) xs)"
    unfolding dom(2) by (simp add: mset_set_set del: set_filter)
  ultimately show ?thesis using s' by (simp add: thread_list_def)
qed

theorem sweep_collects_finished_witness:
  "\<exists>s'. sweep_threads (\<lambda>t. False) busy_server = returns s' \<and> nodes s' 1 = None \<and> nodes s' 2 \<noteq> None"
proof -
  have "nodes busy_server 1 = None \<or> thread_complete (the (nodes busy_server 1))"
    "\<not> (nodes busy_server 2 = None \<or> thread_complete (the (nodes busy_server 2)))"
    unfolding busy_server_eval by simp_all
  with sweep_collects_finished [OF busy_server_reachable, of "\<lambda>t. False"] show ?thesis by metis
qed

text \<open>
  When the loop has ended, the last loop waits for all remaining threads and ends with an
  empty list, every structure freed and every thread that was ever created joined exactly once.
\<close>

theorem shutdown_joins_every_thread:
  assumes "server_reachable s"
  shows "\<exists>s'. drain_threads s = returns s' \<and> SLIST_EMPTY (head s') \<and> nodes s' = Map.empty \<and>
    created s' = created s \<and> mset (joined s') = mset (created s')"
proof -
  obtain xs where "thread_list s xs" using server_reachable_list [OF assms] by blast
  from drain_ok [OF this] show ?thesis
    by (auto simp: thread_list_def SLIST_EMPTY_def SLIST_END_def)
qed

theorem shutdown_joins_every_thread_witness:
  "\<exists>s'. drain_threads busy_server = returns s' \<and> mset (joined s') = {#100, 101#} \<and> nodes s' = Map.empty"
  using shutdown_joins_every_thread [OF busy_server_reachable]
  by (auto simp: busy_server_eval)

text \<open>
  When no structure can be allocated or no thread created for an accepted client, the
  connection is neither served nor closed, and the server gives up.
\<close>

theorem failed_thread_leaks_connection:
  assumes "server_reachable s" and "\<And>a. p = Ptr a \<Longrightarrow> nodes s a = None"
    and "fd \<noteq> - 1" and "create_err \<or> p = Null"
  shows "\<exists>s'. accept_round fd p create_err t join_err s = returns s' \<and> fd \<in> set (client_fds s') \<and>
    nodes s' = nodes s \<and> created s' = created s \<and> main_retval s' = - 1"
  using assms
  by (cases p) (auto simp: accept_round_def new_client_def free_node_def fun_upd_idem Let_def)

theorem failed_thread_leaks_connection_witness:
  "\<exists>s'. accept_round 6 Null False 102 (\<lambda>t. False) busy_server = returns s' \<and> 6 \<in> set (client_fds s') \<and> main_retval s' = - 1"
  using failed_thread_leaks_connection [OF busy_server_reachable, of Null 6 False 102 "\<lambda>t. False"] by auto

text \<open>
  The loop over the addresses does not stop at the first socket it could bind: it goes on
  to the last address, keeps only that socket and leaves all others open, and when any later bind
  fails the server gives up although it has a bound socket.
\<close>

theorem open_sockets_goes_on:
  assumes "\<forall>q \<in> set ps. socket_answer q \<noteq> - 1 \<and> setsockopt_answer q = 0 \<and> bind_answer q = 0"
    and "socket_answer p \<noteq> - 1" and "setsockopt_answer p = 0"
  shows "open_sockets (ps @ [p]) fd opened rv =
    (socket_answer p, opened @ map socket_answer ps @ [socket_answer p], if bind_answer p \<noteq> 0 then - 1 else rv)"
  using assms(1)
proof (induction ps arbitrary: fd opened)
  case Nil
  then show ?case using assms(2,3) by (simp add: Let_def)
next
  case (Cons q ps)
  then show ?case by (simp add: Let_def)
qed

theorem open_sockets_goes_on_witness:
  "open_sockets [\<lparr>socket_answer = 3, setsockopt_answer = 0, bind_answer = 0\<rparr>,
     \<lparr>socket_answer = 4, setsockopt_answer = 0, bind_answer = - 1\<rparr>] (- 1) [] 0 = (4, [3, 4], - 1)"
  using open_sockets_goes_on [of "[\<lparr>socket_answer = 3, setsockopt_answer = 0, bind_answer = 0\<rparr>]"
      "\<lparr>socket_answer = 4, setsockopt_answer = 0, bind_answer = - 1\<rparr>" "- 1" "[]" 0]
  by simp


definition good_answers :: setup_answers where
  "good_answers = \<lparr>sigterm_answer = 0, sigint_answer = 0, mutex_init_answer = 0, getaddrinfo_answer = 0,
     addrs = [\<lparr>socket_answer = 3, setsockopt_answer = 0, bind_answer = 0\<rparr>],
     fork_answer = 0, setsid_answer = 1, chdir_answer = 0, dup1_answer = 1, dup2_answer = 2, timer = None, listen_answer = 0\<rparr>"

definition round_of :: "i32 \<Rightarrow> nat \<Rightarrow> event" where
  "round_of client t = Round \<lparr>accept_answer = client,
     node_answer = \<lambda>h. (case find (\<lambda>a. h a = None) [1..<64] of None \<Rightarrow> Null | Some a \<Rightarrow> Ptr a),
     create_error = False, new_thread = t, join_error = \<lambda>t. False\<rparr>"

lemma round_of_fresh: "malloc_fresh (round_of client t)" "is_round (round_of client t)"
  by (auto simp: round_of_def malloc_fresh_def is_round_def find_Some_iff split: option.splits)


end
