(* ===== verification/Socket_Clients.thy ===== *)
theory Socket_Clients
  imports Socket_Device
begin

text \<open>
  Any number of clients at the same time: the handler threads of \<open>server/aesdsocket.c\<close>, each
  \<open>handle_client\<close> cut where it touches what the threads share, the log file and \<open>log_mutex\<close>. A
  call on the log is one step, which for the character device is what \<open>driver_linearizable\<close>
  allows; receiving and sending touch only the thread's own memory, so they are one step each.
  The theory shows that the steps of one handler are \<open>handle_client\<close>, and defines what runs of
  many handlers are.
\<close>

section \<open>The handler in steps\<close>

datatype handler =
    Receiving "recv_answer list"
  | Wants_Log client_state                \<comment> \<open>before \<open>pthread_mutex_lock\<close>\<close>
  | In_Log client_state                   \<comment> \<open>holds the mutex, before the write\<close>
  | Leaves_Log int                        \<comment> \<open>before \<open>pthread_mutex_unlock\<close>\<close>
  | Opens_Log int                         \<comment> \<open>before the file is opened for reading\<close>
  | Seeks client_state
  | Reads_Log i64 "byte list" int         \<comment> \<open>position, bytes read, \<open>retval\<close>\<close>
  | Sends "byte list" int
  | Ended client_result

text \<open>One read of the log: whether it is the end, the bytes, the new position.\<close>

type_synonym 'd log_piece = "i64 \<Rightarrow> 'd \<Rightarrow> (bool \<times> byte list \<times> i64 \<times> 'd) comp"

definition receive_all :: "client_env \<Rightarrow> recv_answer list \<Rightarrow> client_state comp" where
  "receive_all env answers =
     (case malloc_answer env of
        None \<Rightarrow> fails Null_Deref
      | Some blk \<Rightarrow> bindC (arr_set blk 0 nul) (\<lambda>fb.
          receive_loop env answers
            \<lparr>recv_buf = replicate 512 nul, final_buffer = fb, total_bytes_recv = 0,
             more_bytes_to_read = True, ioctl_cmd_found = - 1, retval = 0\<rparr>))"

text \<open>
  One step of handler \<open>t\<close>: its next phase, the holder of \<open>log_mutex\<close> and the log; no step
  (\<open>returns None\<close>) while it waits for data or for the mutex, and when it has ended.
\<close>

definition handler_step ::
  "client_env \<Rightarrow> 'd log_api \<Rightarrow> 'd log_piece \<Rightarrow> nat \<Rightarrow> handler \<Rightarrow> nat option \<Rightarrow> 'd \<Rightarrow> (handler \<times> nat option \<times> 'd) option comp" where
  "handler_step env api piece t ph m d =
     (case ph of
        Receiving answers \<Rightarrow>
          (case receive_all env answers of
             None \<Rightarrow> returns None
           | Some (Inl f) \<Rightarrow> fails f
           | Some (Inr st) \<Rightarrow> returns (Some (if ioctl_cmd_found st = 0 then Seeks st else Wants_Log st, m, d)))
      | Wants_Log st \<Rightarrow>
          (if lock_error env then returns (Some (Opens_Log (- 1), m, d))
           else if m = None then returns (Some (In_Log st, Some t, d))
           else returns None)
      | In_Log st \<Rightarrow>
          (if \<not> fopen_a_ok env then fails Null_Deref
           else if length (final_buffer st) < unat (scast (total_bytes_recv st) :: u64)
           then fails Out_Of_Bounds
           else bindC (log_append api (take (unat (scast (total_bytes_recv st) :: u64)) (final_buffer st)) d)
                  (\<lambda>d1. returns (Some (Leaves_Log (retval st), m, d1))))
      | Leaves_Log rv \<Rightarrow> returns (Some (Opens_Log rv, None, d))
      | Opens_Log rv \<Rightarrow>
          (if \<not> fopen_r_ok env then fails Null_Deref else returns (Some (Reads_Log 0 [] rv, m, d)))
      | Seeks st \<Rightarrow>
          if \<not> char_device env then fails Use_After_Free
          else bindC (strtoul (drop CMD_IDENTIFIER_LEN (final_buffer st))) (\<lambda>cmd.
          bindC (strtoul (drop (TOTAL_CMD_LEN - 1) (final_buffer st))) (\<lambda>offs.
            if \<not> fopen_a_ok env then fails Null_Deref
            else bindC (log_seek api (ucast cmd) (ucast offs) d) (\<lambda>(pos, d1).
                   returns (Some (Reads_Log pos [] (retval st), m, d1)))))
      | Reads_Log pos acc rv \<Rightarrow>
          bindC (piece pos d) (\<lambda>(eof, bs, pos', d1).
            returns (Some (if eof then Sends acc rv else Reads_Log pos' (acc @ bs) rv, m, d1)))
      | Sends acc rv \<Rightarrow>
          (let (out, rv') = send_loop env 0 acc [] rv
           in returns (Some (Ended \<lparr>result_retval = (if close_error env then - 1 else rv'), sent = out,
                                   client_closed = True\<rparr>, m, d)))
      | Ended res \<Rightarrow> returns None)"

text \<open>The log on the driver, piece by piece; a failed read leaves the position and is tried again.\<close>

definition aesdchar_piece :: "kernel \<Rightarrow> kworld log_piece" where
  "aesdchar_piece K pos w =
     bindC (aesd_read K False (Some fopen_aesdchar) stdio_buffer 4096 pos w) (\<lambda>(r, pos', w').
       returns (r = 0, if sint r < 0 then [] else map (\<lambda>i. the (umem w' (stdio_buffer + i))) [0..<unat r], pos', w'))"

section \<open>One handler alone\<close>

inductive alone :: "client_env \<Rightarrow> 'd log_api \<Rightarrow> 'd log_piece \<Rightarrow> nat \<Rightarrow>
    handler \<times> nat option \<times> 'd \<Rightarrow> handler \<times> nat option \<times> 'd \<Rightarrow> bool" for env api piece t where
  alone_refl: "alone env api piece t c c"
| alone_step: "handler_step env api piece t ph m d = returns (Some c) \<Longrightarrow> alone env api piece t c c' \<Longrightarrow>
    alone env api piece t (ph, m, d) c'"

lemma alone_trans: "alone env api piece t a b \<Longrightarrow> alone env api piece t b c \<Longrightarrow> alone env api piece t a c"
  by (induction rule: alone.induct) (auto intro: alone_step)

lemma read_all_alone:
  "read_all K pos w = returns (rest, w') \<Longrightarrow>
   alone env api (aesdchar_piece K) t (Reads_Log pos acc rv, m, w) (Sends (acc @ rest) rv, m, w')"
proof -
  have "\<forall>rest w' acc. y = Inr (rest, w') \<longrightarrow>
      alone env api (aesdchar_piece K) t (Reads_Log pos acc rv, m, w) (Sends (acc @ rest) rv, m, w')"
    if "read_all K pos w = Some y" for y
  proof (rule read_all.raw_induct [where P = "\<lambda>K pos w y. \<forall>rest w' acc. y = Inr (rest, w') \<longrightarrow>
        alone env api (aesdchar_piece K) t (Reads_Log pos acc rv, m, w) (Sends (acc @ rest) rv, m, w')", OF _ that])
    fix read K pos w y
    assume IH: "\<And>K pos w y. read K pos w = Some y \<Longrightarrow> \<forall>rest w' acc. y = Inr (rest, w') \<longrightarrow>
        alone env api (aesdchar_piece K) t (Reads_Log pos acc rv, m, w) (Sends (acc @ rest) rv, m, w')"
      and body: "bindC (aesd_read K False (Some fopen_aesdchar) stdio_buffer 4096 pos w) (\<lambda>(r, pos', w').
       if r = 0 then returns ([], w')
       else if sint r < 0 then read K pos' w'
       else bindC (read K pos' w') (\<lambda>(bs, w'').
              returns (map (\<lambda>i. the (umem w' (stdio_buffer + i))) [0..<unat r] @ bs, w''))) = Some y"
    show "\<forall>rest w' acc. y = Inr (rest, w') \<longrightarrow>
        alone env api (aesdchar_piece K) t (Reads_Log pos acc rv, m, w) (Sends (acc @ rest) rv, m, w')"
    proof (intro allI impI)
      fix rest w' acc
      assume y: "y = Inr (rest, w')"
      obtain r pos' w1 where r: "aesd_read K False (Some fopen_aesdchar) stdio_buffer 4096 pos w = returns (r, pos', w1)"
        using body y by (auto simp: bindC_eq_returns)
      let ?bs = "map (\<lambda>i. the (umem w1 (stdio_buffer + i))) [0..<unat r]"
      have step: "handler_step env api (aesdchar_piece K) t (Reads_Log pos acc rv) m w =
          returns (Some (if r = 0 then Sends acc rv else Reads_Log pos' (acc @ (if sint r < 0 then [] else ?bs)) rv, m, w1))"
        by (simp add: handler_step_def aesdchar_piece_def r)
      show "alone env api (aesdchar_piece K) t (Reads_Log pos acc rv, m, w) (Sends (acc @ rest) rv, m, w')"
      proof (cases "r = 0")
        case True
        with body r y have "rest = []" "w' = w1" by auto
        with step True show ?thesis by (auto intro: alone_step alone_refl)
      next
        case False
        obtain rest' where rest': "read K pos' w1 = returns (rest', w')"
            "rest = (if sint r < 0 then [] else ?bs) @ rest'"
          using body r y False by (auto simp: bindC_eq_returns split: if_splits)
        have "alone env api (aesdchar_piece K) t (Reads_Log pos' (acc @ (if sint r < 0 then [] else ?bs)) rv, m, w1)
            (Sends ((acc @ (if sint r < 0 then [] else ?bs)) @ rest') rv, m, w')"
          using IH [OF rest'(1), rule_format, OF refl] .
        with step False rest'(2) show ?thesis by (auto intro: alone_step)
      qed
    qed
  qed
  then show "read_all K pos w = returns (rest, w') \<Longrightarrow> ?thesis" by blast
qed

text \<open>
  The contract of a log that can be read in pieces: the pieces make up the rest of it.
\<close>

locale pieced_log =
  fixes api :: "'d log_api" and piece :: "'d log_piece" and sound :: "'d \<Rightarrow> bool"
  assumes pieces: "sound d \<Longrightarrow> log_rest api pos d = returns (rest, d') \<Longrightarrow>
      alone env api piece t (Reads_Log pos acc rv, m, d) (Sends (acc @ rest) rv, m, d')"
    and append_sound: "sound d \<Longrightarrow> log_append api bs d = returns d' \<Longrightarrow> sound d'"
    and seek_sound: "sound d \<Longrightarrow> log_seek api c x d = returns (pos, d') \<Longrightarrow> sound d'"
begin

lemma respond_alone:
  assumes "sound w" and "respond env api pos rv w = returns (res, w')"
  shows "alone env api piece t (Reads_Log pos [] rv, m, w) (Ended res, m, w')"
proof -
  obtain rest where rest: "log_rest api pos w = returns (rest, w')"
    "res = (let (out, rv') = send_loop env 0 rest [] rv in
       \<lparr>result_retval = (if close_error env then - 1 else rv'), sent = out, client_closed = True\<rparr>)"
    using assms(2) by (auto simp: respond_def bindC_eq_returns Let_def case_prod_unfold)
  have "alone env api piece t (Reads_Log pos [] rv, m, w) (Sends rest rv, m, w')"
    using pieces [OF assms(1) rest(1), where acc = "[]"] by simp
  moreover have "alone env api piece t (Sends rest rv, m, w') (Ended res, m, w')"
    by (rule alone_step [OF _ alone_refl]) (simp add: handler_step_def rest(2) case_prod_unfold Let_def)
  ultimately show ?thesis by (rule alone_trans)
qed

lemma handler_alone:
  assumes "sound w" and "handle_client env api answers w = returns (res, w')"
  shows "alone env api piece t (Receiving answers, None, w) (Ended res, None, w')"
proof -
  obtain st where st: "receive_all env answers = returns st"
    using assms(2) by (auto simp: handle_client_def receive_all_def bindC_eq_returns split: option.splits)
  show ?thesis
  proof (cases "ioctl_cmd_found st = 0")
    case True
    then obtain cmd offs pos w1 where "strtoul (drop CMD_IDENTIFIER_LEN (final_buffer st)) = returns cmd"
      "strtoul (drop (TOTAL_CMD_LEN - 1) (final_buffer st)) = returns offs" "fopen_a_ok env" "char_device env"
      "log_seek api (ucast cmd) (ucast offs) w = returns (pos, w1)"
      "respond env api pos (retval st) w1 = returns (res, w')"
      using assms(2) st
      by (auto simp: handle_client_def receive_all_def bindC_eq_returns split: option.splits if_splits)
    with True st seek_sound [OF assms(1)] show ?thesis
      by (intro alone_step [OF _ alone_step [OF _ respond_alone]]) (auto simp: handler_step_def)
  next
    case False
    then obtain rv w1 where w1: "(lock_error env \<and> rv = - 1 \<and> w1 = w) \<or>
        (\<not> lock_error env \<and> fopen_a_ok env \<and> \<not> length (final_buffer st) < unat (scast (total_bytes_recv st) :: u64) \<and>
         rv = retval st \<and>
         log_append api (take (unat (scast (total_bytes_recv st) :: u64)) (final_buffer st)) w = returns w1)"
      "fopen_r_ok env" "respond env api 0 rv w1 = returns (res, w')"
      using assms(2) st
      by (auto simp: handle_client_def receive_all_def bindC_eq_returns split: option.splits if_splits)
    have "sound w1" using w1(1) assms(1) append_sound by blast
    note rest = respond_alone [OF this w1(3)]
    have tail: "alone env api piece t (Opens_Log rv, None, w1) (Ended res, None, w')"
      using w1(2) by (auto intro!: alone_step [where c = "(Reads_Log 0 [] rv, None, w1)"] rest
          simp: handler_step_def)
    have "alone env api piece t (Wants_Log st, None, w) (Ended res, None, w')"
    proof (cases "lock_error env")
      case True
      with w1(1) tail show ?thesis by (auto intro!: alone_step [where c = "(Opens_Log (- 1), None, w)"] simp: handler_step_def)
    next
      case False
      with w1(1) show ?thesis
        by (intro alone_step [OF _ alone_step [OF _ alone_step [OF _ tail]]]) (auto simp: handler_step_def)
    qed
    with False st show ?thesis by (auto intro!: alone_step [where c = "(Wants_Log st, None, w)"] simp: handler_step_def)
  qed
qed

end

interpretation char_pieces: pieced_log "aesdchar_log K" "aesdchar_piece K" "\<lambda>w. True"
  by unfold_locales (auto simp: aesdchar_log_def intro: read_all_alone)

section \<open>All handlers\<close>

text \<open>The log, the holder of \<open>log_mutex\<close>, and the handler threads with their surroundings.\<close>

record 'd clients =
  log_file :: 'd
  holder :: "nat option"
  handlers :: "nat \<Rightarrow> (client_env \<times> handler) option"

definition clients_step :: "'d log_api \<Rightarrow> 'd log_piece \<Rightarrow> nat \<Rightarrow> 'd clients \<Rightarrow> 'd clients option comp" where
  "clients_step api piece t s =
     (case handlers s t of
        None \<Rightarrow> returns None
      | Some (env, ph) \<Rightarrow>
          bindC (handler_step env api piece t ph (holder s) (log_file s)) (\<lambda>r.
            returns (map_option (\<lambda>(ph', m', d').
              \<lparr>log_file = d', holder = m', handlers = (handlers s)(t \<mapsto> (env, ph'))\<rparr>) r)))"

text \<open>
  What is observed of a run: each write to the log, by which handler, with what the log stored
  before and after it.
\<close>

type_synonym 's append_event = "nat \<times> 's \<times> 's"

fun in_log :: "handler \<Rightarrow> bool" where
  "in_log (In_Log st) = True"
| "in_log _ = False"

definition append_of :: "('d \<Rightarrow> 's) \<Rightarrow> nat \<Rightarrow> 'd clients \<Rightarrow> 'd clients \<Rightarrow> 's append_event list" where
  "append_of store t s s' =
     (case handlers s t of
        Some (env, ph) \<Rightarrow> (if in_log ph then [(t, store (log_file s), store (log_file s'))] else [])
      | None \<Rightarrow> [])"

text \<open>New clients connect and send what \<open>ok\<close> allows; in between, any handler takes a step.\<close>

inductive clients_run ::
  "'d log_api \<Rightarrow> 'd log_piece \<Rightarrow> ('d \<Rightarrow> 's) \<Rightarrow> (nat \<Rightarrow> client_env \<Rightarrow> recv_answer list \<Rightarrow> bool) \<Rightarrow>
   'd clients \<Rightarrow> 's append_event list \<Rightarrow> 'd clients \<Rightarrow> bool" for api piece store ok s0 where
  run_start: "clients_run api piece store ok s0 [] s0"
| run_new: "clients_run api piece store ok s0 evs s \<Longrightarrow> handlers s t = None \<Longrightarrow> ok t env answers \<Longrightarrow>
    clients_run api piece store ok s0 evs (s\<lparr>handlers := (handlers s)(t \<mapsto> (env, Receiving answers))\<rparr>)"
| run_step: "clients_run api piece store ok s0 evs s \<Longrightarrow> clients_step api piece t s = returns (Some s') \<Longrightarrow>
    clients_run api piece store ok s0 (evs @ append_of store t s s') s'"

lemma clients_run_trans:
  "clients_run api piece store ok s1 fs s \<Longrightarrow> clients_run api piece store ok s0 es s1 \<Longrightarrow>
   clients_run api piece store ok s0 (es @ fs) s"
  by (induction rule: clients_run.induct) (auto intro: run_new run_step simp flip: append_assoc)

lemma clients_run_mono:
  "clients_run api piece store ok s0 es s \<Longrightarrow> (\<And>t env answers. ok t env answers \<Longrightarrow> ok' t env answers) \<Longrightarrow>
   clients_run api piece store ok' s0 es s"
  by (induction rule: clients_run.induct) (auto intro: run_start run_new run_step)

end
