(* ===== verification/Socket_Sharing.thy ===== *)
theory Socket_Sharing
  imports Socket_Clients
begin

text \<open>
  What the log holds and what each client gets back when any number of handlers interleave: the
  invariant of all handlers, a measure every step makes smaller, the contract \<open>shared_log\<close> of a log
  they share with its consequences, and the proof that the character device keeps that contract.
\<close>

section \<open>Clients that send one request each\<close>

definition plain_line :: "byte list \<Rightarrow> bool" where
  "plain_line bs \<longleftrightarrow> (\<exists>ls. bs = ls @ [newline] \<and> nul \<notin> set ls \<and> newline \<notin> set ls \<and> length ls < 511 \<and>
     take 19 bs \<noteq> ''AESDCHAR_IOCSEEKTO:'')"

text \<open>A seek command with a command number of one digit, for which the server parses both numbers.\<close>

definition seek_line :: "byte list \<Rightarrow> bool" where
  "seek_line bs \<longleftrightarrow> (\<exists>x ys. bs = ''AESDCHAR_IOCSEEKTO:'' @ [x, CHR '',''] @ ys @ [newline] \<and>
     is_digit x \<and> (\<forall>c \<in> set ys. is_digit c) \<and> ys \<noteq> [] \<and> length ys < 480)"

text \<open>
  Client \<open>t\<close> sends the request \<open>L t\<close>, a line to log or a seek command, in one piece; when \<open>L t\<close> is empty it
  closes the connection without sending anything, which the server treats like an empty line to log. A
  client that stays silent neither sends nor closes: its handler waits in \<open>recv\<close> for ever. When the
  others' data arrive is when their handlers' first step is taken.
\<close>

definition log_request :: "byte list \<Rightarrow> bool" where
  "log_request bs \<longleftrightarrow> plain_line bs \<or> bs = []"

text \<open>
  The build with an ordinary file knows no seek command, and appends whatever contains a newline. Here
  \<open>dev\<close> says that the log is the character device.
\<close>

definition text_piece :: "byte list \<Rightarrow> bool" where
  "text_piece bs \<longleftrightarrow> nul \<notin> set bs \<and> newline \<in> set bs \<and> length bs < 512"

definition loggable :: "bool \<Rightarrow> byte list \<Rightarrow> bool" where
  "loggable dev bs \<longleftrightarrow> (if dev then log_request bs else text_piece bs \<or> bs = [])"

lemma loggable_device [simp]: "loggable True bs = log_request bs"
  by (simp add: loggable_def)

lemma plain_text_piece: "plain_line bs \<Longrightarrow> text_piece bs"
  by (auto simp: plain_line_def text_piece_def)

definition first_answer :: "byte list \<Rightarrow> recv_answer" where
  "first_answer bs = (if bs = [] then Recv_Closed else Recv bs)"

text \<open>The environment of client \<open>t\<close> and what it may send.\<close>

definition client_ok :: "bool \<Rightarrow> (nat \<Rightarrow> byte list) \<Rightarrow> nat \<Rightarrow> client_env \<Rightarrow> bool" where
  "client_ok dev L t env \<longleftrightarrow> smooth env \<and> char_device env = dev \<and> (loggable dev (L t) \<or> dev \<and> seek_line (L t))"

lemma client_okD:
  assumes "client_ok dev L t env"
  shows "smooth env" and "char_device env = dev" and "\<not> loggable dev (L t) \<Longrightarrow> dev \<and> seek_line (L t)"
  using assms by (auto simp: client_ok_def)

definition sends_request :: "bool \<Rightarrow> (nat \<Rightarrow> byte list) \<Rightarrow> nat \<Rightarrow> client_env \<Rightarrow> recv_answer list \<Rightarrow> bool" where
  "sends_request dev L t env answers \<longleftrightarrow>
     client_ok dev L t env \<and> (answers = [] \<or> (\<exists>later. answers = first_answer (L t) # later))"

definition loaded :: "client_state \<Rightarrow> byte list \<Rightarrow> bool" where
  "loaded st bs \<longleftrightarrow> retval st = 0 \<and> unat (scast (total_bytes_recv st) :: u64) \<le> length (final_buffer st) \<and>
     take (unat (scast (total_bytes_recv st) :: u64)) (final_buffer st) = bs"

lemma receive_request:
  assumes env: "smooth env" and bs: "nul \<notin> set bs" "newline \<in> set bs" "length bs < 512"
  obtains st where "receive_all env (Recv bs # later) = returns st" and "loaded st bs"
    and "final_buffer st = bs @ [nul]" and "ioctl_cmd_found st = 0 \<longleftrightarrow> char_device env \<and> take 19 bs = ''AESDCHAR_IOCSEEKTO:''"
proof -
  obtain blk where blk: "malloc_answer env = Some blk" "length blk = 1"
    using env by (auto simp: smooth_def env_laws_def)
  then have nul: "blk[0 := nul] = [nul]" by (cases blk) auto
  obtain r where r: "bs @ drop (length bs) (replicate 512 nul) = bs @ nul # r" using line_buffer [OF bs(3)] by blast
  obtain cmp where loop: "receive_loop env (Recv bs # later) start_state =
      returns (start_state\<lparr>recv_buf := bs @ nul # r, final_buffer := bs @ [nul],
        total_bytes_recv := of_nat (length bs), ioctl_cmd_found := cmp, more_bytes_to_read := False\<rparr>)"
    and "cmp = 0 \<longleftrightarrow> char_device env \<and> take 19 bs = ''AESDCHAR_IOCSEEKTO:''"
    using receive_piece [OF env bs r, of later] by metis
  moreover have "unat (scast (of_nat (length bs) :: i32) :: u64) = length bs"
    using bs(3) by (intro total_value) simp
  ultimately show thesis
    using that blk nul by (simp add: receive_all_def loaded_def)
qed

lemma receive_nothing:
  assumes "smooth env"
  obtains st where "receive_all env (Recv_Closed # later) = returns st" and "ioctl_cmd_found st \<noteq> 0" and "loaded st []"
proof -
  obtain blk where blk: "malloc_answer env = Some blk" "length blk = 1"
    using assms by (auto simp: smooth_def env_laws_def)
  then have "blk[0 := nul] = [nul]" by (cases blk) auto
  with blk have "receive_all env (Recv_Closed # later) = returns (start_state\<lparr>more_bytes_to_read := False\<rparr>)"
    by (simp add: receive_all_def receive_loop.simps)
  then show thesis using that by (simp add: loaded_def)
qed

lemma receive_line:
  assumes "smooth env" and "loggable (char_device env) bs"
  obtains st where "receive_all env (first_answer bs # later) = returns st" and "ioctl_cmd_found st \<noteq> 0" and "loaded st bs"
proof (cases "bs = []")
  case True
  with receive_nothing [OF assms(1)] that show thesis by (metis first_answer_def)
next
  case False
  then have "text_piece bs" "char_device env \<longrightarrow> take 19 bs \<noteq> ''AESDCHAR_IOCSEEKTO:''"
    using assms(2) plain_text_piece by (auto simp: loggable_def log_request_def plain_line_def split: if_splits)
  then have "nul \<notin> set bs" "newline \<in> set bs" "length bs < 512" "char_device env \<longrightarrow> take 19 bs \<noteq> ''AESDCHAR_IOCSEEKTO:''"
    by (simp_all add: text_piece_def)
  with False receive_request [OF assms(1), of bs later] that show thesis by (metis first_answer_def)
qed

lemma receive_seek:
  assumes "smooth env" and "char_device env" and "seek_line bs"
  obtains st where "receive_all env (Recv bs # later) = returns st" and "ioctl_cmd_found st = 0" and "retval st = 0"
    and "final_buffer st = bs @ [nul]"
proof -
  obtain x ys where "bs = ''AESDCHAR_IOCSEEKTO:'' @ [x, CHR '',''] @ ys @ [newline]" "is_digit x"
      "\<forall>c \<in> set ys. is_digit c" "length ys < 480"
    using assms(3) by (auto simp: seek_line_def)
  moreover from this not_digits have "nul \<notin> set ys" "x \<noteq> nul" by blast+
  ultimately have bs: "nul \<notin> set bs" "newline \<in> set bs" "length bs < 512" "take 19 bs = ''AESDCHAR_IOCSEEKTO:''"
    by simp_all
  obtain st where "receive_all env (Recv bs # later) = returns st" "loaded st bs"
      "final_buffer st = bs @ [nul]" "ioctl_cmd_found st = 0 \<longleftrightarrow> char_device env \<and> take 19 bs = ''AESDCHAR_IOCSEEKTO:''"
    using receive_request [OF assms(1) bs(1-3)] .
  with bs(4) assms(2) that show thesis by (simp add: loaded_def)
qed

text \<open>The two numbers of a seek command.\<close>

lemma seek_numbers:
  assumes "seek_line bs"
  obtains c offs where "strtoul (drop CMD_IDENTIFIER_LEN (bs @ [nul])) = returns c"
    and "strtoul (drop (TOTAL_CMD_LEN - 1) (bs @ [nul])) = returns offs" and "unat (ucast c :: u32) < 10"
proof -
  obtain x ys where bs: "bs = ''AESDCHAR_IOCSEEKTO:'' @ [x, CHR '',''] @ ys @ [newline]"
    and x: "is_digit x" and ys: "\<forall>c \<in> set ys. is_digit c" "ys \<noteq> []" "length ys < 480"
    using assms by (auto simp: seek_line_def)
  have "strtoul ([x] @ CHR '','' # (ys @ [newline, nul])) = returns (of_nat (decimal [x]))"
    using x one_digit [of x] by (subst strtoul_digits) (auto simp: not_digits ULONG_MAX_def)
  moreover have "strtoul (ys @ newline # [nul]) = returns (of_nat (min (decimal ys) ULONG_MAX))"
    using ys by (subst strtoul_digits) (auto simp: not_digits)
  moreover have "unat (ucast (of_nat (decimal [x]) :: u64) :: u32) < 10"
    using one_digit [OF x] by (simp add: ucast_small unat_of_nat take_bit_nat_eq_self)
  ultimately show thesis using that bs by (simp add: CMD_IDENTIFIER_LEN_def TOTAL_CMD_LEN_def)
qed

lemma log_is_no_seek: "log_request bs \<Longrightarrow> \<not> seek_line bs"
  by (auto simp: log_request_def plain_line_def seek_line_def)

lemma seek_answer: "seek_line bs \<Longrightarrow> first_answer bs = Recv bs"
  by (auto simp: first_answer_def seek_line_def)

text \<open>The store after a sequence of writes, and what a sequence must look like.\<close>

fun store_after :: "'s \<Rightarrow> 's append_event list \<Rightarrow> 's" where
  "store_after x [] = x"
| "store_after x ((t, a, b) # es) = store_after b es"

fun chained :: "(byte list \<Rightarrow> 's \<Rightarrow> 's) \<Rightarrow> (nat \<Rightarrow> byte list) \<Rightarrow> 's \<Rightarrow> 's append_event list \<Rightarrow> bool" where
  "chained add_line L x [] \<longleftrightarrow> True"
| "chained add_line L x ((t, a, b) # es) \<longleftrightarrow> a = x \<and> (b = add_line (L t) a \<or> b = a) \<and> chained add_line L b es"

lemma store_after_append [simp]: "store_after x (es @ fs) = store_after (store_after x es) fs"
  by (induction x es rule: store_after.induct) simp_all

lemma chained_append [simp]:
  "chained add_line L x (es @ fs) \<longleftrightarrow> chained add_line L x es \<and> chained add_line L (store_after x es) fs"
  by (induction add_line L x es rule: chained.induct) auto

text \<open>Every write has kept the text and put something behind it.\<close>

definition growing :: "('s \<Rightarrow> byte list) \<Rightarrow> 's append_event list \<Rightarrow> bool" where
  "growing text_of es \<longleftrightarrow> (\<forall>(t, a, b) \<in> set es. \<exists>x. text_of b = text_of a @ x)"

text \<open>
  For a client that sent a line, \<open>out\<close> is the whole text of a moment after the line was written; for
  one that sent a seek command it is the text of one moment from some byte on.
\<close>

definition answered :: "bool \<Rightarrow> ('s \<Rightarrow> byte list) \<Rightarrow> 's \<Rightarrow> 's append_event list \<Rightarrow> nat \<Rightarrow> byte list \<Rightarrow> bool" where
  "answered whole text_of x es t out \<longleftrightarrow>
     (\<exists>es1 es2 start. es = es1 @ es2 \<and> (whole \<longrightarrow> t \<in> fst ` set es1 \<and> start = 0) \<and>
        out = drop start (text_of (store_after x es1)))"

text \<open>A reader at \<open>pos\<close> has read \<open>acc\<close>: the text from where it started up to there.\<close>

definition part_read :: "bool \<Rightarrow> i64 \<Rightarrow> byte list \<Rightarrow> byte list \<Rightarrow> bool" where
  "part_read whole pos acc text \<longleftrightarrow>
     (\<exists>start. (whole \<longrightarrow> start = 0) \<and> unat pos = start + length acc \<and> acc = take (length acc) (drop start text))"

lemma part_read_start [simp]: "part_read whole 0 [] text" "part_read False pos [] text"
  by (simp_all add: part_read_def)

lemma part_read_more:
  assumes "part_read whole pos acc text" and "unat pos' = unat pos + length bs"
    and "bs = take (length bs) (drop (unat pos) text)"
  shows "part_read whole pos' (acc @ bs) text"
proof -
  obtain start where start: "whole \<longrightarrow> start = 0" "unat pos = start + length acc" "acc = take (length acc) (drop start text)"
    using assms(1) by (auto simp: part_read_def)
  have "acc @ bs = take (length (acc @ bs)) (drop start text)"
    using assms(3) start(2,3) by (simp add: take_add add.commute)
  moreover have "unat pos' = start + length (acc @ bs)" using start(2) assms(2) by simp
  ultimately show ?thesis using start(1) unfolding part_read_def by blast
qed

lemma part_read_longer:
  assumes "part_read whole pos acc text"
  shows "part_read whole pos acc (text @ y)"
proof -
  obtain start where start: "whole \<longrightarrow> start = 0" "unat pos = start + length acc" "acc = take (length acc) (drop start text)"
    using assms by (auto simp: part_read_def)
  then have "length acc \<le> length (drop start text)" by (metis length_take min.absorb_iff2)
  with start(3) have "acc = take (length acc) (drop start (text @ y))" by simp
  with start(1,2) show ?thesis unfolding part_read_def by blast
qed

lemma part_read_answered:
  assumes "part_read whole pos acc (text_of (store_after x es))" and "length (text_of (store_after x es)) \<le> unat pos"
    and "whole \<longrightarrow> t \<in> fst ` set es"
  shows "answered whole text_of x es t acc"
proof -
  obtain start where start: "whole \<longrightarrow> start = 0" "unat pos = start + length acc"
      "acc = take (length acc) (drop start (text_of (store_after x es)))"
    using assms(1) by (auto simp: part_read_def)
  then have "acc = drop start (text_of (store_after x es))" using assms(2) by simp
  with start(1) assms(3) show ?thesis
    unfolding answered_def by (intro exI [of _ es] exI [of _ "[]"] exI [of _ start]) simp
qed

fun holds_log :: "handler \<Rightarrow> bool" where
  "holds_log (In_Log st) = True"
| "holds_log (Leaves_Log rv) = True"
| "holds_log _ = False"

text \<open>The invariant of handler \<open>t\<close>, where \<open>text\<close> is the text of the log now.\<close>

fun handler_inv :: "bool \<Rightarrow> (nat \<Rightarrow> byte list) \<Rightarrow> ('s \<Rightarrow> byte list) \<Rightarrow> 's \<Rightarrow> 's append_event list \<Rightarrow> byte list \<Rightarrow> nat \<Rightarrow> handler \<Rightarrow> bool" where
  "handler_inv dev L text_of x es text t (Receiving answers) \<longleftrightarrow>
     (answers = [] \<or> (\<exists>later. answers = first_answer (L t) # later)) \<and> t \<notin> fst ` set es"
| "handler_inv dev L text_of x es text t (Wants_Log st) \<longleftrightarrow> loggable dev (L t) \<and> loaded st (L t) \<and> t \<notin> fst ` set es"
| "handler_inv dev L text_of x es text t (In_Log st) \<longleftrightarrow> loggable dev (L t) \<and> loaded st (L t) \<and> t \<notin> fst ` set es"
| "handler_inv dev L text_of x es text t (Leaves_Log rv) \<longleftrightarrow> rv = 0 \<and> t \<in> fst ` set es"
| "handler_inv dev L text_of x es text t (Opens_Log rv) \<longleftrightarrow> rv = 0 \<and> t \<in> fst ` set es"
| "handler_inv dev L text_of x es text t (Seeks st) \<longleftrightarrow>
     dev \<and> seek_line (L t) \<and> retval st = 0 \<and> final_buffer st = L t @ [nul]"
| "handler_inv dev L text_of x es text t (Reads_Log pos acc rv) \<longleftrightarrow> rv = 0 \<and> (loggable dev (L t) \<longrightarrow> t \<in> fst ` set es) \<and>
     (growing text_of es \<longrightarrow> part_read (loggable dev (L t)) pos acc text)"
| "handler_inv dev L text_of x es text t (Sends acc rv) \<longleftrightarrow> rv = 0 \<and> (loggable dev (L t) \<longrightarrow> t \<in> fst ` set es) \<and>
     (growing text_of es \<longrightarrow> answered (loggable dev (L t)) text_of x es t acc)"
| "handler_inv dev L text_of x es text t (Ended res) \<longleftrightarrow>
     result_retval res = 0 \<and> client_closed res \<and> (loggable dev (L t) \<longrightarrow> t \<in> fst ` set es) \<and>
     (growing text_of es \<longrightarrow> answered (loggable dev (L t)) text_of x es t (sent res))"

lemma growing_append: "growing text_of (es @ fs) \<longleftrightarrow> growing text_of es \<and> growing text_of fs"
  by (simp add: growing_def ball_Un)

lemma answered_more:
  assumes "answered whole text_of x es t out"
  shows "answered whole text_of x (es @ fs) t out"
proof -
  obtain es1 es2 start where "es = es1 @ es2" "whole \<longrightarrow> t \<in> fst ` set es1 \<and> start = 0"
    "out = drop start (text_of (store_after x es1))"
    using assms unfolding answered_def by blast
  then show ?thesis
    unfolding answered_def by (intro exI [of _ es1] exI [of _ "es2 @ fs"] exI [of _ start]) simp
qed

text \<open>A write by another handler keeps it.\<close>

lemma handler_inv_other:
  assumes "handler_inv dev L text_of x es (text_of a) u ph" and "u \<noteq> t"
  shows "handler_inv dev L text_of x (es @ [(t, a, b)]) (text_of b) u ph"
proof (cases ph)
  case (Reads_Log pos acc rv)
  have "part_read (loggable dev (L u)) pos acc (text_of b)" if g: "growing text_of (es @ [(t, a, b)])"
  proof -
    obtain y where "text_of b = text_of a @ y" using g by (auto simp: growing_def)
    moreover have "part_read (loggable dev (L u)) pos acc (text_of a)" using g assms(1) Reads_Log by (auto simp: growing_append)
    ultimately show ?thesis by (simp add: part_read_longer)
  qed
  with assms Reads_Log show ?thesis by auto
qed (use assms in \<open>auto simp: growing_append answered_more\<close>)

section \<open>A log that handlers share\<close>

text \<open>The invariant of all handlers after the writes \<open>es\<close>.\<close>

definition clients_inv ::
  "bool \<Rightarrow> ('d \<Rightarrow> bool) \<Rightarrow> ('d \<Rightarrow> 's) \<Rightarrow> (byte list \<Rightarrow> 's \<Rightarrow> 's) \<Rightarrow> ('s \<Rightarrow> byte list) \<Rightarrow> (nat \<Rightarrow> byte list) \<Rightarrow> 's \<Rightarrow>
   's append_event list \<Rightarrow> 'd clients \<Rightarrow> bool" where
  "clients_inv dev ready store add_line text_of L x es s \<longleftrightarrow>
     ready (log_file s) \<and> store (log_file s) = store_after x es \<and> chained add_line L x es \<and> distinct (map fst es) \<and>
     (\<forall>t \<in> fst ` set es. handlers s t \<noteq> None \<and> loggable dev (L t)) \<and>
     (\<forall>t env ph. handlers s t = Some (env, ph) \<longrightarrow> client_ok dev L t env \<and>
        handler_inv dev L text_of x es (text_of (store (log_file s))) t ph) \<and>
     (\<forall>t. holder s = Some t \<longleftrightarrow> (\<exists>env ph. handlers s t = Some (env, ph) \<and> holds_log ph)) \<and>
     finite (dom (handlers s))"

lemma clients_invD:
  assumes "clients_inv dev ready store add_line text_of L x es s"
  shows "ready (log_file s)" and "store (log_file s) = store_after x es" and "chained add_line L x es"
    and "distinct (map fst es)" and "t \<in> fst ` set es \<Longrightarrow> handlers s t \<noteq> None \<and> loggable dev (L t)"
    and "handlers s t = Some (env, ph) \<Longrightarrow> client_ok dev L t env \<and>
      handler_inv dev L text_of x es (text_of (store (log_file s))) t ph"
    and "holder s = Some t \<longleftrightarrow> (\<exists>env ph. handlers s t = Some (env, ph) \<and> holds_log ph)"
    and "finite (dom (handlers s))"
  using assms unfolding clients_inv_def by blast+

text \<open>A handler whose client stays silent.\<close>

definition silent :: "'d clients \<Rightarrow> nat \<Rightarrow> bool" where
  "silent s t \<longleftrightarrow> (\<exists>env. handlers s t = Some (env, Receiving []))"

lemma receive_silence: "smooth env \<Longrightarrow> receive_all env [] = None"
proof -
  assume "smooth env"
  then obtain blk where blk: "malloc_answer env = Some blk" "length blk = 1"
    by (auto simp: smooth_def env_laws_def)
  then show ?thesis by (cases blk) (simp_all add: receive_all_def receive_loop.simps)
qed

lemma receiving_is_first:
  "handler_step env api piece t ph m d = returns (Some (ph', m', d')) \<Longrightarrow> ph' \<noteq> Receiving answers"
  by (cases ph) (auto simp: handler_step_def bindC_eq_returns Let_def split: option.splits sum.splits if_splits prod.splits)

lemma still_heard: "clients_step api piece t s = returns (Some s') \<Longrightarrow> \<forall>t. \<not> silent s t \<Longrightarrow> \<forall>t. \<not> silent s' t"
  using receiving_is_first by (fastforce simp: silent_def clients_step_def bindC_eq_returns split: option.splits if_splits)

text \<open>Before any client has come.\<close>

definition no_clients :: "('d \<Rightarrow> bool) \<Rightarrow> 'd clients \<Rightarrow> bool" where
  "no_clients ready s \<longleftrightarrow> ready (log_file s) \<and> holder s = None \<and> handlers s = Map.empty"

text \<open>
  A measure every step makes smaller: first the steps up to the write to the log, which may make
  the text longer, then the steps from there on, with the bytes still to be read.
\<close>

fun before_write :: "handler \<Rightarrow> nat" where
  "before_write (Receiving answers) = 3"
| "before_write (Wants_Log st) = 2"
| "before_write (In_Log st) = 1"
| "before_write _ = 0"

fun after_write :: "nat \<Rightarrow> handler \<Rightarrow> nat" where
  "after_write n (Leaves_Log rv) = n + 4"
| "after_write n (Opens_Log rv) = n + 3"
| "after_write n (Seeks st) = n + 3"
| "after_write n (Reads_Log pos acc rv) = n - unat pos + 2"
| "after_write n (Sends acc rv) = 1"
| "after_write n _ = 0"

definition phase_at :: "'d clients \<Rightarrow> nat \<Rightarrow> handler" where
  "phase_at s t = snd (the (handlers s t))"

definition steps_left :: "nat \<Rightarrow> 'd clients \<Rightarrow> nat \<times> nat" where
  "steps_left n s = ((\<Sum>t \<in> dom (handlers s). before_write (phase_at s t)),
                     (\<Sum>t \<in> dom (handlers s). after_write n (phase_at s t)))"

lemma sum_one_less:
  fixes f g :: "'a \<Rightarrow> nat"
  assumes "finite A" and "t \<in> A" and "\<And>u. u \<noteq> t \<Longrightarrow> f u = g u"
  shows "sum f A < sum g A \<longleftrightarrow> f t < g t" and "sum f A = sum g A \<longleftrightarrow> f t = g t"
  using assms by (simp_all add: sum.remove [of A t] sum.cong [of "A - {t}" "A - {t}" f g])

lemma steps_left_less:
  assumes "finite (dom (handlers s))" and "handlers s t = Some (env, ph)" and "handlers s' = (handlers s)(t \<mapsto> (env, ph'))"
    and "before_write ph' < before_write ph \<or> before_write ph' = before_write ph \<and> n' = n \<and> after_write n ph' < after_write n ph"
  shows "(steps_left n' s', steps_left n s) \<in> less_than <*lex*> less_than"
proof -
  have dom: "dom (handlers s') = dom (handlers s)" "t \<in> dom (handlers s)" using assms(2,3) by auto
  have other: "phase_at s' u = phase_at s u" if "u \<noteq> t" for u using that assms(3) by (simp add: phase_at_def)
  have "phase_at s' t = ph'" "phase_at s t = ph" using assms(2,3) by (simp_all add: phase_at_def)
  then show ?thesis
    using assms(4) sum_one_less [OF assms(1) dom(2), of "\<lambda>u. before_write (phase_at s' u)" "\<lambda>u. before_write (phase_at s u)"]
      sum_one_less [OF assms(1) dom(2), of "\<lambda>u. after_write n (phase_at s' u)" "\<lambda>u. after_write n (phase_at s u)"] other
    by (auto simp: steps_left_def dom(1))
qed

locale shared_log = line_log api ready store add_line text_of
  for api :: "'d log_api" and ready and store :: "'d \<Rightarrow> 's" and add_line and text_of +
  fixes piece :: "'d log_piece" and dev :: bool
  assumes piece_ok: "ready d \<Longrightarrow> \<exists>eof bs pos' d'. piece pos d = returns (eof, bs, pos', d') \<and> ready d' \<and> store d' = store d \<and>
      (if eof then length (text_of (store d)) \<le> unat pos
       else bs \<noteq> [] \<and> unat pos' = unat pos + length bs \<and> bs = take (length bs) (drop (unat pos) (text_of (store d))))"
    and append_request: "ready d \<Longrightarrow> loggable dev bs \<Longrightarrow> \<exists>d'. log_append api bs d = returns d' \<and> ready d' \<and>
      (store d' = add_line bs (store d) \<or> store d' = store d)"
    and seek_ok: "ready d \<Longrightarrow> unat c < 10 \<Longrightarrow> \<exists>pos d'. log_seek api c offs d = returns (pos, d') \<and> ready d' \<and> store d' = store d"
begin

text \<open>
  What one step of a handler does, when the invariant holds: first the steps that can do more than one
  thing, and what it means that such a step keeps the invariant.
\<close>

abbreviation good_move where
  "good_move L x es t ph m d ph' m' d' \<equiv> ready d' \<and>
     handler_inv dev L text_of x (es @ (if in_log ph then [(t, store d, store d')] else [])) (text_of (store d')) t ph' \<and>
     (store d' = store d \<or> in_log ph \<and> store d' = add_line (L t) (store d)) \<and>
     m' = (if holds_log ph' then Some t else if holds_log ph then None else m) \<and>
     (holds_log ph' \<longrightarrow> holds_log ph \<or> m = None) \<and> (in_log ph \<longrightarrow> t \<notin> fst ` set es)"

lemma receiving_moves:
  assumes d: "ready d" and env: "client_ok dev L t env" and later: "t \<notin> fst ` set es"
  shows "\<exists>ph'. handler_step env api piece t (Receiving (first_answer (L t) # later)) m d = returns (Some (ph', m, d)) \<and>
    good_move L x es t (Receiving (first_answer (L t) # later)) m d ph' m d"
proof (cases "loggable dev (L t)")
  case True
  then obtain st where st: "receive_all env (first_answer (L t) # later) = returns st" "ioctl_cmd_found st \<noteq> 0" "loaded st (L t)"
    using receive_line [OF client_okD(1) [OF env], of "L t" later] client_okD(2) [OF env] by auto
  then have "handler_step env api piece t (Receiving (first_answer (L t) # later)) m d = returns (Some (Wants_Log st, m, d))"
    by (simp add: handler_step_def)
  with st(3) True assms show ?thesis by simp
next
  case False
  note seek = client_okD(3) [OF env False]
  then obtain st where st: "receive_all env (first_answer (L t) # later) = returns st" "ioctl_cmd_found st = 0" "retval st = 0"
      "final_buffer st = L t @ [nul]"
    using receive_seek [OF client_okD(1) [OF env], of "L t" later] client_okD(2) [OF env] by (auto simp: seek_answer)
  then have "handler_step env api piece t (Receiving (first_answer (L t) # later)) m d = returns (Some (Seeks st, m, d))"
    by (simp add: handler_step_def)
  with st(3,4) False seek d show ?thesis by simp
qed

lemma seeking_moves:
  assumes d: "ready d" and env: "client_ok dev L t env" and inv: "handler_inv dev L text_of x es text t (Seeks st)"
  shows "\<exists>ph' d'. handler_step env api piece t (Seeks st) m d = returns (Some (ph', m, d')) \<and>
    good_move L x es t (Seeks st) m d ph' m d'"
proof -
  have st: "seek_line (L t)" "retval st = 0" "final_buffer st = L t @ [nul]" using inv by simp_all
  then obtain c offs where num: "strtoul (drop CMD_IDENTIFIER_LEN (final_buffer st)) = returns c"
      "strtoul (drop (TOTAL_CMD_LEN - 1) (final_buffer st)) = returns offs" "unat (ucast c :: u32) < 10"
    using seek_numbers [OF st(1)] by metis
  obtain pos d' where p: "log_seek api (ucast c) (ucast offs) d = returns (pos, d')" "ready d'" "store d' = store d"
    using seek_ok [OF d num(3)] by blast
  have no: "\<not> loggable dev (L t)" using log_is_no_seek st(1) inv by auto
  moreover have "handler_step env api piece t (Seeks st) m d = returns (Some (Reads_Log pos [] 0, m, d'))"
    using num(1,2) p(1) st(2) client_okD(1,2) [OF env] inv by (simp add: handler_step_def smooth_def)
  ultimately show ?thesis using p(2,3) by simp
qed

lemma reading_moves:
  assumes d: "ready d" "store d = store_after x es"
    and inv: "handler_inv dev L text_of x es (text_of (store d)) t (Reads_Log pos acc rv)"
  shows "\<exists>ph' d'. handler_step env api piece t (Reads_Log pos acc rv) m d = returns (Some (ph', m, d')) \<and>
    good_move L x es t (Reads_Log pos acc rv) m d ph' m d'"
proof -
  obtain eof bs pos' d' where p: "piece pos d = returns (eof, bs, pos', d')" "ready d'" "store d' = store d"
    "if eof then length (text_of (store d)) \<le> unat pos
     else bs \<noteq> [] \<and> unat pos' = unat pos + length bs \<and> bs = take (length bs) (drop (unat pos) (text_of (store d)))"
    using piece_ok [OF d(1), of pos] by blast
  show ?thesis
  proof (cases eof)
    case True
    have "answered (loggable dev (L t)) text_of x es t acc" if "growing text_of es"
      using that inv True p(4) d(2) by (intro part_read_answered) auto
    with True p inv show ?thesis by (auto simp: handler_step_def)
  next
    case False
    have "part_read (loggable dev (L t)) pos' (acc @ bs) (text_of (store d))" if "growing text_of es"
      using that inv False p(4) by (intro part_read_more) auto
    then have "handler_inv dev L text_of x es (text_of (store d)) t (Reads_Log pos' (acc @ bs) rv)"
      using inv unfolding handler_inv.simps by blast
    moreover have "handler_step env api piece t (Reads_Log pos acc rv) m d = returns (Some (Reads_Log pos' (acc @ bs) rv, m, d'))"
      using False p(1) by (simp add: handler_step_def)
    ultimately show ?thesis using p(2,3) by (simp del: handler_inv.simps)
  qed
qed

lemma writing_moves:
  assumes d: "ready d" and env: "smooth env" and inv: "handler_inv dev L text_of x es text t (In_Log st)" and m: "m = Some t"
  shows "\<exists>ph' d'. handler_step env api piece t (In_Log st) m d = returns (Some (ph', m, d')) \<and>
    good_move L x es t (In_Log st) m d ph' m d'"
proof -
  have st: "retval st = 0" "\<not> length (final_buffer st) < unat (scast (total_bytes_recv st) :: u64)"
    "take (unat (scast (total_bytes_recv st) :: u64)) (final_buffer st) = L t" "t \<notin> fst ` set es"
    using inv by (auto simp: loaded_def)
  have "loggable dev (L t)" using inv by simp
  then obtain d' where "log_append api (L t) d = returns d'" "ready d'" "store d' = add_line (L t) (store d) \<or> store d' = store d"
    using append_request [OF d] by blast
  with st env m show ?thesis by (auto simp: handler_step_def smooth_def)
qed

lemma handler_moves:
  assumes d: "ready d" "store d = store_after x es" and env: "client_ok dev L t env"
    and inv: "handler_inv dev L text_of x es (text_of (store d)) t ph" and m: "holds_log ph \<longrightarrow> m = Some t"
  shows "handler_step env api piece t ph m d = returns None \<and>
      ((\<exists>res. ph = Ended res) \<or> ph = Receiving [] \<or> (\<exists>st. ph = Wants_Log st) \<and> m \<noteq> None) \<or>
    (\<exists>ph' m' d'. handler_step env api piece t ph m d = returns (Some (ph', m', d')) \<and> good_move L x es t ph m d ph' m' d')"
proof (cases ph)
  case (Receiving answers)
  show ?thesis
  proof (cases "answers = []")
    case True
    with Receiving receive_silence [OF client_okD(1) [OF env]] show ?thesis by (simp add: handler_step_def)
  next
    case False
    with Receiving inv obtain later where "answers = first_answer (L t) # later" "t \<notin> fst ` set es" by auto
    with receiving_moves [where L = L and t = t, OF d(1) env, of es later m x] Receiving show ?thesis by blast
  qed
next
  case (Wants_Log st)
  with inv d client_okD(1) [OF env] show ?thesis by (cases m) (auto simp: handler_step_def smooth_def)
next
  case (In_Log st)
  then have "m = Some t" using m by simp
  from writing_moves [OF d(1) client_okD(1) [OF env] inv [unfolded In_Log] this] In_Log show ?thesis by blast
next
  case (Leaves_Log rv)
  with inv d m show ?thesis by (auto simp: handler_step_def)
next
  case (Opens_Log rv)
  with inv d client_okD(1) [OF env] show ?thesis by (auto simp: handler_step_def smooth_def)
next
  case (Seeks st)
  from seeking_moves [OF d(1) env inv [unfolded Seeks]] Seeks show ?thesis by blast
next
  case (Reads_Log pos acc rv)
  from reading_moves [OF d inv [unfolded Reads_Log]] Reads_Log show ?thesis by blast
next
  case (Sends acc rv)
  with inv d client_okD(1) [OF env] show ?thesis by (auto simp: handler_step_def send_loop_smooth) (auto simp: smooth_def)
qed (simp add: handler_step_def)

lemma clients_step_moves:
  assumes inv: "clients_inv dev ready store add_line text_of L x es s" and ph: "handlers s t = Some (env, ph)"
  shows "clients_step api piece t s = returns None \<and>
      ((\<exists>res. ph = Ended res) \<or> ph = Receiving [] \<or> (\<exists>st. ph = Wants_Log st) \<and> holder s \<noteq> None) \<or>
    (\<exists>s'. clients_step api piece t s = returns (Some s') \<and>
      clients_inv dev ready store add_line text_of L x (es @ append_of store t s s') s')"
proof -
  note D = clients_invD [OF inv]
  have t: "client_ok dev L t env" "handler_inv dev L text_of x es (text_of (store (log_file s))) t ph"
    using D(6) [OF ph] by simp_all
  have m: "holds_log ph \<longrightarrow> holder s = Some t" using D(7) ph by blast
  let ?step = "handler_step env api piece t ph (holder s) (log_file s)"
  consider (blocked) "?step = returns None" "(\<exists>res. ph = Ended res) \<or> ph = Receiving [] \<or> (\<exists>st. ph = Wants_Log st) \<and> holder s \<noteq> None"
    | (moved) ph' m' d' where "?step = returns (Some (ph', m', d'))" and "ready d'"
      and "handler_inv dev L text_of x (es @ (if in_log ph then [(t, store (log_file s), store d')] else [])) (text_of (store d')) t ph'"
      and "m' = (if holds_log ph' then Some t else if holds_log ph then None else holder s)"
      and "holds_log ph' \<longrightarrow> holds_log ph \<or> holder s = None" and "in_log ph \<longrightarrow> t \<notin> fst ` set es"
      and "store d' = store (log_file s) \<or> in_log ph \<and> store d' = add_line (L t) (store (log_file s))"
    using handler_moves [OF D(1,2) t m] by blast
  then show ?thesis
  proof cases
    case blocked
    then show ?thesis using ph by (simp add: clients_step_def)
  next
    case (moved ph' m' d')
    note step = moved(1) and d' = moved(2) and h' = moved(3) and m' = moved(4) and enter = moved(5) and fresh = moved(6) and st = moved(7)
    let ?e = "if in_log ph then [(t, store (log_file s), store d')] else []"
    let ?s = "\<lparr>log_file = d', holder = m', handlers = (handlers s)(t \<mapsto> (env, ph'))\<rparr>"
    have "store d' = store_after x (es @ ?e)" "chained add_line L x (es @ ?e)"
      using D(2,3) st by auto
    moreover have "distinct (map fst (es @ ?e))" using D(4) fresh by auto
    moreover have "handler_inv dev L text_of x (es @ ?e) (text_of (store d')) u ph2" if "handlers s u = Some (env2, ph2)" "u \<noteq> t" for u env2 ph2
    proof (cases "in_log ph")
      case True
      with handler_inv_other [of dev L text_of x es "store (log_file s)" u ph2 t "store d'"] D(6) that show ?thesis by auto
    next
      case False
      with st D(6) that show ?thesis by auto
    qed
    moreover have "m' = Some u \<longleftrightarrow> (\<exists>env2 ph2. ((handlers s)(t \<mapsto> (env, ph'))) u = Some (env2, ph2) \<and> holds_log ph2)" for u
      using m' enter D(7) [of u] D(7) [of t] ph by auto
    moreover have "\<forall>u \<in> fst ` set (es @ ?e). ((handlers s)(t \<mapsto> (env, ph'))) u \<noteq> None \<and> loggable dev (L u)"
      using D(5) t(2) by (cases ph) auto
    ultimately have "clients_inv dev ready store add_line text_of L x (es @ ?e) ?s"
      using d' h' t(1) D(6,8) unfolding clients_inv_def by auto
    moreover have "clients_step api piece t s = returns (Some ?s)" using ph step by (simp add: clients_step_def)
    moreover have "append_of store t s ?s = ?e" using ph by (simp add: append_of_def)
    ultimately show ?thesis by auto
  qed
qed

text \<open>Every step makes the measure smaller, so the handlers that have come all end.\<close>

lemma handler_step_less:
  assumes d: "ready d" and inv: "handler_inv dev L text_of x es text t ph"
    and step: "handler_step env api piece t ph m d = returns (Some (ph', m', d'))"
  shows "before_write ph' < before_write ph \<or> \<not> in_log ph \<and> before_write ph' = before_write ph \<and>
    after_write (length (text_of (store d))) ph' < after_write (length (text_of (store d))) ph"
proof (cases ph)
  case (Reads_Log pos acc rv)
  obtain eof bs pos' d1 where p: "piece pos d = returns (eof, bs, pos', d1)"
    "if eof then length (text_of (store d)) \<le> unat pos
     else bs \<noteq> [] \<and> unat pos' = unat pos + length bs \<and> bs = take (length bs) (drop (unat pos) (text_of (store d)))"
    using piece_ok [OF d, of pos] by blast
  have "length bs \<le> length (text_of (store d)) - unat pos" if "\<not> eof"
    using that p(2) by (metis length_drop length_take min.absorb_iff2 min.commute)
  then show ?thesis using p step Reads_Log by (cases bs) (auto simp: handler_step_def split: if_splits)
qed (use step inv in \<open>auto simp: handler_step_def bindC_eq_returns split: option.splits sum.splits if_splits prod.splits\<close>)

lemma clients_step_less:
  assumes inv: "clients_inv dev ready store add_line text_of L x es s" and step: "clients_step api piece t s = returns (Some s')"
  shows "(steps_left (length (text_of (store (log_file s')))) s', steps_left (length (text_of (store (log_file s)))) s)
    \<in> less_than <*lex*> less_than"
proof -
  note D = clients_invD [OF inv]
  obtain env ph where ph: "handlers s t = Some (env, ph)" using step by (auto simp: clients_step_def split: option.splits)
  obtain ph' m' d' where h: "handler_step env api piece t ph (holder s) (log_file s) = returns (Some (ph', m', d'))"
    "handlers s' = (handlers s)(t \<mapsto> (env, ph'))" "log_file s' = d'"
    using step ph by (auto simp: clients_step_def bindC_eq_returns)
  have t: "client_ok dev L t env" "handler_inv dev L text_of x es (text_of (store (log_file s))) t ph"
    using D(6) [OF ph] by simp_all
  have "holds_log ph \<longrightarrow> holder s = Some t" using D(7) ph by blast
  from handler_moves [OF D(1,2) t this] h(1) have "\<not> in_log ph \<longrightarrow> store d' = store (log_file s)" by auto
  with handler_step_less [OF D(1) t(2) h(1)] h(3) show ?thesis
    by (intro steps_left_less [OF D(8) ph h(2)]) auto
qed

lemma run_inv:
  "clients_run api piece store (sends_request dev L) s0 es s \<Longrightarrow> no_clients ready s0 \<Longrightarrow>
   clients_inv dev ready store add_line text_of L (store (log_file s0)) es s"
proof (induction rule: clients_run.induct)
  case run_start
  then show ?case by (simp add: clients_inv_def no_clients_def)
next
  case (run_new es s t env answers)
  note D = clients_invD [OF run_new.IH [OF run_new.prems]]
  have "t \<notin> fst ` set es" using D(5) run_new.hyps(2) by blast
  moreover have "holder s \<noteq> Some t" using D(7) run_new.hyps(2) by auto
  ultimately show ?case
    using D run_new.hyps(2,3) unfolding clients_inv_def by (auto simp: sends_request_def)
next
  case (run_step es s t s')
  then obtain env ph where "handlers s t = Some (env, ph)" by (auto simp: clients_step_def split: option.splits)
  from clients_step_moves [OF run_step.IH [OF run_step.prems] this] run_step.hyps(2) show ?case by auto
qed

text \<open>No step faults; while a handler has not ended and its client is not silent, some handler can step.\<close>

lemma step_returns:
  assumes "clients_inv dev ready store add_line text_of L x es s"
  shows "\<exists>r. clients_step api piece t s = returns r"
proof (cases "handlers s t")
  case (Some eph)
  then obtain env ph where "handlers s t = Some (env, ph)" by (cases eph) auto
  from clients_step_moves [OF assms this] show ?thesis by blast
qed (simp add: clients_step_def)

lemma some_step:
  assumes inv: "clients_inv dev ready store add_line text_of L x es s" and ph: "handlers s t = Some (env, ph)"
    and "\<forall>res. ph \<noteq> Ended res" and "ph \<noteq> Receiving []"
  shows "\<exists>u s'. clients_step api piece u s = returns (Some s')"
proof (cases "\<exists>s'. clients_step api piece t s = returns (Some s')")
  case False
  then obtain v where "holder s = Some v" using clients_step_moves [OF inv ph] assms(3,4) by auto
  then obtain env2 ph2 where v: "handlers s v = Some (env2, ph2)" "holds_log ph2" using clients_invD(7) [OF inv] by blast
  then have "\<forall>res. ph2 \<noteq> Ended res" "\<forall>st. ph2 \<noteq> Wants_Log st" "ph2 \<noteq> Receiving []" by auto
  with clients_step_moves [OF inv v(1)] show ?thesis by blast
qed blast

text \<open>Going on without new clients.\<close>

abbreviation goes_on :: "'d clients \<Rightarrow> 's append_event list \<Rightarrow> 'd clients \<Rightarrow> bool" where
  "goes_on s fs s' \<equiv> clients_run api piece store (\<lambda>_ _ _. False) s fs s'"

lemma no_endless_steps:
  assumes "clients_inv dev ready store add_line text_of L x es (f 0)"
  shows "\<exists>i. \<forall>t. clients_step api piece t (f i) \<noteq> returns (Some (f (Suc i)))"
proof (rule ccontr)
  assume "\<not> ?thesis"
  then have step: "\<exists>t. clients_step api piece t (f i) = returns (Some (f (Suc i)))" for i by blast
  have inv: "\<exists>es. clients_inv dev ready store add_line text_of L x es (f i)" for i
  proof (induction i)
    case (Suc i)
    obtain t where t: "clients_step api piece t (f i) = returns (Some (f (Suc i)))" using step by blast
    then obtain env ph where "handlers (f i) t = Some (env, ph)" by (auto simp: clients_step_def split: option.splits)
    with Suc clients_step_moves t show ?case by fastforce
  qed (use assms in blast)
  let ?g = "\<lambda>i. steps_left (length (text_of (store (log_file (f i))))) (f i)"
  have "(?g (Suc i), ?g i) \<in> less_than <*lex*> less_than" for i
    using inv [of i] step [of i] clients_step_less by blast
  moreover have "wf (less_than <*lex*> less_than)" by auto
  ultimately show False unfolding wf_iff_no_infinite_down_chain by (blast intro: exI [of _ ?g])
qed

lemma all_end:
  assumes "clients_inv dev ready store add_line text_of L x es s"
    and "\<forall>t. \<not> silent s t"
  shows "\<exists>fs s'. goes_on s fs s' \<and> (\<forall>t env ph. handlers s' t = Some (env, ph) \<longrightarrow> (\<exists>res. ph = Ended res)) \<and>
    dom (handlers s') = dom (handlers s)"
  using assms
proof (induction "steps_left (length (text_of (store (log_file s)))) s" arbitrary: s es
    rule: wf_induct_rule [OF wf_lex_prod [OF wf_less_than wf_less_than]])
  case (1 s)
  show ?case
  proof (cases "\<forall>t env ph. handlers s t = Some (env, ph) \<longrightarrow> (\<exists>res. ph = Ended res)")
    case True
    then show ?thesis using run_start by blast
  next
    case False
    then obtain v env2 ph2 where "handlers s v = Some (env2, ph2)" "\<forall>res. ph2 \<noteq> Ended res" by blast
    moreover from this have "ph2 \<noteq> Receiving []" using 1(3) by (auto simp: silent_def)
    ultimately obtain t s1 where s1: "clients_step api piece t s = returns (Some s1)"
      using some_step [OF 1(2)] by blast
    then obtain env ph where ph: "handlers s t = Some (env, ph)"
      by (auto simp: clients_step_def split: option.splits)
    with s1 have dom: "dom (handlers s1) = dom (handlers s)"
      by (auto simp: clients_step_def bindC_eq_returns split: if_splits)
    obtain es1 where inv1: "clients_inv dev ready store add_line text_of L x es1 s1"
      using clients_step_moves [OF 1(2) ph] s1 by auto
    from 1(1) [OF clients_step_less [OF 1(2) s1] inv1 still_heard [OF s1 1(3)]] dom obtain fs s' where s': "goes_on s1 fs s'"
        "\<forall>t env ph. handlers s' t = Some (env, ph) \<longrightarrow> (\<exists>res. ph = Ended res)" "dom (handlers s') = dom (handlers s)"
      by metis
    then show ?thesis using clients_run_trans [OF s'(1) run_step [OF run_start s1]] by blast
  qed
qed

end

text \<open>The handlers whose write was not lost for want of memory, in the order of the writes.\<close>

definition stored_by :: "'s append_event list \<Rightarrow> nat list" where
  "stored_by es = map fst (filter (\<lambda>(t, a, b). b \<noteq> a) es)"

lemma stored_by_simps [simp]:
  "stored_by [] = []"
  "stored_by ((t, a, b) # es) = (if b = a then stored_by es else t # stored_by es)"
  by (simp_all add: stored_by_def)

lemma stored_by_subset: "set (stored_by es) \<subseteq> fst ` set es"
  by (auto simp: stored_by_def)

lemma length_stored_by: "length (stored_by es) \<le> length es"
  by (simp add: stored_by_def)

lemma store_after_lines:
  "chained add_line L x es \<Longrightarrow> store_after x es = foldl (\<lambda>st bs. add_line bs st) x (map L (stored_by es))"
  by (induction add_line L x es rule: chained.induct) auto

section \<open>On the character device\<close>

lemma aesdchar_piece_ok:
  assumes "copying K" and "idle w"
  shows "\<exists>eof bs pos' w'. aesdchar_piece K pos w = returns (eof, bs, pos', w') \<and> idle w' \<and> world_store w' = world_store w \<and>
    (if eof then length (contents (world_store w)) \<le> unat pos
     else bs \<noteq> [] \<and> unat pos' = unat pos + length bs \<and> bs = take (length bs) (drop (unat pos) (contents (world_store w))))"
proof -
  have laws: "kernel_laws K" and copies: "\<And>m u bs. fst (copy_to_user K m u bs) = 0"
    using assms(1) by (simp_all add: copying_def)
  have inv: "dev_inv w" using assms(2) by (simp add: idle_def)
  have nz: "stdio_buffer \<noteq> 0" "(4096 :: u64) \<noteq> 0" by (simp_all add: stdio_buffer_def)
  from laws inv fopen_private nz copies show ?thesis
  proof (cases rule: aesd_read_step [where pos = pos])
    case eof
    then show ?thesis using assms(2) by (simp add: aesdchar_piece_def) blast
  next
    case (more n bs)
    have "n \<noteq> 0" "\<not> sint n < 0" using more(4) by auto
    then have "aesdchar_piece K pos w = returns (False, bs, pos + n, w\<lparr>umem := user_store (umem w) stdio_buffer bs\<rparr>)"
      using more(3,7) stored_bytes [of "umem w" stdio_buffer bs] by (simp add: aesdchar_piece_def)
    moreover have "bs = take (length bs) (drop (unat pos) (contents (world_store w)))" using more(5) by simp
    moreover have "bs \<noteq> []" using more(1,2) by auto
    ultimately show ?thesis using more(6) assms(2) by (simp, blast)
  qed
qed

text \<open>While the ring has room, writing a line keeps the text.\<close>

lemma growing_room:
  "chained store_write L x es \<Longrightarrow> \<forall>t \<in> set (stored_by es). is_line (L t) \<Longrightarrow> pending x = [] \<Longrightarrow>
   length (commands x) + length (stored_by es) \<le> 10 \<Longrightarrow> growing contents es"
proof (induction "store_write :: byte list \<Rightarrow> command_store \<Rightarrow> command_store" L x es rule: chained.induct)
  case (2 L x t a b es)
  show ?case
  proof (cases "b = a")
    case True
    with 2 have "growing contents es" by auto
    with True show ?thesis by (simp add: growing_def)
  next
    case False
    then have b: "b = store_write (L t) x" "a = x" and line: "is_line (L t)" using 2(2,3) by auto
    then have st: "b = \<lparr>commands = commands x @ [L t], pending = []\<rparr>"
      using 2(4,5) False by (simp add: store_write_line last_n_def)
    have "growing contents es" using 2(1) [of] 2(2-5) False st by simp
    moreover have "\<exists>y. contents b = contents a @ y" using st b(2) by (auto simp: contents_def)
    ultimately show ?thesis by (simp add: growing_def)
  qed
qed (simp add: growing_def)

lemma device_after_lines:
  assumes "chained store_write L x es" and "\<forall>t \<in> set (stored_by es). is_line (L t)"
    and "pending x = []" and "length (commands x) \<le> 10"
  shows "store_after x es = \<lparr>commands = last_n 10 (commands x @ map L (stored_by es)), pending = []\<rparr>"
proof -
  have "\<forall>bs \<in> set (map L (stored_by es)). is_line bs" using assms(2) by simp
  from foldl_store_lines [OF this assms(3,4)] show ?thesis by (simp add: store_after_lines [OF assms(1)])
qed

text \<open>What was stored is a line; an empty request stores nothing.\<close>

lemma stored_lines:
  "chained store_write L x es \<Longrightarrow> \<forall>t \<in> fst ` set es. log_request (L t) \<Longrightarrow> \<forall>t \<in> set (stored_by es). plain_line (L t)"
proof (induction "store_write :: byte list \<Rightarrow> command_store \<Rightarrow> command_store" L x es rule: chained.induct)
  case (2 L x t a b es)
  have "store_write [] a = a" by (simp add: store_write_def)
  with 2 show ?case by (auto simp: log_request_def)
qed simp

lemma aesdchar_seek_ok:
  assumes "kernel_laws K" and "idle w" and "unat c < 10"
  shows "\<exists>pos w'. aesdchar_seek K c x w = returns (pos, w') \<and> idle w' \<and> world_store w' = world_store w"
proof -
  let ?w = "w\<lparr>umem := user_store (umem w) 2048 (le_bytes c @ le_bytes x)\<rparr>"
  obtain left bs where copied: "copy_from_user K (umem ?w) 2048 8 = (left, bs)" by fastforce
  have inv: "dev_inv ?w" using assms(2) by (simp add: idle_def dev_inv_def)
  have "\<exists>r f. aesd_ioctl K False (Some fopen_aesdchar) AESDCHAR_IOCSEEKTO 2048 ?w = returns (r, f, ?w)"
  proof (cases "left = 0")
    case True
    with copy_from_user_law [OF assms(1) copied] have "length bs = 8" "user_bytes (umem ?w) 2048 bs" by simp_all
    then have "bs = le_bytes c @ le_bytes x" using user_bytes_unique [of _ 2048 bs "le_bytes c @ le_bytes x"] by simp
    with assms(3) copied ioctl_keeps_world [OF inv, of K False "Some fopen_aesdchar" AESDCHAR_IOCSEEKTO 2048]
    show ?thesis by (auto simp: seekto_le_bytes)
  qed (use copied in \<open>simp add: aesd_ioctl_def\<close>)
  with assms(2) show ?thesis by (auto simp: aesdchar_seek_def)
qed

lemma aesdchar_request:
  assumes "copying K" and "idle w" and "log_request bs"
  shows "\<exists>w'. aesdchar_append K bs w = returns w' \<and> idle w' \<and>
    (world_store w' = store_write bs (world_store w) \<or> world_store w' = world_store w)"
proof (cases "bs = []")
  case True
  with assms(2) show ?thesis by (simp add: aesdchar_append_def)
next
  case False
  then obtain ls where "bs = ls @ [newline]" "newline \<notin> set ls" "length ls < 511"
    using assms(3) by (auto simp: log_request_def plain_line_def)
  with aesdchar.append_ok [of w ls K] assms(1,2) show ?thesis by (simp add: some_copying_def aesdchar_log_def)
qed

interpretation clients: shared_log "aesdchar_log (some_copying K)" idle world_store store_write contents
  "aesdchar_piece (some_copying K)" True
  by unfold_locales (rule aesdchar_piece_ok [OF copying_some], assumption,
    use aesdchar_seek_ok aesdchar_request copying_some in \<open>auto simp: aesdchar_log_def copying_def\<close>)

lemma plain_is_line: "plain_line bs \<Longrightarrow> is_line bs"
  by (auto simp: plain_line_def is_line_def)

end
