(* ===== verification/Socket_Interleaving.thy ===== *)
theory Socket_Interleaving
  imports Socket_Sharing
begin

text \<open>
  What interleaved clients of the server get, on the character device: the properties of
  \<open>Socket_Sharing\<close> for the driver, each with three clients that show its hypotheses can hold.
\<close>

abbreviation server_run ::
  "kernel \<Rightarrow> (nat \<Rightarrow> byte list) \<Rightarrow> kworld clients \<Rightarrow> command_store append_event list \<Rightarrow> kworld clients \<Rightarrow> bool" where
  "server_run K L \<equiv> clients_run (aesdchar_log K) (aesdchar_piece K) world_store (sends_request True L)"

abbreviation server_step :: "kernel \<Rightarrow> nat \<Rightarrow> kworld clients \<Rightarrow> kworld clients option comp" where
  "server_step K \<equiv> clients_step (aesdchar_log K) (aesdchar_piece K)"

abbreviation server_inv :: "(nat \<Rightarrow> byte list) \<Rightarrow> command_store \<Rightarrow> command_store append_event list \<Rightarrow> kworld clients \<Rightarrow> bool" where
  "server_inv \<equiv> clients_inv True idle world_store store_write contents"

lemma server_run_inv:
  assumes "copying K" and "no_clients idle s0" and "server_run K L s0 evs s"
  shows "server_inv L (world_store (log_file s0)) evs s"
  using clients.run_inv [of K L s0 evs s] assms by (simp add: some_copying_def)

lemma event_lines:
  assumes "server_inv L x evs s"
  shows "\<forall>t \<in> set (stored_by evs). plain_line (L t)" and "\<forall>t \<in> set (stored_by evs). is_line (L t)"
proof -
  have "\<forall>t \<in> fst ` set evs. log_request (L t)" using clients_invD(5) [OF assms] by simp
  from stored_lines [OF clients_invD(3) [OF assms] this]
  show plain: "\<forall>t \<in> set (stored_by evs). plain_line (L t)" .
  then show "\<forall>t \<in> set (stored_by evs). is_line (L t)" using plain_is_line by blast
qed

text \<open>
  Three clients have connected: 0 sends nothing, 1 sends the line \<open>b\<close> and 2 asks for the log from
  byte 1 of command 0 on.
\<close>

definition request_of :: "nat \<Rightarrow> byte list" where
  "request_of t = (if t = 0 then [] else (if t = 1 then ''b'' else ''AESDCHAR_IOCSEEKTO:0,1'') @ [newline])"

definition empty_server :: "kworld clients" where
  "empty_server = \<lparr>log_file = fresh_world [], holder = None, handlers = Map.empty\<rparr>"

definition three_clients :: "kworld clients" where
  "three_clients = empty_server\<lparr>handlers := [0 \<mapsto> (calm_env, Receiving [Recv_Closed]),
     1 \<mapsto> (calm_env, Receiving [Recv (request_of 1)]), 2 \<mapsto> (calm_env, Receiving [Recv (request_of 2)])]\<rparr>"

lemma request_kinds:
  shows "request_of 0 = []" and "plain_line (request_of 1)" and "t < 2 \<Longrightarrow> log_request (request_of t)"
    and "\<not> t < 2 \<Longrightarrow> seek_line (request_of t)"
proof -
  show "request_of 0 = []" by (simp add: request_of_def)
  show plain: "plain_line (request_of 1)"
    unfolding plain_line_def by (intro exI [of _ "''b''"]) (auto simp: request_of_def)
  show "log_request (request_of t)" if "t < 2"
  proof -
    have "t = 0 \<or> t = 1" using that by auto
    with plain show ?thesis by (auto simp: log_request_def request_of_def)
  qed
  show "seek_line (request_of t)" if "\<not> t < 2"
    using that unfolding seek_line_def
    by (intro exI [of _ "CHR ''0''"] exI [of _ "''1''"]) (auto simp: request_of_def is_digit_def)
qed

lemma requests_sent: "sends_request True request_of t calm_env [first_answer (request_of t)]"
  using request_kinds(3,4) [of t] calm_smooth calm_device unfolding sends_request_def client_ok_def loggable_device by blast

lemma request_answers:
  "first_answer (request_of 0) = Recv_Closed" "first_answer (request_of 1) = Recv (request_of 1)"
  "first_answer (request_of 2) = Recv (request_of 2)"
  by (simp_all add: first_answer_def request_of_def)

lemma empty_server_start: "no_clients idle empty_server"
  using fresh_idle [of "[]"] by (simp add: no_clients_def empty_server_def)

lemma three_clients_run: "server_run copying_kernel request_of empty_server [] three_clients"
proof -
  have new: "server_run copying_kernel request_of empty_server []
      (empty_server\<lparr>handlers := m(t \<mapsto> (calm_env, Receiving [first_answer (request_of t)]))\<rparr>)"
    if "server_run copying_kernel request_of empty_server [] (empty_server\<lparr>handlers := m\<rparr>)" "m t = None" for m t
    using run_new [OF that(1) _ requests_sent, of t] that(2) by simp
  have "server_run copying_kernel request_of empty_server [] (empty_server\<lparr>handlers := Map.empty\<rparr>)"
    by (simp add: empty_server_def run_start)
  from new [OF new [OF new [OF this, of 0], of 1], of 2] show ?thesis
    by (simp add: three_clients_def request_answers del: One_nat_def)
qed

text \<open>Their handlers can be run to their ends.\<close>

lemma three_clients_end:
  obtains evs s where "server_run copying_kernel request_of empty_server evs s" and "length evs \<le> 3"
    and "\<forall>t < 3. \<exists>env res. handlers s t = Some (env, Ended res)"
proof -
  have inv: "server_inv request_of (world_store (log_file empty_server)) [] three_clients"
    by (rule server_run_inv [OF copying_copying_kernel empty_server_start three_clients_run])
  have "\<forall>t. \<not> silent three_clients t" by (simp add: silent_def three_clients_def)
  from clients.all_end [where K = copying_kernel, OF inv this] obtain evs s where s: "clients_run (aesdchar_log copying_kernel) (aesdchar_piece copying_kernel) world_store
      (\<lambda>_ _ _. False) three_clients evs s"
    and ended: "\<And>t env ph. handlers s t = Some (env, ph) \<Longrightarrow> \<exists>res. ph = Ended res"
    and dom: "dom (handlers s) = dom (handlers three_clients)"
    using copying_copying_kernel by (auto simp: some_copying_def)
  have run: "server_run copying_kernel request_of empty_server evs s"
    using clients_run_trans [OF clients_run_mono [OF s] three_clients_run] by simp
  have dom: "dom (handlers s) = {0, 1, 2}" unfolding dom by (auto simp: three_clients_def split: if_splits)
  have "\<exists>env res. handlers s t = Some (env, Ended res)" if "t < 3" for t
  proof -
    have "t \<in> dom (handlers s)" using that dom by auto
    with ended show ?thesis by fast
  qed
  moreover have "length evs \<le> 3"
  proof -
    note D = clients_invD [OF server_run_inv [OF copying_copying_kernel empty_server_start run]]
    have "fst ` set evs \<subseteq> dom (handlers s)" using D(5) by (simp add: dom_def subset_iff)
    then have "fst ` set evs \<subseteq> {0, 1, 2}" by (simp only: dom)
    then have "card (set (map fst evs)) \<le> 3" using card_mono [of "{0, 1, 2 :: nat}" "set (map fst evs)"] by simp
    with distinct_card [OF D(4)] show ?thesis by simp
  qed
  ultimately show thesis using that [OF run] by blast
qed

section \<open>The steps are the code\<close>

text \<open>
  Where \<open>handle_client\<close> returns, the steps of its handler, run without interruption, lead to the
  same result, the same log and a free mutex: what interleaves is the code.
\<close>

theorem handle_client_in_steps:
  assumes "handle_client env (aesdchar_log K) answers w = returns (res, w')"
  shows "alone env (aesdchar_log K) (aesdchar_piece K) t (Receiving answers, None, w) (Ended res, None, w')"
  using char_pieces.handler_alone [OF TrueI assms] .

theorem handle_client_in_steps_witness:
  "\<exists>res w'. alone calm_env (aesdchar_log copying_kernel) (aesdchar_piece copying_kernel) 7
     (Receiving [Recv (''hi'' @ [newline])], None, fresh_world []) (Ended res, None, w') \<and> sent res = contents (world_store w')"
proof -
  obtain res w' where "handle_client calm_env (aesdchar_log copying_kernel) [Recv (''hi'' @ [newline])] (fresh_world []) =
      returns (res, w')" "sent res = contents (world_store w')"
    using aesdchar.serve_line [OF calm_smooth fresh_idle, of "''hi''" copying_kernel "[]" "[]"] copying_copying_kernel
    by (auto simp: some_copying_def)
  with handle_client_in_steps show ?thesis by blast
qed

section \<open>The log\<close>



text \<open>
  C15: A client whose handler has ended was told no error and, while the device had room for all
  lines, got the text of one moment: what was stored before, followed by the whole lines stored until
  then. A client that sent a line or nothing got that whole text, of a moment after its own write; one that
  sent a seek command got it from some byte on.
\<close>

theorem clients_get_answers:
  assumes "copying K" and "no_clients idle s0" and "server_run K L s0 evs s"
    and "length (commands (world_store (log_file s0))) + length (stored_by evs) \<le> 10"
    and "handlers s t = Some (env, Ended res)"
  shows "result_retval res = 0 \<and> client_closed res \<and>
    (\<exists>es1 es2 start. evs = es1 @ es2 \<and> (log_request (L t) \<longrightarrow> t \<in> fst ` set es1 \<and> start = 0) \<and>
       sent res = drop start (contents (world_store (log_file s0)) @ concat (map L (stored_by es1))))"
proof -
  note inv = server_run_inv [OF assms(1-3)]
  note D = clients_invD [OF inv, unfolded loggable_device]
  let ?x = "world_store (log_file s0)"
  have x: "pending ?x = []" using assms(2) by (simp add: no_clients_def idle_def)
  have "growing contents evs" using growing_room [OF D(3) event_lines(2) [OF inv] x assms(4)] .
  with D(6) [OF assms(5)] obtain es1 es2 start where es: "evs = es1 @ es2"
      "log_request (L t) \<longrightarrow> t \<in> fst ` set es1 \<and> start = 0" "sent res = drop start (contents (store_after ?x es1))"
    and res: "result_retval res = 0" "client_closed res"
    by (auto simp: answered_def)
  have len: "length (commands ?x @ map L (stored_by es1)) \<le> 10"
    using assms(4) es(1) by (simp add: stored_by_def)
  have "chained store_write L ?x es1" using D(3) es(1) by simp
  moreover have "\<forall>t \<in> set (stored_by es1). is_line (L t)" using event_lines(2) [OF inv] es(1) by (auto simp: stored_by_def)
  ultimately have "store_after ?x es1 = \<lparr>commands = last_n 10 (commands ?x @ map L (stored_by es1)), pending = []\<rparr>"
    using x len by (intro device_after_lines) simp_all
  with len have "contents (store_after ?x es1) = contents ?x @ concat (map L (stored_by es1))"
    by (simp add: contents_def last_n_def)
  with es res show ?thesis by auto
qed

theorem clients_get_answers_witness:
  "\<exists>evs s env res. server_run copying_kernel request_of empty_server evs s \<and> handlers s 1 = Some (env, Ended res) \<and>
     (\<exists>es1 es2. evs = es1 @ es2 \<and> 1 \<in> fst ` set es1 \<and> sent res = concat (map request_of (stored_by es1)))"
proof -
  obtain evs s where run: "server_run copying_kernel request_of empty_server evs s" and len: "length evs \<le> 3"
    and ends: "\<forall>t < 3. \<exists>env res. handlers s t = Some (env, Ended res)"
    by (rule three_clients_end)
  obtain env res where end1: "handlers s 1 = Some (env, Ended res)" using ends [rule_format, of 1] by auto
  have "world_store (log_file empty_server) = \<lparr>commands = [], pending = []\<rparr>"
    by (simp add: empty_server_def fresh_world_def zero_device_store)
  then have "\<exists>es1 es2. evs = es1 @ es2 \<and> 1 \<in> fst ` set es1 \<and> sent res = concat (map request_of (stored_by es1))"
    using clients_get_answers [OF copying_copying_kernel empty_server_start run _ end1] len length_stored_by [of evs] request_kinds(3) [of 1]
    by (auto simp: contents_def)
  with end1 run show ?thesis by (intro exI [of _ evs] exI [of _ s] exI [of _ env] exI [of _ res]) blast
qed

section \<open>Progress\<close>

text \<open>
  No step of any handler faults, and no two handlers are between lock and unlock of
  \<open>log_mutex\<close>.
\<close>

theorem clients_never_fault:
  assumes "copying K" and "no_clients idle s0" and "server_run K L s0 evs s"
  shows "(\<exists>r. server_step K t s = returns r) \<and>
    (handlers s t = Some (env1, ph1) \<and> holds_log ph1 \<and> handlers s u = Some (env2, ph2) \<and> holds_log ph2 \<longrightarrow> t = u)"
proof -
  note inv = server_run_inv [OF assms]
  have "\<exists>r. server_step K t s = returns r"
    using clients.step_returns [where K = K, OF inv] assms(1) by (simp add: some_copying_def)
  then show ?thesis using clients_invD(7) [OF inv, of t] clients_invD(7) [OF inv, of u] by auto
qed

text \<open>
  C16: For clients that send one line or seek command each in one piece, close at once or stay silent
  for ever: once no more connect, no sequence of steps is endless, and where no handler can step each has
  ended, or waits in \<open>recv\<close> for a silent client, and \<open>log_mutex\<close> is free, so it is never lost.
\<close>

theorem clients_all_end:
  assumes "copying K" and "no_clients idle s0" and "server_run K L s0 evs s"
  shows "\<not> (\<exists>f. f 0 = s \<and> (\<forall>i. \<exists>t. server_step K t (f i) = returns (Some (f (Suc i))))) \<and>
    ((\<forall>u. server_step K u s = returns None) \<longrightarrow>
      (\<forall>t env ph. handlers s t = Some (env, ph) \<longrightarrow> (\<exists>res. ph = Ended res) \<or> silent s t) \<and> holder s = None)"
proof -
  note inv = server_run_inv [OF assms]
  have K: "some_copying K = K" using assms(1) by (simp add: some_copying_def)
  have "\<exists>i. \<forall>t. server_step K t (f i) \<noteq> returns (Some (f (Suc i)))" if "f 0 = s" for f
    using clients.no_endless_steps [of L _ _ f K] inv that unfolding K by blast
  moreover have ended: "(\<exists>res. ph = Ended res) \<or> ph = Receiving []"
    if "\<forall>u. server_step K u s = returns None" "handlers s t = Some (env, ph)" for t env ph
    using clients.some_step [of L _ _ s t env ph K] inv that unfolding K by force
  moreover have "holder s = None" if "\<forall>u. server_step K u s = returns None"
  proof (cases "holder s")
    case (Some v)
    then obtain env ph where "handlers s v = Some (env, ph)" "holds_log ph" using clients_invD(7) [OF inv] by blast
    with ended [OF that] show ?thesis by fastforce
  qed simp
  moreover have "(\<exists>res. ph = Ended res) \<or> silent s t"
    if "\<forall>u. server_step K u s = returns None" "handlers s t = Some (env, ph)" for t env ph
    using ended [OF that] that(2) by (auto simp: silent_def)
  ultimately show ?thesis by blast
qed

theorem clients_never_fault_witness:
  "(\<exists>r. server_step copying_kernel 0 three_clients = returns r) \<and> \<not> (holds_log (phase_at three_clients 0) \<and> holds_log (phase_at three_clients 1))"
  using clients_never_fault [OF copying_copying_kernel empty_server_start three_clients_run, of 0 calm_env "phase_at three_clients 0" 1]
  by (simp add: three_clients_def phase_at_def)

theorem clients_all_end_witness:
  "(\<exists>u s. server_step copying_kernel u three_clients = returns (Some s)) \<and>
   \<not> (\<exists>f. f 0 = three_clients \<and> (\<forall>i. \<exists>t. server_step copying_kernel t (f i) = returns (Some (f (Suc i)))))"
proof -
  have "handlers three_clients 0 = Some (calm_env, Receiving [Recv_Closed])" by (simp add: three_clients_def)
  then have "\<not> (\<forall>u. server_step copying_kernel u three_clients = returns None)"
    using clients_all_end [OF copying_copying_kernel empty_server_start three_clients_run]
    by (fastforce simp: silent_def three_clients_def)
  moreover have "\<exists>r. server_step copying_kernel u three_clients = returns r" for u
    using clients.step_returns [where K = copying_kernel,
        OF server_run_inv [OF copying_copying_kernel empty_server_start three_clients_run]] copying_copying_kernel
    by (simp add: some_copying_def)
  ultimately show ?thesis
    using clients_all_end [OF copying_copying_kernel empty_server_start three_clients_run] by (metis not_None_eq)
qed

end
