(* ===== verification/Socket_System.thy ===== *)
theory Socket_System
  imports Socket_Server Socket_Interleaving
begin

text \<open>
  The whole server: the main thread of \<open>Socket_Server\<close> and the handler threads of \<open>Socket_Clients\<close>
  at the same time, on one log. A thread starts when the main thread has created it, finds its
  connection in the structure it was given, takes the steps of \<open>handle_client\<close> and marks the
  structure; the main thread joins and frees. The theory defines the runs of all threads together and shows
  the invariant that ties the main thread's list to the handlers, on any log.
\<close>

section \<open>The threads together\<close>

text \<open>
  The main thread is at the test of its loop, waits in \<open>accept\<close>, is in its last loop, or has returned.
  \<open>args\<close> is the structure each thread was given, \<open>finished\<close> the threads whose function has returned.
\<close>

datatype main_phase = Tests | Accepts | Drains | Returned

text \<open>The phases in the order of the code; the loop goes between the first two, the others are final.\<close>

fun phase_number :: "main_phase \<Rightarrow> nat" where
  "phase_number Tests = 0"
| "phase_number Accepts = 1"
| "phase_number Drains = 2"
| "phase_number Returned = 3"

instantiation main_phase :: linorder
begin

definition less_eq_main_phase :: "main_phase \<Rightarrow> main_phase \<Rightarrow> bool" where
  "p \<le> q \<longleftrightarrow> phase_number p \<le> phase_number q"

definition less_main_phase :: "main_phase \<Rightarrow> main_phase \<Rightarrow> bool" where
  "p < q \<longleftrightarrow> phase_number p < phase_number q"

instance
proof
  fix p q :: main_phase
  show "p \<le> q \<Longrightarrow> q \<le> p \<Longrightarrow> p = q"
    by (cases p; cases q) (simp_all add: less_eq_main_phase_def)
qed (auto simp: less_eq_main_phase_def less_main_phase_def)

end

lemma last_phases [simp]: "Drains \<le> p \<longleftrightarrow> p = Drains \<or> p = Returned"
  by (cases p) (simp_all add: less_eq_main_phase_def)

record 'd system =
  mthread :: server
  mphase :: main_phase
  caught :: bool
  net :: "'d clients"
  args :: "nat \<Rightarrow> nat"
  finished :: "nat set"

text \<open>
  One step of thread \<open>t\<close>: at first it reads its structure, at the end it marks it. The numbers of
  threads are not used twice, other than the values of \<open>pthread_t\<close>.
\<close>

definition thread_step :: "'d log_api \<Rightarrow> 'd log_piece \<Rightarrow> nat \<Rightarrow> 'd system \<Rightarrow> 'd system option comp" where
  "thread_step api piece t s =
     (let go_on = bindC (clients_step api piece t (net s)) (\<lambda>r. returns (map_option (\<lambda>n. s\<lparr>net := n\<rparr>) r))
      in case handlers (net s) t of
        None \<Rightarrow> returns None
      | Some (env, ph) \<Rightarrow>
          if t \<in> finished s then returns None
          else (case ph of
              Receiving answers \<Rightarrow> bindC (node_at (mthread s) (Ptr (args s t))) (\<lambda>n. go_on)
            | Ended res \<Rightarrow> bindC (thread_func_end (args s t) (mthread s)) (\<lambda>m.
                returns (Some (s\<lparr>mthread := m, finished := insert t (finished s)\<rparr>)))
            | _ \<Rightarrow> go_on))"

text \<open>Whether a round creates a thread, and for which structure.\<close>

definition starts_at :: "round_answers \<Rightarrow> server \<Rightarrow> nat option" where
  "starts_at r m = (case node_answer r (nodes m) of
       Ptr a \<Rightarrow> if accept_answer r \<noteq> - 1 \<and> \<not> create_error r then Some a else None
     | _ \<Rightarrow> None)"

text \<open>
  One step of the main thread. In the last loop \<open>pthread_join\<close> waits for the thread: no step until it has
  finished. A new client comes with the surroundings \<open>env\<close> of its handler and with what it sends.
\<close>

definition main_step :: "round_answers \<Rightarrow> client_env \<Rightarrow> recv_answer list \<Rightarrow> 'd system \<Rightarrow> 'd system option comp" where
  "main_step r env answers s =
     (let m = mthread s
      in case mphase s of
        Tests \<Rightarrow> returns (Some (s\<lparr>mphase := (if caught s \<or> main_retval m = - 1 then Drains else Accepts)\<rparr>))
      | Accepts \<Rightarrow>
          bindC (accept_round (accept_answer r) (node_answer r (nodes m)) (create_error r) (new_thread r) (join_error r) m) (\<lambda>m'.
            returns (Some (case starts_at r m of
                None \<Rightarrow> s\<lparr>mthread := m', mphase := Tests\<rparr>
              | Some a \<Rightarrow> s\<lparr>mthread := m', mphase := Tests, args := (args s)(new_thread r := a),
                  net := (net s)\<lparr>handlers := (handlers (net s))(new_thread r \<mapsto> (env, Receiving answers))\<rparr>\<rparr>)))
      | Drains \<Rightarrow>
          (if SLIST_EMPTY (head m) then returns (Some (s\<lparr>mphase := Returned\<rparr>))
           else bindC (node_at m (SLIST_FIRST (head m))) (\<lambda>(a, n).
             if thread_id n \<in> finished s
             then bindC (join_first m) (\<lambda>m'. returns (Some (s\<lparr>mthread := m'\<rparr>)))
             else returns None))
      | Returned \<Rightarrow> returns None)"

text \<open>
  What a round may do: \<open>malloc\<close> answers a block not in use; a new thread has a new number, and its client
  sends what \<open>ok\<close> allows.
\<close>

definition fresh_round ::
  "(nat \<Rightarrow> client_env \<Rightarrow> recv_answer list \<Rightarrow> bool) \<Rightarrow> round_answers \<Rightarrow> client_env \<Rightarrow> recv_answer list \<Rightarrow> 'd system \<Rightarrow> bool" where
  "fresh_round ok r env answers s \<longleftrightarrow> malloc_fresh (Round r) \<and>
     (mphase s = Accepts \<and> starts_at r (mthread s) \<noteq> None \<longrightarrow>
        handlers (net s) (new_thread r) = None \<and> ok (new_thread r) env answers)"

inductive system_run ::
  "'d log_api \<Rightarrow> 'd log_piece \<Rightarrow> ('d \<Rightarrow> 's) \<Rightarrow> (nat \<Rightarrow> client_env \<Rightarrow> recv_answer list \<Rightarrow> bool) \<Rightarrow>
   'd system \<Rightarrow> 's append_event list \<Rightarrow> 'd system \<Rightarrow> bool" for api piece store ok s0 where
  sys_start: "system_run api piece store ok s0 [] s0"
| sys_main: "system_run api piece store ok s0 evs s \<Longrightarrow> fresh_round ok r env answers s \<Longrightarrow>
    main_step r env answers s = returns (Some s') \<Longrightarrow> system_run api piece store ok s0 evs s'"
| sys_thread: "system_run api piece store ok s0 evs s \<Longrightarrow> thread_step api piece t s = returns (Some s') \<Longrightarrow>
    system_run api piece store ok s0 (evs @ append_of store t (net s) (net s')) s'"
| sys_signal: "system_run api piece store ok s0 evs s \<Longrightarrow> system_run api piece store ok s0 evs (s\<lparr>caught := True\<rparr>)"

text \<open>The main thread at its loop, before any client has come.\<close>

definition booted :: "('d \<Rightarrow> bool) \<Rightarrow> 'd system \<Rightarrow> bool" where
  "booted ready s \<longleftrightarrow> mphase s = Tests \<and> no_clients ready (net s) \<and> finished s = {} \<and>
     head (mthread s) = SLIST_INIT \<and> nodes (mthread s) = Map.empty \<and> created (mthread s) = [] \<and> joined (mthread s) = []"

section \<open>The handlers of the whole server\<close>

lemma clients_step_moved:
  assumes "clients_step api piece t s = returns (Some s')" and "handlers s t = Some (env, ph)"
  obtains ph' where "handlers s' = (handlers s)(t \<mapsto> (env, ph'))"
  using assms by (auto simp: clients_step_def bindC_eq_returns)

lemma thread_step_cases:
  assumes "thread_step api piece t s = returns (Some s')"
  obtains (net) env ph n where "handlers (net s) t = Some (env, ph)" and "\<forall>res. ph \<noteq> Ended res" and "t \<notin> finished s"
      and "clients_step api piece t (net s) = returns (Some n)" and "s' = s\<lparr>net := n\<rparr>"
    | (finish) env res m where "handlers (net s) t = Some (env, Ended res)" and "t \<notin> finished s"
      and "thread_func_end (args s t) (mthread s) = returns m" and "s' = s\<lparr>mthread := m, finished := insert t (finished s)\<rparr>"
  using assms
  by (auto simp: thread_step_def Let_def bindC_eq_returns split: option.splits handler.splits if_splits)

lemma system_clients:
  "system_run api piece store ok s0 evs s \<Longrightarrow> clients_run api piece store ok (net s0) evs (net s)"
proof (induction rule: system_run.induct)
  case sys_start
  show ?case by (rule run_start)
next
  case (sys_main evs s r env answers s')
  show ?case
  proof (cases "mphase s = Accepts \<and> starts_at r (mthread s) \<noteq> None")
    case True
    then have "net s' = (net s)\<lparr>handlers := (handlers (net s))(new_thread r \<mapsto> (env, Receiving answers))\<rparr>"
      using sys_main.hyps(3) by (auto simp: main_step_def bindC_eq_returns Let_def split: option.splits)
    moreover have "handlers (net s) (new_thread r) = None" "ok (new_thread r) env answers"
      using True sys_main.hyps(2) by (simp_all add: fresh_round_def)
    ultimately show ?thesis using run_new [OF sys_main.IH] by simp
  next
    case False
    then have "net s' = net s"
      using sys_main.hyps(3)
      by (auto simp: main_step_def bindC_eq_returns Let_def split: option.splits main_phase.splits if_splits)
    with sys_main.IH show ?thesis by simp
  qed
next
  case (sys_thread evs s t s')
  from sys_thread.hyps(2) show ?case
  proof (cases rule: thread_step_cases)
    case (net env ph n)
    with run_step [OF sys_thread.IH net(4)] show ?thesis by simp
  next
    case (finish env res m)
    with sys_thread.IH show ?thesis by (simp add: append_of_def)
  qed
qed simp

section \<open>The invariant of the main thread\<close>

lemma tids_created:
  assumes "thread_list m xs"
  shows "set (created m) = set (joined m) \<union> tid (nodes m) ` set xs"
proof -
  have "set_mset (mset (created m)) = set_mset (mset (joined m) + image_mset (tid (nodes m)) (mset xs))"
    using assms by (simp only: thread_list_def)
  then show ?thesis by simp
qed

lemma new_client_started:
  assumes inv: "main_inv ts fin arg m xs" and fresh: "nodes m a = None" and t: "t \<notin> set ts" "t \<notin> fin"
  shows "\<exists>m'. new_client fd (Ptr a) False t m = returns (True, m') \<and> main_inv (ts @ [t]) fin (arg(t := a)) m' (a # xs)"
proof -
  have l: "thread_list m xs" using inv by (simp add: main_inv_def)
  have "\<exists>go_on s' ys. new_client fd (Ptr a) False t m = returns (go_on, s') \<and> thread_list s' ys \<and>
      (if go_on then ys = a # xs \<and> created s' = created m @ [t] \<and> tid (nodes s') a = t \<and>
         running (nodes s') a \<and> (\<forall>b. b \<noteq> a \<longrightarrow> nodes s' b = nodes m b) else False) \<and> joined s' = joined m"
    using new_client_ok [OF l, where p = "Ptr a" and fd = fd and ce = False and t = t] fresh by (auto split: if_splits)
  then obtain m' where m': "new_client fd (Ptr a) False t m = returns (True, m')" "thread_list m' (a # xs)" "joined m' = joined m"
      "created m' = created m @ [t]" "tid (nodes m') a = t" "running (nodes m') a"
    and other: "\<And>b. b \<noteq> a \<Longrightarrow> nodes m' b = nodes m b"
    by (clarsimp split: if_splits) blast
  have "a \<notin> set xs" using l fresh by (auto simp: thread_list_def)
  then have ne: "b \<noteq> a" if "b \<in> set xs" for b using that by blast
  have same: "tid (nodes m') b = tid (nodes m) b" "running (nodes m') b = running (nodes m) b" if "b \<in> set xs" for b
    using other [OF ne [OF that]] by (simp_all add: tid_def running_def)
  have "tid (nodes m) b \<noteq> t" if "b \<in> set xs" for b
    using tids_created [OF l] that inv t by (auto simp: main_inv_def)
  with m' same inv t have "main_inv (ts @ [t]) fin (arg(t := a)) m' (a # xs)"
    by (simp add: main_inv_def)
  with m'(1) show ?thesis by blast
qed

lemma new_client_failed:
  assumes inv: "main_inv ts fin arg m xs" and fresh: "\<And>a. p = Ptr a \<Longrightarrow> nodes m a = None" and "\<forall>a. ce \<or> p \<noteq> Ptr a"
  shows "\<exists>m'. new_client fd p ce t m = returns (False, m') \<and> main_inv ts fin arg m' xs"
proof -
  have l: "thread_list m xs" using inv by (simp add: main_inv_def)
  have "\<exists>go_on s' ys. new_client fd p ce t m = returns (go_on, s') \<and> thread_list s' ys \<and>
      (if go_on then \<exists>a. p = Ptr a \<and> \<not> ce else ys = xs \<and> created s' = created m \<and> nodes s' = nodes m) \<and> joined s' = joined m"
    using new_client_ok [OF l fresh, where p = p and fd = fd and ce = ce and t = t] by (auto split: if_splits)
  then obtain m' where "new_client fd p ce t m = returns (False, m')" "thread_list m' xs" "joined m' = joined m"
      "created m' = created m" "nodes m' = nodes m"
    using assms(3) by (auto split: if_splits)
  with inv show ?thesis by (auto simp: main_inv_def)
qed

lemma accept_round_inv:
  assumes inv: "main_inv ts fin arg m xs" and fresh: "malloc_fresh (Round r)"
    and t: "starts_at r m \<noteq> None \<Longrightarrow> new_thread r \<notin> set ts \<and> new_thread r \<notin> fin"
  shows "\<exists>m' ys. accept_round (accept_answer r) (node_answer r (nodes m)) (create_error r) (new_thread r) (join_error r) m = returns m' \<and>
    (case starts_at r m of None \<Rightarrow> main_inv ts fin arg m' ys
     | Some a \<Rightarrow> main_inv (ts @ [new_thread r]) fin (arg(new_thread r := a)) m' ys)"
proof -
  let ?p = "node_answer r (nodes m)"
  have f: "nodes m a = None" if "?p = Ptr a" for a using fresh that by (simp add: malloc_fresh_def)
  have sweep: "\<exists>m' ys. sweep_threads (join_error r) n = returns m' \<and> main_inv us fin brg m' ys"
    if "main_inv us fin brg n zs" for us brg n zs
    using sweep_threads_inv [OF that] by blast
  consider (none) "accept_answer r = - 1" | (failed) "accept_answer r \<noteq> - 1" "\<forall>a. create_error r \<or> ?p \<noteq> Ptr a"
    | (started) a where "accept_answer r \<noteq> - 1" "\<not> create_error r" "?p = Ptr a" by blast
  then show ?thesis
  proof cases
    case none
    then have "starts_at r m = None" by (auto simp: starts_at_def split: ptr.splits)
    with sweep [OF inv] none show ?thesis by (auto simp: accept_round_def)
  next
    case failed
    then have no: "starts_at r m = None" by (auto simp: starts_at_def split: ptr.splits)
    obtain m' where "new_client (accept_answer r) ?p (create_error r) (new_thread r) m = returns (False, m')" "main_inv ts fin arg m' xs"
      using new_client_failed [OF inv f failed(2)] by blast
    with failed(1) no show ?thesis by (auto simp: accept_round_def)
  next
    case (started a)
    then have st: "starts_at r m = Some a" by (simp add: starts_at_def)
    have new: "new_thread r \<notin> set ts" "new_thread r \<notin> fin" using t st by simp_all
    obtain m' where m': "new_client (accept_answer r) ?p (create_error r) (new_thread r) m = returns (True, m')"
        "main_inv (ts @ [new_thread r]) fin (arg(new_thread r := a)) m' (a # xs)"
      using new_client_started [OF inv f [OF started(3)] new] started(2,3) by auto
    with sweep [OF m'(2)] started(1) st show ?thesis by (auto simp: accept_round_def)
  qed
qed

lemma thread_end_inv:
  assumes inv: "main_inv ts fin arg m xs" and t: "t \<in> set ts" "t \<notin> fin"
  shows "nodes m (arg t) \<noteq> None"
    and "\<exists>m'. thread_func_end (arg t) m = returns m' \<and> main_inv ts (insert t fin) arg m' xs"
proof -
  have l: "thread_list m xs" using inv by (simp add: main_inv_def)
  obtain a where a: "a \<in> set xs" "tid (nodes m) a = t"
    using tids_created [OF l] t inv by (auto simp: main_inv_def)
  then have arg: "arg t = a" using inv by (auto simp: main_inv_def)
  obtain n where n: "nodes m a = Some n" using thread_list_node [OF l a(1)] by blast
  then show "nodes m (arg t) \<noteq> None" by (simp add: arg)
  obtain m' where m': "thread_func_end a m = returns m'" "thread_list m' xs"
    using thread_func_end_ok [OF l, of a] n by auto
  have upd: "nodes m' = (nodes m)(a \<mapsto> n\<lparr>thread_complete := True\<rparr>)" "created m' = created m" "joined m' = joined m"
    using m'(1) n by (auto simp: thread_func_end_def node_at_def)
  have "arg (tid (nodes m') b) = b \<and> (running (nodes m') b \<longleftrightarrow> tid (nodes m') b \<notin> insert t fin)" if b: "b \<in> set xs" for b
  proof (cases "b = a")
    case True
    then show ?thesis using a(2) arg n by (simp add: upd tid_def running_def)
  next
    case False
    then have same: "tid (nodes m') b = tid (nodes m) b" "running (nodes m') b = running (nodes m) b"
      by (simp_all add: upd tid_def running_def)
    have "arg (tid (nodes m) b) = b" using inv b by (auto simp: main_inv_def)
    with False arg have "tid (nodes m) b \<noteq> t" by auto
    with same inv b show ?thesis by (auto simp: main_inv_def)
  qed
  with m' upd inv have "main_inv ts (insert t fin) arg m' xs" by (auto simp: main_inv_def)
  with m'(1) arg show "\<exists>m'. thread_func_end (arg t) m = returns m' \<and> main_inv ts (insert t fin) arg m' xs" by auto
qed

lemma join_first_inv:
  assumes inv: "main_inv ts fin arg m (a # xs)" and "tid (nodes m) a \<in> fin"
  shows "\<exists>m'. join_first m = returns m' \<and> main_inv ts fin arg m' xs"
proof -
  have l: "thread_list m (a # xs)" using inv by (simp add: main_inv_def)
  obtain m' where m': "join_first m = returns m'" "thread_list m' xs" "created m' = created m"
      "joined m' = joined m @ [tid (nodes m) a]" "\<forall>b \<in> set xs. nodes m' b = nodes m b"
    using join_first_ok [OF l] by blast
  then have "main_inv ts fin arg m' xs"
    using inv assms(2) by (simp add: main_inv_def tid_def running_def)
  with m'(1) show ?thesis by blast
qed

section \<open>The invariant of the whole server\<close>

text \<open>
  Every thread has a handler, a finished one has come to its end, and the main thread's list holds the
  structures of the others.
\<close>

definition sys_inv :: "'d system \<Rightarrow> nat list \<Rightarrow> bool" where
  "sys_inv s xs \<longleftrightarrow> main_inv (created (mthread s)) (finished s) (args s) (mthread s) xs \<and>
     dom (handlers (net s)) = set (created (mthread s)) \<and>
     (\<forall>t \<in> finished s. \<exists>env res. handlers (net s) t = Some (env, Ended res)) \<and>
     (mphase s = Returned \<longrightarrow> xs = [])"

lemma booted_inv: "booted ready s \<Longrightarrow> sys_inv s []"
  by (simp add: booted_def sys_inv_def main_inv_def thread_list_def no_clients_def SLIST_INIT_def SLIST_END_def)

lemma accept_step_ok:
  assumes inv: "sys_inv s xs" and acc: "mphase s = Accepts" and fresh: "fresh_round ok r env answers s"
  shows "\<exists>s1 ys. main_step r env answers s = returns (Some s1) \<and> sys_inv s1 ys"
proof -
  let ?m = "mthread s"
  have mi: "main_inv (created ?m) (finished s) (args s) ?m xs" and dom: "dom (handlers (net s)) = set (created ?m)"
    and fin: "\<forall>t \<in> finished s. \<exists>env res. handlers (net s) t = Some (env, Ended res)"
    using inv by (simp_all add: sys_inv_def)
  have new: "new_thread r \<notin> set (created ?m) \<and> new_thread r \<notin> finished s" if "starts_at r ?m \<noteq> None"
  proof -
    have none: "handlers (net s) (new_thread r) = None" using that fresh acc by (simp add: fresh_round_def)
    with fin have "new_thread r \<notin> finished s" by force
    with none dom show ?thesis by (metis domIff)
  qed
  have "malloc_fresh (Round r)" using fresh by (simp add: fresh_round_def)
  from accept_round_inv [OF mi this new] obtain m' ys where
    m': "accept_round (accept_answer r) (node_answer r (nodes ?m)) (create_error r) (new_thread r) (join_error r) ?m = returns m'"
    and inv': "case starts_at r ?m of None \<Rightarrow> main_inv (created ?m) (finished s) (args s) m' ys
     | Some a \<Rightarrow> main_inv (created ?m @ [new_thread r]) (finished s) ((args s)(new_thread r := a)) m' ys"
    by blast
  show ?thesis
  proof (cases "starts_at r ?m")
    case None
    with m' acc have "main_step r env answers s = returns (Some (s\<lparr>mthread := m', mphase := Tests\<rparr>))"
      by (simp add: main_step_def Let_def)
    moreover have "sys_inv (s\<lparr>mthread := m', mphase := Tests\<rparr>) ys"
      using None inv' dom fin by (auto simp: sys_inv_def main_inv_def)
    ultimately show ?thesis by blast
  next
    case (Some a)
    let ?s = "s\<lparr>mthread := m', mphase := Tests, args := (args s)(new_thread r := a),
      net := (net s)\<lparr>handlers := (handlers (net s))(new_thread r \<mapsto> (env, Receiving answers))\<rparr>\<rparr>"
    have "main_step r env answers s = returns (Some ?s)" using m' acc Some by (simp add: main_step_def Let_def)
    moreover have "created m' = created ?m @ [new_thread r]" using inv' Some by (simp add: main_inv_def)
    then have "sys_inv ?s ys" using new inv' Some dom fin by (auto simp: sys_inv_def)
    ultimately show ?thesis by blast
  qed
qed

text \<open>The last loop joins the first thread of the list as soon as it has finished.\<close>

lemma drain_step:
  assumes inv: "sys_inv s xs" and dr: "mphase s = Drains"
  shows "main_step r env answers s = returns (Some (s\<lparr>mphase := Returned\<rparr>)) \<and> xs = [] \<or>
    (\<exists>a zs. xs = a # zs \<and> tid (nodes (mthread s)) a \<in> set (created (mthread s)) \<and>
       (if tid (nodes (mthread s)) a \<in> finished s
        then \<exists>m'. main_step r env answers s = returns (Some (s\<lparr>mthread := m'\<rparr>)) \<and>
          main_inv (created (mthread s)) (finished s) (args s) m' zs
        else main_step r env answers s = returns None))"
proof -
  let ?m = "mthread s"
  have mi: "main_inv (created ?m) (finished s) (args s) ?m xs" using inv by (simp add: sys_inv_def)
  then have l: "thread_list ?m xs" by (simp add: main_inv_def)
  then have first: "head ?m = first_of xs" using slist_first [of "nodes ?m" "head ?m" xs] by (simp add: thread_list_def)
  show ?thesis
  proof (cases xs)
    case Nil
    with first dr show ?thesis by (simp add: main_step_def Let_def SLIST_EMPTY_def SLIST_END_def)
  next
    case (Cons a zs)
    obtain n where n: "nodes ?m a = Some n" "node_at ?m (Ptr a) = returns (a, n)"
      using l thread_list_node [of ?m xs a] Cons by auto
    then have run: "main_step r env answers s = (if tid (nodes ?m) a \<in> finished s
        then bindC (join_first ?m) (\<lambda>m'. returns (Some (s\<lparr>mthread := m'\<rparr>))) else returns None)"
      using dr first Cons by (simp add: main_step_def Let_def SLIST_EMPTY_def SLIST_END_def SLIST_FIRST_def tid_def)
    have "tid (nodes ?m) a \<in> set (created ?m)" using tids_created [OF l] Cons by simp
    with run join_first_inv mi Cons show ?thesis by (cases "tid (nodes ?m) a \<in> finished s") fastforce+
  qed
qed

lemma main_step_ok:
  assumes inv: "sys_inv s xs" and fresh: "mphase s = Accepts \<Longrightarrow> fresh_round ok r env answers s"
  shows "\<exists>s'. main_step r env answers s = returns s' \<and> (\<forall>s1. s' = Some s1 \<longrightarrow> (\<exists>ys. sys_inv s1 ys))"
proof (cases "mphase s")
  case Tests
  with inv show ?thesis by (auto simp: main_step_def sys_inv_def Let_def intro!: exI [of _ xs])
next
  case Accepts
  from accept_step_ok [OF inv this fresh [OF this]] show ?thesis by auto
next
  case Drains
  have "sys_inv (s\<lparr>mthread := m'\<rparr>) zs" if "main_inv (created (mthread s)) (finished s) (args s) m' zs" for m' zs
    using that inv Drains by (simp add: sys_inv_def main_inv_def)
  moreover have "sys_inv (s\<lparr>mphase := Returned\<rparr>) []" if "xs = []" using inv that by (simp add: sys_inv_def)
  ultimately show ?thesis using drain_step [OF inv Drains, of r env answers] by (auto split: if_splits)
qed (simp add: main_step_def)

lemma thread_step_ok:
  assumes inv: "sys_inv s xs" and step: "\<exists>r. clients_step api piece t (net s) = returns r"
  shows "\<exists>s'. thread_step api piece t s = returns s' \<and> (\<forall>s1. s' = Some s1 \<longrightarrow> sys_inv s1 xs)"
proof (cases "handlers (net s) t")
  case (Some eph)
  let ?m = "mthread s"
  have mi: "main_inv (created ?m) (finished s) (args s) ?m xs" and dom: "dom (handlers (net s)) = set (created ?m)"
    and fin: "\<forall>t \<in> finished s. \<exists>env res. handlers (net s) t = Some (env, Ended res)"
    using inv by (simp_all add: sys_inv_def)
  obtain env ph where ph: "handlers (net s) t = Some (env, ph)" using Some by (cases eph) auto
  show ?thesis
  proof (cases "t \<in> finished s")
    case False
    have "t \<in> set (created ?m)" using ph dom by blast
    note ends = thread_end_inv [OF mi this False]
    obtain nd where nd: "node_at ?m (Ptr (args s t)) = returns nd" using ends(1) by (auto simp: node_at_def)
    obtain rn where rn: "clients_step api piece t (net s) = returns rn" using step by blast
    have moved: "sys_inv (s\<lparr>net := n\<rparr>) xs" if "rn = Some n" "\<forall>res. ph \<noteq> Ended res" for n
    proof -
      have "clients_step api piece t (net s) = returns (Some n)" using rn that(1) by simp
      from clients_step_moved [OF this ph] obtain ph' where "handlers n = (handlers (net s))(t \<mapsto> (env, ph'))" .
      moreover from this have "dom (handlers n) = dom (handlers (net s))" using ph by auto
      ultimately show ?thesis using inv False by (auto simp: sys_inv_def)
    qed
    show ?thesis
    proof (cases "\<exists>res. ph = Ended res")
      case True
      obtain m' where m': "thread_func_end (args s t) ?m = returns m'"
          "main_inv (created ?m) (insert t (finished s)) (args s) m' xs"
        using ends(2) by blast
      then have "created m' = created ?m" by (simp add: main_inv_def)
      with m' True ph False inv show ?thesis by (auto simp: thread_step_def sys_inv_def)
    next
      case no: False
      have "thread_step api piece t s = returns (map_option (\<lambda>n. s\<lparr>net := n\<rparr>) rn)"
        using ph False no nd rn by (cases ph) (simp_all add: thread_step_def)
      with moved no show ?thesis by (cases rn) auto
    qed
  qed (use ph in \<open>simp add: thread_step_def\<close>)
qed (simp add: thread_step_def)

text \<open>What every thread of a main thread that has returned has done.\<close>

lemma returned_all_done:
  assumes "sys_inv s xs" and "mphase s = Returned"
  shows "nodes (mthread s) = Map.empty" and "mset (joined (mthread s)) = mset (created (mthread s))"
    and "dom (handlers (net s)) = set (created (mthread s))"
    and "t \<in> set (created (mthread s)) \<Longrightarrow> \<exists>env res. handlers (net s) t = Some (env, Ended res)"
    and "set (created (mthread s)) \<subseteq> finished s"
proof -
  have xs: "main_inv (created (mthread s)) (finished s) (args s) (mthread s) []"
    and fin: "\<forall>t \<in> finished s. \<exists>env res. handlers (net s) t = Some (env, Ended res)"
    using assms by (auto simp: sys_inv_def)
  then show "nodes (mthread s) = Map.empty" and "mset (joined (mthread s)) = mset (created (mthread s))"
    by (auto simp: main_inv_def thread_list_def)
  then have "set (created (mthread s)) = set (joined (mthread s))" by (metis set_mset_mset)
  with xs show "set (created (mthread s)) \<subseteq> finished s" by (simp add: main_inv_def)
  with fin show "t \<in> set (created (mthread s)) \<Longrightarrow> \<exists>env res. handlers (net s) t = Some (env, Ended res)"
    by blast
  show "dom (handlers (net s)) = set (created (mthread s))" using assms(1) by (simp add: sys_inv_def)
qed

lemma returned_no_step:
  assumes "sys_inv s xs" and "mphase s = Returned"
  shows "thread_step api piece t s = returns None"
proof (cases "handlers (net s) t")
  case (Some eph)
  then have "t \<in> finished s" using returned_all_done(3,5) [OF assms] by blast
  with Some show ?thesis by (cases eph) (simp add: thread_step_def)
qed (simp add: thread_step_def)

section \<open>Shutting down\<close>

text \<open>Once the main thread is in its last loop, every step of any thread makes this smaller.\<close>

definition shutdown_left :: "nat \<Rightarrow> 'd system \<Rightarrow> (nat \<times> nat) \<times> nat \<times> nat" where
  "shutdown_left n s = (steps_left n (net s), card (dom (handlers (net s)) - finished s),
     if mphase s = Returned then 0 else Suc (card (dom (nodes (mthread s)))))"

abbreviation shutdown_order :: "(((nat \<times> nat) \<times> nat \<times> nat) \<times> (nat \<times> nat) \<times> nat \<times> nat) set" where
  "shutdown_order \<equiv> (less_than <*lex*> less_than) <*lex*> less_than <*lex*> less_than"

abbreviation drained :: "'d system \<Rightarrow> bool" where
  "drained s \<equiv> Drains \<le> mphase s"

lemma main_drains_less:
  assumes inv: "sys_inv s xs" and "drained s" and step: "main_step r env answers s = returns (Some s')"
  shows "drained s'" and "net s' = net s" and "(shutdown_left n s', shutdown_left n s) \<in> shutdown_order"
proof -
  let ?m = "mthread s"
  have dr: "mphase s = Drains" using assms(2,3) by (auto simp: main_step_def)
  have l: "thread_list ?m xs" using inv by (simp add: sys_inv_def main_inv_def)
  have size: "card (dom (nodes m)) = length ys" if "thread_list m ys" for m ys
    using that slist_distinct [of "nodes m" "head m" ys] by (simp add: thread_list_def distinct_card)
  have "drained s' \<and> net s' = net s \<and> (shutdown_left n s', shutdown_left n s) \<in> shutdown_order"
    using drain_step [OF inv dr, of r env answers] step
  proof (elim disjE exE conjE)
    fix a zs
    assume xs: "xs = a # zs" and if_fin: "if tid (nodes ?m) a \<in> finished s
        then \<exists>m'. main_step r env answers s = returns (Some (s\<lparr>mthread := m'\<rparr>)) \<and>
          main_inv (created ?m) (finished s) (args s) m' zs
        else main_step r env answers s = returns None"
    then obtain m' where m': "s' = s\<lparr>mthread := m'\<rparr>" "main_inv (created ?m) (finished s) (args s) m' zs"
      using step by (auto split: if_splits)
    then have "thread_list m' zs" by (simp add: main_inv_def)
    from size [OF this] size [OF l] xs m'(1) dr show ?thesis by (simp add: shutdown_left_def)
  qed (use dr in \<open>auto simp: shutdown_left_def\<close>)
  then show "drained s'" and "net s' = net s" and "(shutdown_left n s', shutdown_left n s) \<in> shutdown_order" by simp_all
qed

text \<open>A thread that waits for nothing can step; the main thread waits only for threads that have not finished.\<close>

lemma drains_can_step:
  assumes inv: "sys_inv s xs" and "mphase s = Drains" and "\<And>t. t \<in> dom (handlers (net s)) \<Longrightarrow> t \<in> finished s"
  shows "\<exists>s'. main_step r env answers s = returns (Some s')"
proof -
  have "set (created (mthread s)) \<subseteq> finished s" using inv assms(3) by (auto simp: sys_inv_def)
  with drain_step [OF inv assms(2), of r env answers] show ?thesis by (auto split: if_splits)
qed

lemma thread_can_step:
  assumes inv: "sys_inv s xs" and ph: "handlers (net s) t = Some (env, ph)" and "t \<notin> finished s"
    and moves: "(\<exists>res. ph = Ended res) \<or> (\<exists>n. clients_step api piece t (net s) = returns (Some n))"
  shows "\<exists>s'. thread_step api piece t s = returns (Some s')"
proof -
  have mi: "main_inv (created (mthread s)) (finished s) (args s) (mthread s) xs" and "t \<in> set (created (mthread s))"
    using inv ph by (auto simp: sys_inv_def)
  note ends = thread_end_inv [OF mi this(2) assms(3)]
  show ?thesis
  proof (cases "\<exists>res. ph = Ended res")
    case True
    with ends(2) ph assms(3) show ?thesis by (auto simp: thread_step_def)
  next
    case False
    obtain nd where "node_at (mthread s) (Ptr (args s t)) = returns nd" using ends(1) by (auto simp: node_at_def)
    with False moves ph assms(3) show ?thesis by (cases ph) (auto simp: thread_step_def)
  qed
qed

text \<open>
  Threads that have not finished and whose clients all stay silent: then no thread moves, and the main
  thread waits for one of them. A silent client stays silent.
\<close>

definition stalled :: "'d system \<Rightarrow> bool" where
  "stalled s \<longleftrightarrow> dom (handlers (net s)) - finished s \<noteq> {} \<and> (\<forall>t \<in> dom (handlers (net s)) - finished s. silent (net s) t)"

lemma silent_waits: "handlers s t = Some (env, Receiving []) \<Longrightarrow> smooth env \<Longrightarrow> clients_step api piece t s = returns None"
  by (simp add: clients_step_def handler_step_def receive_silence)

lemma silent_thread_step:
  assumes step: "thread_step api piece u s = returns (Some s')" and h: "handlers (net s) t = Some (env, Receiving [])" "smooth env"
  shows "handlers (net s') t = Some (env, Receiving [])"
  using step
proof (cases rule: thread_step_cases)
  case (net env2 ph n)
  have "u \<noteq> t" using silent_waits [OF h, of api piece] net(4) by auto
  moreover obtain ph' where "handlers n = (handlers (net s))(u \<mapsto> (env2, ph'))" using clients_step_moved [OF net(4,1)] .
  ultimately show ?thesis using h(1) net(5) by simp
qed (use h(1) in simp)

lemma silent_main_step:
  assumes "main_step r env2 answers s = returns (Some s')" and "fresh_round ok r env2 answers s"
    and "handlers (net s) t = Some (env, Receiving [])"
  shows "handlers (net s') t = Some (env, Receiving [])"
proof (cases "mphase s")
  case Accepts
  with assms show ?thesis
    by (auto simp: main_step_def fresh_round_def bindC_eq_returns Let_def split: option.splits)
next
  case Drains
  with assms(1,3) show ?thesis by (auto simp: main_step_def bindC_eq_returns Let_def split: if_splits)
qed (use assms(1,3) in \<open>auto simp: main_step_def\<close>)

lemma silent_stays:
  assumes "handlers (net s) t = Some (env, Receiving [])" and "smooth env"
  shows "system_run api piece store ok s evs s' \<Longrightarrow> handlers (net s') t = Some (env, Receiving [])"
proof (induction rule: system_run.induct)
  case (sys_thread evs s1 u s2)
  show ?case by (rule silent_thread_step [OF sys_thread.hyps(2) sys_thread.IH assms(2)])
next
  case (sys_main evs s1 r env2 answers s2)
  show ?case by (rule silent_main_step [OF sys_main.hyps(3,2) sys_main.IH])
qed (use assms(1) in simp_all)

lemma system_run_trans:
  "system_run api piece store ok s evs' s' \<Longrightarrow> system_run api piece store ok s0 evs s \<Longrightarrow>
   system_run api piece store ok s0 (evs @ evs') s'"
  by (induction rule: system_run.induct) (auto intro: sys_main sys_thread sys_signal simp flip: append_assoc)

text \<open>A round in which a client comes on connection 4 and gets thread 1.\<close>

definition one_round :: round_answers where
  "one_round = (case round_of 4 1 of Round r \<Rightarrow> r)"

lemma one_round_eval: "starts_at one_round idle_server = Some 1" "new_thread one_round = 1"
  by code_simp+

lemma one_round_fresh: "malloc_fresh (Round one_round)"
  using round_of_fresh [of 4 1] by (simp add: one_round_def round_of_def)

end
