(* ===== verification/Socket_Shutdown.thy ===== *)
theory Socket_Shutdown
  imports Socket_System
begin

text \<open>
  The whole server on the character device: no step of any of its threads faults, it comes to its end
  once its last loop has begun, and has then served every client.
\<close>

section \<open>The server on the character device\<close>

abbreviation serving ::
  "kernel \<Rightarrow> (nat \<Rightarrow> byte list) \<Rightarrow> kworld system \<Rightarrow> command_store append_event list \<Rightarrow> kworld system \<Rightarrow> bool" where
  "serving K L \<equiv> system_run (aesdchar_log K) (aesdchar_piece K) world_store (sends_request True L)"

abbreviation run_thread :: "kernel \<Rightarrow> nat \<Rightarrow> kworld system \<Rightarrow> kworld system option comp" where
  "run_thread K \<equiv> thread_step (aesdchar_log K) (aesdchar_piece K)"

lemma serving_inv:
  assumes "copying K" and "booted idle s0" and "serving K L s0 evs s"
  shows "server_inv L (world_store (log_file (net s0))) evs (net s)" and "\<exists>xs. sys_inv s xs"
proof -
  have clients: "server_inv L (world_store (log_file (net s0))) evs (net s)"
    if "serving K L s0 evs s" for evs s
    using server_run_inv [OF assms(1) _ system_clients [OF that]] assms(2) by (simp add: booted_def)
  then show "server_inv L (world_store (log_file (net s0))) evs (net s)" using assms(3) .
  from assms(3) show "\<exists>xs. sys_inv s xs"
  proof (induction rule: system_run.induct)
    case sys_start
    show ?case using booted_inv [OF assms(2)] by blast
  next
    case (sys_main evs s r env answers s')
    then obtain xs where "sys_inv s xs" by blast
    from main_step_ok [OF this sys_main.hyps(2)] sys_main.hyps(3) show ?case by auto
  next
    case (sys_thread evs s t s')
    then obtain xs where xs: "sys_inv s xs" by blast
    have "\<exists>r. server_step K t (net s) = returns r"
      using clients.step_returns [where K = K, OF clients [OF sys_thread.hyps(1)]] assms(1) by (simp add: some_copying_def)
    from thread_step_ok [OF xs this] sys_thread.hyps(2) show ?case by auto
  next
    case (sys_signal evs s)
    then show ?case by (auto simp: sys_inv_def)
  qed
qed

section \<open>Shutting down\<close>

abbreviation text_size :: "kworld system \<Rightarrow> nat" where
  "text_size s \<equiv> length (contents (world_store (log_file (net s))))"

lemma drained_step:
  assumes K: "copying K" and inv: "server_inv L x evs (net s)" "sys_inv s xs" and dr: "drained s"
    and step: "(\<exists>t. run_thread K t s = returns (Some s')) \<or> (\<exists>r env answers. main_step r env answers s = returns (Some s'))"
  shows "\<exists>evs' xs'. server_inv L x evs' (net s') \<and> sys_inv s' xs' \<and> drained s' \<and>
    dom (handlers (net s')) = dom (handlers (net s)) \<and> ((\<forall>t. \<not> silent (net s) t) \<longrightarrow> (\<forall>t. \<not> silent (net s') t)) \<and>
    (shutdown_left (text_size s') s', shutdown_left (text_size s) s) \<in> shutdown_order"
  using step
proof (elim disjE exE)
  fix r env answers
  assume m: "main_step r env answers s = returns (Some s')"
  note less = main_drains_less(1,2) [OF inv(2) dr m] main_drains_less(3) [OF inv(2) dr m, of "text_size s"]
  have "\<exists>ys. sys_inv s' ys" using main_step_ok [OF inv(2), of undefined r env answers] dr m by auto
  with less inv(1) show ?thesis by auto
next
  fix t
  assume t: "run_thread K t s = returns (Some s')"
  have some: "some_copying K = K" using K by (simp add: some_copying_def)
  have "\<exists>r. server_step K t (net s) = returns r" using clients.step_returns [where K = K, OF inv(1)] some by simp
  from thread_step_ok [OF inv(2) this] t have sys: "sys_inv s' xs" by auto
  from t show ?thesis
  proof (cases rule: thread_step_cases)
    case (net env ph n)
    obtain ph' where "handlers n = (handlers (net s))(t \<mapsto> (env, ph'))" using clients_step_moved [OF net(4,1)] .
    then have "dom (handlers n) = dom (handlers (net s))" using net(1) by auto
    moreover have "\<exists>evs'. server_inv L x evs' n"
      using clients.clients_step_moves [where K = K, OF inv(1) net(1)] net(4) some by auto
    moreover have "(steps_left (text_size s') n, steps_left (text_size s) (net s)) \<in> less_than <*lex*> less_than"
      using clients.clients_step_less [where K = K, OF inv(1)] net(4,5) some by auto
    ultimately show ?thesis using sys dr net(5) still_heard [OF net(4)] by (auto simp: shutdown_left_def)
  next
    case (finish env res m)
    have "t \<in> dom (handlers (net s)) - finished s" using finish(1,2) by auto
    then have "card (dom (handlers (net s)) - insert t (finished s)) < card (dom (handlers (net s)) - finished s)"
      using clients_invD(8) [OF inv(1)] by (intro psubset_card_mono) auto
    with sys dr finish(4) inv(1) show ?thesis by (auto simp: shutdown_left_def)
  qed
qed

lemma drained_can_step:
  assumes K: "copying K" and inv: "server_inv L x evs (net s)" "sys_inv s xs" and dr: "mphase s = Drains"
  shows "(\<exists>t s'. run_thread K t s = returns (Some s')) \<or> (\<exists>s'. main_step r env answers s = returns (Some s')) \<or> stalled s"
proof (cases "\<exists>t \<in> dom (handlers (net s)) - finished s. \<not> silent (net s) t")
  case False
  with drains_can_step [OF inv(2) dr] show ?thesis unfolding stalled_def by blast
next
  case True
  then obtain t env ph where t: "handlers (net s) t = Some (env, ph)" "t \<notin> finished s" "ph \<noteq> Receiving []"
    by (auto simp: silent_def)
  have some: "some_copying K = K" using K by (simp add: some_copying_def)
  show ?thesis
  proof (cases "\<exists>res. ph = Ended res")
    case True
    with thread_can_step [OF inv(2) t(1,2)] show ?thesis by blast
  next
    case False
    then obtain u n where u: "server_step K u (net s) = returns (Some n)"
      using clients.some_step [where K = K, OF inv(1) t(1)] t(3) some by auto
    then obtain env2 ph2 where h: "handlers (net s) u = Some (env2, ph2)"
      by (auto simp: clients_step_def split: option.splits)
    then have "\<forall>res. ph2 \<noteq> Ended res" using u by (auto simp: clients_step_def handler_step_def)
    with h inv(2) have "u \<notin> finished s" by (force simp: sys_inv_def)
    with thread_can_step [OF inv(2) h] u show ?thesis by blast
  qed
qed

lemma shuts_down:
  assumes K: "copying K" and boot: "booted idle s0" and "serving K L s0 evs s" and "drained s" and "\<forall>t. \<not> silent (net s) t"
  shows "\<exists>evs' s'. serving K L s0 evs' s' \<and> mphase s' = Returned \<and> dom (handlers (net s')) = dom (handlers (net s))"
  using assms(3-5)
proof (induction "shutdown_left (text_size s) s" arbitrary: s evs rule: wf_induct_rule
    [OF wf_lex_prod [OF wf_lex_prod [OF wf_less_than wf_less_than] wf_lex_prod [OF wf_less_than wf_less_than]]])
  case (1 s)
  note inv = serving_inv [OF K boot 1(2)]
  obtain xs where xs: "sys_inv s xs" using inv(2) by blast
  define r where "r = (case round_of (- 1) 0 of Round r \<Rightarrow> r)"
  have fresh: "malloc_fresh (Round r)" using round_of_fresh [of "- 1" 0] by (simp add: r_def round_of_def)
  show ?case
  proof (cases "mphase s = Returned")
    case False
    with 1(3) have dr: "mphase s = Drains" by simp
    obtain s1 where s1: "(\<exists>t. run_thread K t s = returns (Some s1)) \<or> main_step r undefined [] s = returns (Some s1)"
      using drained_can_step [OF K inv(1) xs dr, of r undefined "[]"] 1(4) unfolding stalled_def by blast
    then have "(\<exists>t. run_thread K t s = returns (Some s1)) \<or> (\<exists>r env answers. main_step r env answers s = returns (Some s1))"
      by blast
    from drained_step [OF K inv(1) xs 1(3) this]
    have less: "(shutdown_left (text_size s1) s1, shutdown_left (text_size s) s) \<in> shutdown_order"
      and s1': "drained s1" "dom (handlers (net s1)) = dom (handlers (net s))" "\<forall>t. \<not> silent (net s1) t"
      using 1(4) by blast+
    have "fresh_round (sends_request True L) r undefined [] s" using fresh dr by (simp add: fresh_round_def)
    with s1 obtain evs1 where "serving K L s0 evs1 s1"
      using sys_main [OF 1(2)] sys_thread [OF 1(2)] by blast
    from 1(1) [OF less this s1'(1,3)] s1'(2) show ?thesis by simp
  qed (use 1(2) in blast)
qed

section \<open>A run\<close>

text \<open>
  A server that a client comes to and that then catches a signal; the client sends the line \<open>b\<close>, or stays
  silent.
\<close>

definition booted_system :: "kworld system" where
  "booted_system = \<lparr>mthread = idle_server, mphase = Tests, caught = False, net = empty_server,
     args = (\<lambda>t. 0), finished = {}\<rparr>"

lemma booted_system_start: "booted idle booted_system"
  using empty_server_start by (simp add: booted_def booted_system_def idle_server_def)

lemma client_drains:
  assumes ok: "sends_request True request_of 1 calm_env answers"
  shows "\<exists>s. serving copying_kernel request_of booted_system [] s \<and> mphase s = Drains \<and>
    handlers (net s) = [1 \<mapsto> (calm_env, Receiving answers)]"
proof -
  let ?serving = "serving copying_kernel request_of booted_system []"
  let ?s1 = "booted_system\<lparr>mphase := Accepts\<rparr>"
  have mal: "malloc_fresh (Round one_round)"
    using round_of_fresh [of 4 1] by (simp add: one_round_def round_of_def)
  then have fresh: "fresh_round (sends_request True request_of) one_round calm_env answers s"
    if "handlers (net s) 1 = None \<or> mphase s \<noteq> Accepts" for s :: "kworld system"
    using that ok by (auto simp: fresh_round_def one_round_eval)
  have empty: "handlers (net booted_system) = Map.empty" by (simp add: booted_system_def empty_server_def)
  have run1: "?serving ?s1"
    by (rule sys_main [OF sys_start fresh]) (simp_all add: empty main_step_def, simp add: booted_system_def idle_server_def)
  have "main_inv [] {} (\<lambda>t. 0) idle_server []"
    by (simp add: main_inv_def thread_list_def idle_server_def SLIST_INIT_def SLIST_END_def)
  from accept_round_inv [OF this mal] obtain m' where
    m': "accept_round (accept_answer one_round) (node_answer one_round (nodes idle_server)) (create_error one_round)
       (new_thread one_round) (join_error one_round) idle_server = returns m'"
    by auto
  let ?s2 = "?s1\<lparr>mthread := m', mphase := Tests, args := (args ?s1)(1 := 1),
      net := (net ?s1)\<lparr>handlers := (handlers (net ?s1))(1 \<mapsto> (calm_env, Receiving answers))\<rparr>\<rparr>"
  have "main_step one_round calm_env answers ?s1 = returns (Some ?s2)"
    using m' one_round_eval by (simp add: main_step_def booted_system_def Let_def)
  with run1 have run2: "?serving ?s2"
    by (intro sys_main [OF run1 fresh]) (simp_all add: empty)
  let ?s3 = "?s2\<lparr>caught := True, mphase := Drains\<rparr>"
  have "?serving (?s2\<lparr>caught := True\<rparr>)" using run2 by (rule sys_signal)
  then have "?serving ?s3"
    by (rule sys_main [OF _ fresh]) (simp_all add: main_step_def)
  then show ?thesis by (intro exI [of _ ?s3]) (simp add: empty)
qed

lemma one_client_drains:
  "\<exists>s. serving copying_kernel request_of booted_system [] s \<and> mphase s = Drains \<and> dom (handlers (net s)) = {1} \<and>
     (\<forall>t. \<not> silent (net s) t)"
proof -
  obtain s where "serving copying_kernel request_of booted_system [] s" "mphase s = Drains"
      "handlers (net s) = [1 \<mapsto> (calm_env, Receiving [Recv (request_of 1)])]"
    using client_drains [OF requests_sent [of 1, unfolded request_answers]] by blast
  then show ?thesis by (intro exI [of _ s]) (simp add: silent_def)
qed

lemma silent_client_drains:
  "\<exists>s. serving copying_kernel request_of booted_system [] s \<and> mphase s = Drains \<and> silent (net s) 1"
proof -
  have "sends_request True request_of 1 calm_env []"
    using requests_sent [of 1] by (simp add: sends_request_def)
  from client_drains [OF this] show ?thesis by (auto simp: silent_def)
qed

section \<open>Properties\<close>

text \<open>
  C4: In the whole server, on surroundings whose calls succeed (\<open>smooth\<close>, \<open>copying\<close>) and for any number of
  clients that each send one line or seek command in one piece, close at once or stay silent
  (\<open>sends_request\<close>; for some others \<open>handle_client\<close> itself reads out of bounds): however the threads
  interleave, no step of any thread faults. A handler's structure is there when the handler reads and
  marks it, the main thread's list is sound, and the main thread joins, and thereby frees, only threads
  that have finished.
\<close>

theorem server_threads_never_fault:
  assumes "copying K" and "booted idle s0" and "serving K L s0 evs s"
  shows "(\<exists>r. run_thread K t s = returns r) \<and>
    (fresh_round (sends_request True L) r env answers s \<longrightarrow> (\<exists>s'. main_step r env answers s = returns s')) \<and>
    set (joined (mthread s)) \<subseteq> finished s"
proof -
  note inv = serving_inv [OF assms]
  obtain xs where xs: "sys_inv s xs" using inv(2) by blast
  have "\<exists>r. server_step K t (net s) = returns r"
    using clients.step_returns [where K = K, OF inv(1)] assms(1) by (simp add: some_copying_def)
  from thread_step_ok [OF xs this] main_step_ok [OF xs, of "sends_request True L" r env answers] xs show ?thesis
    by (auto simp: sys_inv_def main_inv_def)
qed

theorem server_threads_never_fault_witness:
  "\<exists>s. serving copying_kernel request_of booted_system [] s \<and> dom (handlers (net s)) = {1} \<and>
     (\<exists>r. run_thread copying_kernel 1 s = returns r) \<and> set (joined (mthread s)) \<subseteq> finished s"
proof -
  obtain s where s: "serving copying_kernel request_of booted_system [] s" "dom (handlers (net s)) = {1}"
    using one_client_drains by blast
  have "(\<exists>r. run_thread copying_kernel 1 s = returns r) \<and> set (joined (mthread s)) \<subseteq> finished s"
    using server_threads_never_fault [OF copying_copying_kernel booted_system_start s(1), of 1 one_round calm_env "[]"] by simp
  with s show ?thesis by (intro exI [of _ s]) simp
qed



text \<open>
  C5: Once the main thread is in its last loop, for clients and surroundings as in the last two properties: no schedule of
  the threads is endless, and until the main thread has returned some thread can take a step, unless
  every thread that has not finished waits in \<open>recv\<close> for a client that stays silent. So with no silent
  clients the server comes to its end.
\<close>

theorem server_shuts_down:
  assumes "copying K" and "booted idle s0" and "serving K L s0 evs s" and "mphase s = Drains"
  shows "\<not> (\<exists>f. f 0 = s \<and> (\<forall>i. (\<exists>t. run_thread K t (f i) = returns (Some (f (Suc i)))) \<or>
      (\<exists>r env answers. main_step r env answers (f i) = returns (Some (f (Suc i)))))) \<and>
    ((\<exists>t s'. run_thread K t s = returns (Some s')) \<or> (\<exists>s'. main_step r env answers s = returns (Some s')) \<or> stalled s)"
proof (intro conjI notI)
  note inv = serving_inv [OF assms(1-3)]
  then show "(\<exists>t s'. run_thread K t s = returns (Some s')) \<or> (\<exists>s'. main_step r env answers s = returns (Some s')) \<or> stalled s"
    using drained_can_step [OF assms(1) inv(1) _ assms(4)] by blast
  assume "\<exists>f. f 0 = s \<and> (\<forall>i. (\<exists>t. run_thread K t (f i) = returns (Some (f (Suc i)))) \<or>
      (\<exists>r env answers. main_step r env answers (f i) = returns (Some (f (Suc i)))))"
  then obtain f where f: "f 0 = s" "\<And>i. (\<exists>t. run_thread K t (f i) = returns (Some (f (Suc i)))) \<or>
      (\<exists>r env answers. main_step r env answers (f i) = returns (Some (f (Suc i))))" by blast
  have keeps: "\<exists>evs xs. server_inv L (world_store (log_file (net s0))) evs (net (f i)) \<and> sys_inv (f i) xs \<and> drained (f i)" for i
  proof (induction i)
    case 0
    with inv assms(4) f(1) show ?case by auto
  next
    case (Suc i)
    then show ?case using drained_step [OF assms(1) _ _ _ f(2)] by blast
  qed
  let ?g = "\<lambda>i. shutdown_left (text_size (f i)) (f i)"
  have "(?g (Suc i), ?g i) \<in> shutdown_order" for i
    using keeps [of i] drained_step [OF assms(1) _ _ _ f(2)] by blast
  moreover have "wf shutdown_order" by auto
  ultimately show False unfolding wf_iff_no_infinite_down_chain by (blast intro: exI [of _ ?g])
qed

theorem server_shuts_down_witness:
  "\<exists>s. serving copying_kernel request_of booted_system [] s \<and> mphase s = Drains \<and> dom (handlers (net s)) = {1} \<and>
     ((\<exists>t s'. run_thread copying_kernel t s = returns (Some s')) \<or>
      (\<exists>s'. main_step one_round calm_env [] s = returns (Some s')))"
proof -
  obtain s where s: "serving copying_kernel request_of booted_system [] s" "mphase s = Drains" "dom (handlers (net s)) = {1}"
      "\<forall>t. \<not> silent (net s) t"
    using one_client_drains by blast
  then have "\<not> stalled s" by (auto simp: stalled_def)
  with server_shuts_down [OF copying_copying_kernel booted_system_start s(1,2), of one_round calm_env "[]", THEN conjunct2] s(1-3)
  show ?thesis by (intro exI [of _ s]) blast
qed



end
