(* ===== verification/Socket_File.thy ===== *)
theory Socket_File
  imports Socket_Sharing
begin

text \<open>
  The log of the server built without \<open>USE_AESD_CHAR_DEVICE\<close>: the ordinary file
  \<open>/var/tmp/aesdsocketdata\<close>, as a \<open>log_api\<close>. It keeps the contracts \<open>pieced_log\<close> and \<open>shared_log\<close>
  like the character device does, but holds everything that was ever written.
\<close>

section \<open>An ordinary file\<close>

text \<open>
  The bytes of the file, \<open>None\<close> when there is none. \<open>fopen\<close> for appending makes one; whether \<open>fopen\<close>
  succeeds is an answer in \<open>client_env\<close>.
\<close>

type_synonym plain_file = "byte list option"

definition file_text :: "plain_file \<Rightarrow> byte list" where
  "file_text d = (case d of None \<Rightarrow> [] | Some bs \<Rightarrow> bs)"

lemma file_text_simps [simp]: "file_text None = []" "file_text (Some bs) = bs"
  by (simp_all add: file_text_def)

text \<open>How many bytes of a write the file takes: the server does not look at the result of \<open>fwrite\<close> or \<open>fputs\<close>.\<close>

type_synonym disk = "byte list \<Rightarrow> plain_file \<Rightarrow> nat"

definition file_append :: "disk \<Rightarrow> byte list \<Rightarrow> plain_file \<Rightarrow> plain_file comp" where
  "file_append disk bs d = returns (Some (file_text d @ take (disk bs d) bs))"

text \<open>This build issues no seek command; an ordinary file would refuse it and be read from its start.\<close>

definition file_seek :: "u32 \<Rightarrow> u32 \<Rightarrow> plain_file \<Rightarrow> (i64 \<times> plain_file) comp" where
  "file_seek c x d = returns (0, Some (file_text d))"

definition file_rest :: "i64 \<Rightarrow> plain_file \<Rightarrow> (byte list \<times> plain_file) comp" where
  "file_rest pos d = returns (drop (unat pos) (file_text d), d)"

text \<open>One \<open>read\<close> of \<open>stdio\<close>, into its buffer of 4096 bytes.\<close>

definition file_piece :: "plain_file log_piece" where
  "file_piece pos d =
     (let bs = take 4096 (drop (unat pos) (file_text d))
      in returns (bs = [], bs, pos + of_nat (length bs), d))"

definition file_log :: "disk \<Rightarrow> plain_file log_api" where
  "file_log disk = \<lparr>log_append = file_append disk, log_seek = file_seek, log_rest = file_rest\<rparr>"

section \<open>The file keeps the contracts\<close>

text \<open>
  A disk that takes a write as a whole or not at all, and no more than a file can hold. On others lines
  can be cut off.
\<close>

definition whole_writes :: "disk \<Rightarrow> bool" where
  "whole_writes disk \<longleftrightarrow>
     (\<forall>bs d. disk bs d = 0 \<or> length bs \<le> disk bs d \<and> length (file_text d) + length bs < 2 ^ 63)"

definition fitting_disk :: disk where
  "fitting_disk bs d = (if length (file_text d) + length bs < 2 ^ 63 then length bs else 0)"

lemma fitting_whole: "whole_writes fitting_disk"
  by (simp add: whole_writes_def fitting_disk_def)

definition some_disk :: "disk \<Rightarrow> disk" where
  "some_disk disk = (if whole_writes disk then disk else fitting_disk)"

lemma some_disk_whole: "whole_writes (some_disk disk)"
  by (simp add: some_disk_def fitting_whole)

definition file_fits :: "plain_file \<Rightarrow> bool" where
  "file_fits d \<longleftrightarrow> length (file_text d) < 2 ^ 63"

lemma file_append_ok:
  assumes "whole_writes disk" and "file_fits d"
  shows "\<exists>d'. file_append disk bs d = returns d' \<and> file_fits d' \<and>
    (file_text d' = file_text d @ bs \<or> file_text d' = file_text d)"
proof (cases "disk bs d = 0")
  case True
  with assms(2) show ?thesis by (simp add: file_append_def file_fits_def)
next
  case False
  then have "length bs \<le> disk bs d" "length (file_text d) + length bs < 2 ^ 63"
    using assms(1) [unfolded whole_writes_def, rule_format, of bs d] by simp_all
  then show ?thesis by (simp add: file_append_def file_fits_def)
qed

lemma piece_position:
  assumes "file_fits d" and "bs = take n (drop (unat (pos :: i64)) (file_text d))" and "bs \<noteq> []"
  shows "unat (pos + of_nat (length bs)) = unat pos + length bs"
proof -
  have "unat pos + length bs \<le> length (file_text d)"
    using assms(2,3) by (cases "unat pos \<le> length (file_text d)") (auto simp: min_def)
  then have "unat pos + length bs < 2 ^ 64" using assms(1) by (simp add: file_fits_def)
  then have "unat (of_nat (length bs) :: i64) = length bs" by (intro unat_of_nat_u64) simp
  with \<open>unat pos + length bs < 2 ^ 64\<close> show ?thesis by (simp add: unat_word_ariths)
qed

lemma file_piece_ok:
  assumes "file_fits d"
  shows "\<exists>eof bs pos' d'. file_piece pos d = returns (eof, bs, pos', d') \<and> file_fits d' \<and> file_text d' = file_text d \<and>
    (if eof then length (file_text d) \<le> unat pos
     else bs \<noteq> [] \<and> unat pos' = unat pos + length bs \<and> bs = take (length bs) (drop (unat pos) (file_text d)))"
proof -
  let ?bs = "take 4096 (drop (unat pos) (file_text d))"
  have "unat (pos + of_nat (length ?bs)) = unat pos + length ?bs" if "?bs \<noteq> []"
    using piece_position [OF assms refl that] .
  moreover have "?bs = take (length ?bs) (drop (unat pos) (file_text d))" by (simp add: min_def)
  ultimately show ?thesis using assms by (auto simp: file_piece_def Let_def)
qed

interpretation plain: shared_log "file_log (some_disk disk)" file_fits file_text "\<lambda>bs text. text @ bs" "\<lambda>text. text"
  file_piece False
proof unfold_locales
  have append: "\<exists>d'. log_append (file_log (some_disk disk)) bs d = returns d' \<and> file_fits d' \<and>
      (file_text d' = file_text d @ bs \<or> file_text d' = file_text d)" if "file_fits d" for d bs
    using file_append_ok [OF some_disk_whole that] by (simp add: file_log_def)
  show "\<exists>d'. log_append (file_log (some_disk disk)) (ls @ [newline]) d = returns d' \<and> file_fits d' \<and>
      (file_text d' = file_text d @ ls @ [newline] \<or> file_text d' = file_text d)" if "file_fits d" for d ls
    using append [OF that] by simp
  show "\<exists>d'. log_append (file_log (some_disk disk)) bs d = returns d' \<and> file_fits d' \<and>
      (file_text d' = file_text d @ bs \<or> file_text d' = file_text d)" if "file_fits d" for d bs
    using append [OF that] .
qed (simp_all add: file_piece_ok, simp_all add: file_log_def file_rest_def file_seek_def file_fits_def)

text \<open>The file only grows.\<close>

lemma file_grows: "chained (\<lambda>bs text. text @ bs) L x es \<Longrightarrow> growing (\<lambda>text. text) es"
  by (induction "\<lambda>bs text :: byte list. text @ bs" L x es rule: chained.induct) (auto simp: growing_def)

lemma file_after_writes:
  "chained (\<lambda>bs text. text @ bs) L x es \<Longrightarrow> store_after x es = x @ concat (map (\<lambda>(t, a, b). drop (length a) b) es)"
  by (induction "\<lambda>bs text :: byte list. text @ bs" L x es rule: chained.induct) auto

lemma file_pieces_alone:
  "file_fits d \<Longrightarrow> alone env api file_piece t (Reads_Log pos acc rv, m, d) (Sends (acc @ drop (unat pos) (file_text d)) rv, m, d)"
proof (induction "length (file_text d) - unat pos" arbitrary: pos acc rule: less_induct)
  case less
  let ?bs = "take 4096 (drop (unat pos) (file_text d))"
  have step: "handler_step env api file_piece t (Reads_Log pos acc rv) m d =
      returns (Some (if ?bs = [] then Sends acc rv else Reads_Log (pos + of_nat (length ?bs)) (acc @ ?bs) rv, m, d))"
    by (simp add: handler_step_def file_piece_def Let_def)
  show ?case
  proof (cases "?bs = []")
    case True
    with step show ?thesis by (auto intro: alone_step alone_refl)
  next
    case False
    note pos = piece_position [OF less.prems refl False]
    have "length (file_text d) - unat (pos + of_nat (length ?bs)) < length (file_text d) - unat pos"
      unfolding pos using False by simp
    from less.hyps [OF this less.prems] have "alone env api file_piece t (Reads_Log (pos + of_nat (length ?bs)) (acc @ ?bs) rv, m, d)
        (Sends ((acc @ ?bs) @ drop (unat pos + length ?bs) (file_text d)) rv, m, d)"
      unfolding pos .
    moreover have "take n xs @ drop (length (take n xs)) xs = xs" for n and xs :: "byte list"
      by (simp add: min_def)
    from this [of 4096 "drop (unat pos) (file_text d)"]
    have "?bs @ drop (unat pos + length ?bs) (file_text d) = drop (unat pos) (file_text d)"
      by (simp only: drop_drop add.commute)
    ultimately show ?thesis using step False by (auto intro: alone_step)
  qed
qed

interpretation plain_pieces: pieced_log "file_log (some_disk disk)" file_piece file_fits
proof unfold_locales
  show "file_fits d'" if "file_fits d" "log_append (file_log (some_disk disk)) bs d = returns d'" for d bs d'
    using that file_append_ok [OF some_disk_whole that(1), of disk bs] by (auto simp: file_log_def)
qed (auto simp: file_log_def file_rest_def file_seek_def file_fits_def intro: file_pieces_alone)

end
