(* ===== verification/Socket_Timer.thy ===== *)
theory Socket_Timer
  imports Socket_System Socket_File
begin

text \<open>
  The whole server as \<open>server/aesdsocket.c\<close> is built without \<open>USE_AESD_CHAR_DEVICE\<close>: the log is an
  ordinary file, and a timer makes the main thread write a time stamp into it, between the clients'
  lines and under the same \<open>log_mutex\<close>. The main thread's loop is cut at every call another thread
  can notice; the handlers, the list of threads and the last loop are those of \<open>Socket_System\<close>.
\<close>

section \<open>The main thread\<close>

text \<open>
  Where the main thread is in a round of its loop: in \<open>accept\<close>, at the test of \<open>timer_fired\<close>, in
  \<open>print_timestamp\<close> with its \<open>buf\<close> or \<open>retval\<close>, or before the loop over the threads.
\<close>

datatype round_phase =
    At_Accept
  | At_Timer
  | Wants_Stamp "byte list"   \<comment> \<open>before \<open>pthread_mutex_lock\<close>\<close>
  | In_Stamp "byte list"      \<comment> \<open>holds the mutex, before the write\<close>
  | Leaves_Stamp int          \<comment> \<open>before \<open>pthread_mutex_unlock\<close>\<close>
  | At_Sweep

record file_server =
  base :: "plain_file system"
  flags :: signal_flags
  round :: round_phase

record stamp_answers =
  localtime_answer :: "tm option"
  stamp_lock_error :: bool
  stamp_unlock_error :: bool
  stamp_fopen_ok :: bool

text \<open>The number under which the main thread holds \<open>log_mutex\<close>; new threads have others.\<close>

definition main_thread :: nat where
  "main_thread = 0"

definition set_net :: "plain_file clients \<Rightarrow> file_server \<Rightarrow> file_server" where
  "set_net n s = s\<lparr>base := (base s)\<lparr>net := n\<rparr>\<rparr>"

text \<open>\<open>retval = -1; continue\<close>\<close>

definition give_up :: "file_server \<Rightarrow> file_server" where
  "give_up s = s\<lparr>base := (base s)\<lparr>mthread := (mthread (base s))\<lparr>main_retval := - 1\<rparr>, mphase := Tests\<rparr>, round := At_Accept\<rparr>"

text \<open>
  The block for the timer: its test, the steps of \<open>print_timestamp\<close>, and the reset of the flag. A mutex
  whose unlocking fails stays locked.
\<close>

definition stamp_step :: "disk \<Rightarrow> stamp_answers \<Rightarrow> file_server \<Rightarrow> file_server option comp" where
  "stamp_step disk a s =
     (let n = net (base s)
      in case round s of
        At_Timer \<Rightarrow>
          (if \<not> timer_fired (flags s) then returns (Some (s\<lparr>round := At_Sweep\<rparr>))
           else case localtime_answer a of
               None \<Rightarrow> fails Null_Deref
             | Some t \<Rightarrow> returns (Some (s\<lparr>round := Wants_Stamp (strftime 200 t)\<rparr>)))
      | Wants_Stamp buf \<Rightarrow>
          (if stamp_lock_error a then returns (Some (give_up s))
           else if holder n = None
           then returns (Some ((set_net (n\<lparr>holder := Some main_thread\<rparr>) s)\<lparr>round := In_Stamp buf\<rparr>))
           else returns None)
      | In_Stamp buf \<Rightarrow>
          (if \<not> stamp_fopen_ok a then fails Null_Deref
           else bindC (log_append (file_log disk) buf (log_file n)) (\<lambda>d.
                  returns (Some ((set_net (n\<lparr>log_file := d\<rparr>) s)\<lparr>round := Leaves_Stamp (if buf = [] then - 1 else 0)\<rparr>))))
      | Leaves_Stamp rv \<Rightarrow>
          (if stamp_unlock_error a then returns (Some (give_up s))
           else let s1 = set_net (n\<lparr>holder := None\<rparr>) s
           in returns (Some (if rv \<noteq> 0 then give_up s1
                             else s1\<lparr>flags := (flags s)\<lparr>timer_fired := False\<rparr>, round := At_Sweep\<rparr>)))
      | _ \<Rightarrow> returns None)"

text \<open>The handler of a thread that a round creates.\<close>

definition add_handler :: "round_answers \<Rightarrow> client_env \<Rightarrow> recv_answer list \<Rightarrow> 'd system \<Rightarrow> 'd system" where
  "add_handler r env answers b =
     (case starts_at r (mthread b) of
        None \<Rightarrow> b
      | Some a \<Rightarrow> b\<lparr>args := (args b)(new_thread r := a),
          net := (net b)\<lparr>handlers := (handlers (net b))(new_thread r \<mapsto> (env, Receiving answers))\<rparr>\<rparr>)"

text \<open>
  Outside the rounds the main thread is that of the other build, but when it has returned it has also
  removed the file.
\<close>

definition remove_at_end :: "plain_file system \<Rightarrow> plain_file system" where
  "remove_at_end b = (if mphase b = Returned then b\<lparr>net := (net b)\<lparr>log_file := None\<rparr>\<rparr> else b)"

definition file_main_step ::
  "disk \<Rightarrow> round_answers \<Rightarrow> stamp_answers \<Rightarrow> client_env \<Rightarrow> recv_answer list \<Rightarrow> file_server \<Rightarrow> file_server option comp" where
  "file_main_step disk r a env answers s =
     (let b = base s; m = mthread b
      in if mphase b = Accepts
      then (case round s of
          At_Accept \<Rightarrow>
            bindC (if accept_answer r \<noteq> - 1
                   then new_client (accept_answer r) (node_answer r (nodes m)) (create_error r) (new_thread r) m
                   else returns (True, m)) (\<lambda>(go_on, m').
              let b1 = (add_handler r env answers b)\<lparr>mthread := m'\<rparr>
              in returns (Some (if go_on then s\<lparr>base := b1, round := At_Timer\<rparr> else s\<lparr>base := b1\<lparr>mphase := Tests\<rparr>\<rparr>)))
        | At_Sweep \<Rightarrow>
            bindC (sweep_threads (join_error r) m) (\<lambda>m'.
              returns (Some (s\<lparr>base := b\<lparr>mthread := m', mphase := Tests\<rparr>, round := At_Accept\<rparr>)))
        | _ \<Rightarrow> stamp_step disk a s)
      else bindC (main_step r env answers b) (\<lambda>b'.
        returns (map_option (\<lambda>b1. s\<lparr>base := remove_at_end b1\<rparr>) b')))"

section \<open>All threads, the timer and signals\<close>

datatype file_action =
    Main_Acts round_answers stamp_answers client_env "recv_answer list"
  | Handler_Acts nat
  | Timer_Expires
  | Signal_Arrives

fun file_step :: "disk \<Rightarrow> file_action \<Rightarrow> file_server \<Rightarrow> file_server option comp" where
  "file_step disk (Main_Acts r a env answers) s = file_main_step disk r a env answers s"
| "file_step disk (Handler_Acts t) s =
     bindC (thread_step (file_log disk) file_piece t (base s)) (\<lambda>b. returns (map_option (\<lambda>b1. s\<lparr>base := b1\<rparr>) b))"
| "file_step disk Timer_Expires s = returns (Some (s\<lparr>flags := timer_handler (flags s)\<rparr>))"
| "file_step disk Signal_Arrives s =
     returns (Some (s\<lparr>base := (base s)\<lparr>caught := True\<rparr>, flags := signal_handler (flags s)\<rparr>))"

text \<open>
  What the surroundings may do: as in the other build, and \<open>localtime\<close>, the file and the unlocking of
  \<open>log_mutex\<close> work for time stamps. The clients' environment is of this build. A tick or a signal sets its
  flags; that the handler thread which takes it may see its \<open>recv\<close> fail with \<open>EINTR\<close> is not among what
  \<open>sends_line\<close> allows.
\<close>

definition good_stamp :: "stamp_answers \<Rightarrow> bool" where
  "good_stamp a \<longleftrightarrow> localtime_answer a \<noteq> None \<and> stamp_fopen_ok a \<and> \<not> stamp_unlock_error a"

definition sends_line :: "(nat \<Rightarrow> byte list) \<Rightarrow> nat \<Rightarrow> client_env \<Rightarrow> recv_answer list \<Rightarrow> bool" where
  "sends_line L t env answers \<longleftrightarrow> sends_request False L t env answers \<and> t \<noteq> main_thread"

fun allowed :: "(nat \<Rightarrow> byte list) \<Rightarrow> file_action \<Rightarrow> file_server \<Rightarrow> bool" where
  "allowed L (Main_Acts r a env answers) s \<longleftrightarrow> fresh_round (sends_line L) r env answers (base s) \<and> good_stamp a"
| "allowed L _ s \<longleftrightarrow> True"

text \<open>What is observed: the ticks of the timer, and each write to the file with the bytes it
  put there, none when the disk did not take them.\<close>

datatype writer = Client nat | Stamp

datatype file_event = Tick | Written writer "byte list"

definition new_bytes :: "file_server \<Rightarrow> file_server \<Rightarrow> byte list" where
  "new_bytes s s' = drop (length (file_text (log_file (net (base s))))) (file_text (log_file (net (base s'))))"

fun in_stamp :: "round_phase \<Rightarrow> bool" where
  "in_stamp (In_Stamp buf) = True"
| "in_stamp _ = False"

fun file_events :: "file_action \<Rightarrow> file_server \<Rightarrow> file_server \<Rightarrow> file_event list" where
  "file_events (Main_Acts r a env answers) s s' =
     (if mphase (base s) = Accepts \<and> in_stamp (round s) then [Written Stamp (new_bytes s s')] else [])"
| "file_events (Handler_Acts t) s s' =
     (case handlers (net (base s)) t of
        Some (env, ph) \<Rightarrow> (if in_log ph then [Written (Client t) (new_bytes s s')] else [])
      | None \<Rightarrow> [])"
| "file_events Timer_Expires s s' = [Tick]"
| "file_events Signal_Arrives s s' = []"

inductive file_run :: "disk \<Rightarrow> (nat \<Rightarrow> byte list) \<Rightarrow> file_server \<Rightarrow> file_event list \<Rightarrow> file_server \<Rightarrow> bool" for disk L s0 where
  file_start: "file_run disk L s0 [] s0"
| file_more: "file_run disk L s0 evs s \<Longrightarrow> allowed L act s \<Longrightarrow> file_step disk act s = returns (Some s') \<Longrightarrow>
    file_run disk L s0 (evs @ file_events act s s') s'"

definition file_booted :: "file_server \<Rightarrow> bool" where
  "file_booted s \<longleftrightarrow> booted file_fits (base s) \<and> \<not> timer_fired (flags s) \<and> round s = At_Accept"

text \<open>The state at the loop after the set-up, with what an earlier run may have left of the file.\<close>

definition file_main_start :: "plain_file \<Rightarrow> setup_end \<Rightarrow> file_server option" where
  "file_main_start d e = (case e of
      Exited success \<Rightarrow> None
    | Ready sock_fd socks rv \<Rightarrow> Some
        \<lparr>base = \<lparr>mthread = \<lparr>head = SLIST_INIT, nodes = \<lambda>a. None, created = [], joined = [], client_fds = [], main_retval = rv\<rparr>,
            mphase = Tests, caught = False, net = \<lparr>log_file = d, holder = None, handlers = Map.empty\<rparr>,
            args = \<lambda>t. 0, finished = {}\<rparr>,
         flags = \<lparr>timer_fired = False, signal_caught = False, listening = True\<rparr>, round = At_Accept\<rparr>)"

lemma file_main_start_booted: "file_main_start d e = Some s \<Longrightarrow> file_fits d \<Longrightarrow> file_booted s"
  by (cases e) (auto simp: file_main_start_def file_booted_def booted_def no_clients_def)

section \<open>A time stamp as one more client\<close>

text \<open>
  For the log and the mutex a time stamp is a client that sends that line and never gets to read. The
  runs of the server are runs of such clients: thread \<open>t\<close> has the number \<open>2 * t\<close> there, the \<open>k\<close>-th
  time stamp \<open>2 * k + 1\<close>.
\<close>

definition mutex_after :: "client_env \<Rightarrow> nat \<Rightarrow> handler \<Rightarrow> nat option \<Rightarrow> nat option" where
  "mutex_after env t ph m = (case ph of
      Wants_Log st \<Rightarrow> if lock_error env then m else Some t
    | Leaves_Log rv \<Rightarrow> None
    | _ \<Rightarrow> m)"

lemma handler_step_mutex:
  "handler_step env api piece t ph m d = returns (Some (ph', m', d')) \<Longrightarrow> m' = mutex_after env t ph m"
  by (cases ph)
    (auto simp: handler_step_def mutex_after_def bindC_eq_returns Let_def split: option.splits sum.splits if_splits prod.splits)

lemma handler_step_renamed:
  assumes "m = None \<longleftrightarrow> c = None"
  shows "handler_step env api piece u ph c d = bindC (handler_step env api piece t ph m d) (\<lambda>r.
    returns (map_option (\<lambda>(ph', m', d'). (ph', mutex_after env u ph c, d')) r))"
  using assms
  by (cases ph)
    (auto simp: handler_step_def mutex_after_def bindC_assoc Let_def intro!: bindC_cong
      split: option.splits sum.splits if_splits prod.splits)

end
