(* ===== verification/Socket_Stamps.thy ===== *)
theory Socket_Stamps
  imports Socket_Timer
begin

text \<open>
  The runs of the file server of \<open>Socket_Timer\<close> are runs of clients (\<open>clients_run\<close>) in which every
  time stamp is one more client: the simulation, step by step, and the invariants of the file server
  that follow from those of the clients.
\<close>

section \<open>The simulation relation\<close>

definition stamp_env :: client_env where
  "stamp_env = calm_env\<lparr>char_device := False\<rparr>"

lemma stamp_env_smooth: "smooth stamp_env" "\<not> char_device stamp_env"
  using calm_smooth by (auto simp: stamp_env_def smooth_def env_laws_def)

definition stamp_state :: "byte list \<Rightarrow> client_state" where
  "stamp_state buf = (case receive_all stamp_env [Recv buf] of Some (Inr st) \<Rightarrow> st | _ \<Rightarrow> start_state)"

lemma stamp_is_plain: "stamp_line bs \<Longrightarrow> plain_line bs"
proof -
  assume "stamp_line bs"
  then obtain fs where fs: "bs = ''timestamp: '' @ fs @ [newline]" "length bs < 200"
      "\<forall>c \<in> set fs. is_digit c \<or> c = CHR ''-'' \<or> c = CHR '','' \<or> c = CHR '' ''"
    by (auto simp: stamp_line_def)
  then have "newline \<notin> set fs" "nul \<notin> set fs" using not_digits by auto
  with fs(1,2) show ?thesis
    unfolding plain_line_def by (intro exI [of _ "''timestamp: '' @ fs"]) auto
qed

lemma receive_stamp:
  assumes "stamp_line buf"
  shows "receive_all stamp_env [Recv buf] = returns (stamp_state buf)" and "ioctl_cmd_found (stamp_state buf) \<noteq> 0"
    and "loaded (stamp_state buf) buf" and "buf \<noteq> []"
proof -
  have plain: "plain_line buf" using stamp_is_plain assms by blast
  then show ne: "buf \<noteq> []" by (auto simp: plain_line_def)
  have "loggable (char_device stamp_env) buf"
    using plain_text_piece [OF plain] stamp_env_smooth(2) by (simp add: loggable_def)
  from receive_line [OF stamp_env_smooth(1) this, of "[]"] ne
  obtain st where "receive_all stamp_env [Recv buf] = returns st" "ioctl_cmd_found st \<noteq> 0" "loaded st buf"
    by (auto simp: first_answer_def)
  then show "receive_all stamp_env [Recv buf] = returns (stamp_state buf)" and "ioctl_cmd_found (stamp_state buf) \<noteq> 0"
    and "loaded (stamp_state buf) buf"
    by (simp_all add: stamp_state_def)
qed

fun stamp_handler :: "round_phase \<Rightarrow> handler" where
  "stamp_handler (In_Stamp buf) = In_Log (stamp_state buf)"
| "stamp_handler (Leaves_Stamp rv) = Leaves_Log 0"
| "stamp_handler _ = Opens_Log 0"

fun in_mutex :: "round_phase \<Rightarrow> bool" where
  "in_mutex (In_Stamp buf) = True"
| "in_mutex (Leaves_Stamp rv) = True"
| "in_mutex _ = False"

fun round_ok :: "byte list list \<Rightarrow> round_phase \<Rightarrow> bool" where
  "round_ok K (Wants_Stamp buf) \<longleftrightarrow> stamp_line buf"
| "round_ok K (In_Stamp buf) \<longleftrightarrow> K \<noteq> [] \<and> last K = buf"
| "round_ok K (Leaves_Stamp rv) \<longleftrightarrow> K \<noteq> [] \<and> rv = 0"
| "round_ok K _ \<longleftrightarrow> True"

text \<open>The time stamps so far are \<open>K\<close>; the last one may be under way.\<close>

definition thread_no :: "byte list list \<Rightarrow> nat \<Rightarrow> nat" where
  "thread_no K t = (if t = main_thread then 2 * (length K - 1) + 1 else 2 * t)"

definition mirrors :: "byte list list \<Rightarrow> file_server \<Rightarrow> plain_file clients \<Rightarrow> bool" where
  "mirrors K s c \<longleftrightarrow>
     (mphase (base s) \<noteq> Returned \<longrightarrow> log_file c = log_file (net (base s))) \<and>
     (\<forall>t. handlers c (2 * t) = handlers (net (base s)) t) \<and>
     (\<forall>k. handlers c (2 * k + 1) = (if k < length K
        then Some (stamp_env, if Suc k = length K then stamp_handler (round s) else Opens_Log 0) else None)) \<and>
     holder c = map_option (thread_no K) (holder (net (base s))) \<and>
     (holder (net (base s)) = Some main_thread \<longleftrightarrow> in_mutex (round s)) \<and>
     handlers (net (base s)) main_thread = None \<and> (\<forall>t env ph. handlers (net (base s)) t = Some (env, ph) \<longrightarrow> \<not> char_device env) \<and>
     round_ok K (round s) \<and> list_all stamp_line K \<and> (mphase (base s) \<noteq> Accepts \<longrightarrow> round s = At_Accept)"

lemma mirrorsD:
  assumes "mirrors K s c"
  shows "mphase (base s) \<noteq> Returned \<Longrightarrow> log_file c = log_file (net (base s))"
    and "handlers c (2 * t) = handlers (net (base s)) t"
    and "handlers c (2 * k + 1) = (if k < length K
        then Some (stamp_env, if Suc k = length K then stamp_handler (round s) else Opens_Log 0) else None)"
    and "holder c = map_option (thread_no K) (holder (net (base s)))"
    and "holder (net (base s)) = Some main_thread \<longleftrightarrow> in_mutex (round s)"
    and "handlers (net (base s)) main_thread = None"
    and "round_ok K (round s)" and "list_all stamp_line K" and "mphase (base s) \<noteq> Accepts \<Longrightarrow> round s = At_Accept"
    and "handlers (net (base s)) t = Some (env, ph) \<Longrightarrow> \<not> char_device env"
  using assms unfolding mirrors_def by blast+

text \<open>Number \<open>2 * t\<close> sends what thread \<open>t\<close> sends, number \<open>2 * k + 1\<close> the \<open>k\<close>-th time stamp.\<close>

definition joint :: "(nat \<Rightarrow> byte list) \<Rightarrow> byte list list \<Rightarrow> (nat \<Rightarrow> byte list) \<Rightarrow> bool" where
  "joint L K L' \<longleftrightarrow> (\<forall>t. L' (2 * t) = L t) \<and> (\<forall>k < length K. L' (2 * k + 1) = K ! k)"

definition requests :: "(nat \<Rightarrow> byte list) \<Rightarrow> byte list list \<Rightarrow> nat \<Rightarrow> byte list" where
  "requests L K n = (if even n then L (n div 2) else K ! (n div 2))"

lemma joint_requests: "joint L K (requests L K)"
  by (simp add: joint_def requests_def)

lemma joint_shorter: "joint L (K @ [buf]) L' \<Longrightarrow> joint L K L'"
  unfolding joint_def by (metis length_append_singleton less_SucI nth_append)

abbreviation file_clients :: "disk \<Rightarrow> (nat \<Rightarrow> byte list) \<Rightarrow> plain_file clients \<Rightarrow> byte list append_event list \<Rightarrow> plain_file clients \<Rightarrow> bool" where
  "file_clients disk L \<equiv> clients_run (file_log disk) file_piece file_text (sends_request False L)"

abbreviation file_inv :: "(nat \<Rightarrow> byte list) \<Rightarrow> byte list \<Rightarrow> byte list append_event list \<Rightarrow> plain_file clients \<Rightarrow> bool" where
  "file_inv \<equiv> clients_inv False file_fits file_text (\<lambda>bs text. text @ bs) (\<lambda>text. text)"

text \<open>The events of the two kinds of runs.\<close>

fun file_writes :: "file_event list \<Rightarrow> (writer \<times> byte list) list" where
  "file_writes [] = []"
| "file_writes (Tick # evs) = file_writes evs"
| "file_writes (Written w bs # evs) = (w, bs) # file_writes evs"

lemma writes_append [simp]: "file_writes (evs @ evs') = file_writes evs @ file_writes evs'"
  by (induction evs rule: file_writes.induct) auto

definition writer_of :: "nat \<Rightarrow> writer" where
  "writer_of n = (if even n then Client (n div 2) else Stamp)"

definition write_of :: "byte list append_event \<Rightarrow> writer \<times> byte list" where
  "write_of = (\<lambda>(n, a, b). (writer_of n, drop (length a) b))"

section \<open>Step by step\<close>

lemma thread_no_client: "t \<noteq> main_thread \<Longrightarrow> thread_no K t = 2 * t" and thread_no_even: "even (thread_no K t) \<longleftrightarrow> t \<noteq> main_thread"
  by (simp_all add: thread_no_def)

text \<open>A handler's step.\<close>

lemma mirror_handler:
  assumes m: "mirrors K s c" and inv: "file_inv L' x es c" and live: "mphase (base s) \<noteq> Returned"
    and h: "handlers (net (base s)) t = Some (env, ph)"
    and step: "clients_step (file_log disk) file_piece t (net (base s)) = returns r"
  shows "\<exists>r'. clients_step (file_log disk) file_piece (2 * t) c = returns r' \<and>
    (case r of None \<Rightarrow> r' = None | Some n \<Rightarrow> \<exists>c'. r' = Some c' \<and> mirrors K (set_net n s) c')"
proof -
  note M = mirrorsD [OF m]
  let ?n = "net (base s)"
  have t: "t \<noteq> main_thread" using h M(6) by auto
  have hc: "handlers c (2 * t) = Some (env, ph)" using h M(2) by simp
  have "holder ?n = None \<longleftrightarrow> holder c = None" using M(4) by simp
  note renamed = handler_step_renamed [OF this, of env "file_log disk" file_piece "2 * t" ph "log_file ?n" t]
  obtain q where q: "handler_step env (file_log disk) file_piece t ph (holder ?n) (log_file ?n) = returns q"
    using step h by (auto simp: clients_step_def bindC_eq_returns)
  show ?thesis
  proof (cases q)
    case None
    with step h hc q renamed M(1) [OF live] show ?thesis by (simp add: clients_step_def)
  next
    case (Some p)
    obtain ph' m' d' where p: "p = (ph', m', d')" by (cases p)
    have m': "m' = mutex_after env t ph (holder ?n)" using handler_step_mutex [OF q [unfolded Some p]] .
    let ?c = "\<lparr>log_file = d', holder = mutex_after env (2 * t) ph (holder c), handlers = (handlers c)(2 * t \<mapsto> (env, ph'))\<rparr>"
    let ?n' = "\<lparr>log_file = d', holder = m', handlers = (handlers ?n)(t \<mapsto> (env, ph'))\<rparr>"
    have "clients_step (file_log disk) file_piece (2 * t) c = returns (Some ?c)" "r = Some ?n'"
      using step h hc q renamed M(1) [OF live] Some p by (simp_all add: clients_step_def)
    moreover have "mutex_after env (2 * t) ph (holder c) = map_option (thread_no K) m'"
      using M(4) t by (simp add: m' mutex_after_def thread_no_client split: handler.split)
    moreover have "m' = Some main_thread \<longleftrightarrow> in_mutex (round s)"
    proof (cases ph)
      case (Wants_Log st)
      then have "lock_error env \<or> holder ?n = None" using q Some by (auto simp: handler_step_def split: if_splits)
      with Wants_Log t M(5) show ?thesis by (auto simp: m' mutex_after_def)
    next
      case (Leaves_Log rv)
      then have "holder c = Some (2 * t)" using clients_invD(7) [OF inv] hc by auto
      then have "holder ?n \<noteq> Some main_thread" using M(4) thread_no_even [of K main_thread] by auto
      with Leaves_Log M(5) show ?thesis by (auto simp: m' mutex_after_def)
    qed (use M(5) in \<open>auto simp: m' mutex_after_def\<close>)
    moreover have "2 * k + 1 \<noteq> 2 * t" for k by presburger
    ultimately show ?thesis
      using m t M(10) [OF h] by (auto simp: mirrors_def set_net_def)
  qed
qed

text \<open>
  A step of the file server is matched by a run of the clients: \<open>ys\<close> are the time stamps it begins.
\<close>

definition matched :: "disk \<Rightarrow> (nat \<Rightarrow> byte list) \<Rightarrow> byte list list \<Rightarrow> plain_file clients \<Rightarrow> file_server \<Rightarrow> (writer \<times> byte list) list \<Rightarrow> bool" where
  "matched disk L K c s' ws \<longleftrightarrow> (\<exists>ys es c'. mirrors (K @ ys) s' c' \<and> length ys \<le> 1 \<and> map write_of es = ws \<and>
     (\<forall>L'. joint L (K @ ys) L' \<longrightarrow> file_clients disk L' c es c'))"

lemma matched_still: "mirrors K s' c \<Longrightarrow> matched disk L K c s' []"
  unfolding matched_def by (intro exI [of _ "[]"] exI [of _ c]) (simp add: run_start)

lemma single_step: "clients_step api piece t s = returns (Some s') \<Longrightarrow> clients_run api piece store ok s (append_of store t s s') s'"
  using run_step [OF run_start] by fastforce

text \<open>A round begins: \<open>accept\<close> and, for a new client, its thread.\<close>

lemma mirror_accept:
  assumes m: "mirrors K s c" and fresh: "fresh_round (sends_line L) r env answers (base s)"
    and acc: "mphase (base s) = Accepts" "round s = At_Accept"
    and s': "base s' = (add_handler r env answers (base s))\<lparr>mthread := m', mphase := p\<rparr>"
      "round s' = At_Accept \<or> round s' = At_Timer \<and> p = Accepts" "p \<noteq> Returned"
  shows "matched disk L K c s' []"
proof (cases "starts_at r (mthread (base s))")
  case None
  with m s' acc have "mirrors K s' c" by (auto simp: mirrors_def add_handler_def)
  then show ?thesis by (rule matched_still)
next
  case (Some a)
  let ?t = "new_thread r"
  let ?c = "c\<lparr>handlers := (handlers c)(2 * ?t \<mapsto> (env, Receiving answers))\<rparr>"
  have t: "handlers (net (base s)) ?t = None" "sends_line L ?t env answers"
    using fresh acc Some by (simp_all add: fresh_round_def)
  have odd: "2 * k + 1 \<noteq> 2 * ?t" for k by presburger
  have net: "net (base s') = (net (base s))\<lparr>handlers := (handlers (net (base s)))(?t \<mapsto> (env, Receiving answers))\<rparr>"
    using s' Some by (simp add: add_handler_def)
  have "mirrors K s' ?c"
    using m s'(1,2,3) acc t(2) odd unfolding mirrors_def net
    by (auto simp: sends_line_def sends_request_def client_ok_def)
  moreover have "file_clients disk L' c [] ?c" if "joint L K L'" for L'
  proof -
    have "sends_request False L' (2 * ?t) env answers"
      using that t(2) by (auto simp: sends_line_def sends_request_def client_ok_def joint_def)
    moreover have "handlers c (2 * ?t) = None" using t(1) mirrorsD(2) [OF m] by simp
    ultimately show ?thesis using run_new [OF run_start] by blast
  qed
  ultimately show ?thesis
    unfolding matched_def by (intro exI [of _ "[]"] exI [of _ ?c]) simp
qed

text \<open>The main thread takes the mutex: the new client has received its line.\<close>

lemma stamp_client_starts:
  assumes buf: "stamp_line buf" and new: "handlers c k = None" and none: "holder c = None" and L: "L k = buf"
  shows "file_clients disk L c [] (c\<lparr>holder := Some k, handlers := (handlers c)(k \<mapsto> (stamp_env, In_Log (stamp_state buf)))\<rparr>)"
proof -
  note st = receive_stamp [OF buf]
  let ?step = "clients_step (file_log disk) file_piece k"
  define c1 where "c1 = c\<lparr>handlers := (handlers c)(k \<mapsto> (stamp_env, Receiving [Recv buf]))\<rparr>"
  define c2 where "c2 = c\<lparr>handlers := (handlers c)(k \<mapsto> (stamp_env, Wants_Log (stamp_state buf)))\<rparr>"
  define c3 where "c3 = c\<lparr>holder := Some k, handlers := (handlers c)(k \<mapsto> (stamp_env, In_Log (stamp_state buf)))\<rparr>"
  have one: "?step c1 = returns (Some c2)"
    using st(1,2) by (simp add: clients_step_def handler_step_def c1_def c2_def)
  have two: "?step c2 = returns (Some c3)"
    using none stamp_env_smooth(1) by (simp add: clients_step_def handler_step_def c2_def c3_def smooth_def)
  have quiet: "append_of file_text k c1 c2 = []" "append_of file_text k c2 c3 = []"
    by (simp_all add: append_of_def c1_def c2_def)
  have "file_clients disk L c1 [] c3"
    using run_step [OF single_step [OF one, of file_text "sends_request False L", unfolded quiet] two] quiet by simp
  moreover have "sends_request False L k stamp_env [Recv buf]"
    using plain_text_piece [OF stamp_is_plain [OF buf]] stamp_env_smooth st(4) L
    by (simp add: sends_request_def client_ok_def loggable_def first_answer_def)
  then have "file_clients disk L c [] c1" using run_new [OF run_start new] by (simp add: c1_def)
  ultimately show ?thesis using clients_run_trans by (fastforce simp: c3_def)
qed

lemma mirror_lock:
  assumes m: "mirrors K s c" and live: "mphase (base s) = Accepts" "round s = Wants_Stamp buf"
    and free: "holder (net (base s)) = None"
  shows "matched disk L K c ((set_net ((net (base s))\<lparr>holder := Some main_thread\<rparr>) s)\<lparr>round := In_Stamp buf\<rparr>) []"
proof -
  note M = mirrorsD [OF m]
  let ?k = "2 * length K + 1"
  let ?s = "(set_net ((net (base s))\<lparr>holder := Some main_thread\<rparr>) s)\<lparr>round := In_Stamp buf\<rparr>"
  have buf: "stamp_line buf" using M(7) live by simp
  have none: "holder c = None" using M(4) free by simp
  have new: "handlers c ?k = None" using M(3) [of "length K"] by simp
  define c3 where "c3 = c\<lparr>holder := Some ?k, handlers := (handlers c)(?k \<mapsto> (stamp_env, In_Log (stamp_state buf)))\<rparr>"
  have "file_clients disk L' c [] c3" if "joint L (K @ [buf]) L'" for L'
    unfolding c3_def using that by (intro stamp_client_starts [OF buf new none]) (auto simp: joint_def)
  moreover have "mirrors (K @ [buf]) ?s c3"
  proof -
    have "handlers c3 (2 * t) = handlers (net (base s)) t" for t
    proof -
      have "2 * t \<noteq> ?k" by presburger
      then show ?thesis using M(2) by (simp add: c3_def)
    qed
    moreover have "handlers c3 (2 * k + 1) = (if k < length (K @ [buf])
        then Some (stamp_env, if Suc k = length (K @ [buf]) then stamp_handler (In_Stamp buf) else Opens_Log 0) else None)" for k
      using M(3) [of k] live(2) by (auto simp: c3_def)
    ultimately show ?thesis
      using M(1,6,8) M(10) live buf unfolding mirrors_def
      by (simp add: set_net_def c3_def thread_no_def)
  qed
  ultimately show ?thesis
    unfolding matched_def by (intro exI [of _ "[buf]"] exI [of _ "[]"] exI [of _ c3]) simp
qed

text \<open>It writes the line, and it leaves the mutex.\<close>

lemma mirror_last:
  assumes m: "mirrors K s c" and r: "in_mutex (round s)"
  shows "handlers c (2 * (length K - 1) + 1) = Some (stamp_env, stamp_handler (round s))" and "K \<noteq> []"
    and "holder c = Some (2 * (length K - 1) + 1)"
proof -
  note M = mirrorsD [OF m]
  show K: "K \<noteq> []" using M(7) r by (cases "round s") auto
  then show "handlers c (2 * (length K - 1) + 1) = Some (stamp_env, stamp_handler (round s))"
    using M(3) [of "length K - 1"] by simp
  show "holder c = Some (2 * (length K - 1) + 1)" using M(4,5) r by (simp add: thread_no_def)
qed

lemma mirror_stamp_moved:
  assumes m: "mirrors K s c" and r: "in_mutex (round s)" and live: "mphase (base s) = Accepts"
    and n: "handlers n = handlers (net (base s))" "holder n = (if in_mutex p then Some main_thread else None)"
    and p: "round_ok K p" and s': "base s' = (base s)\<lparr>net := n, mthread := mt, mphase := q\<rparr>" "round s' = p" "q \<noteq> Returned"
      "q = Accepts \<or> p = At_Accept"
    and c': "c' = \<lparr>log_file = log_file n, holder = (if in_mutex p then holder c else None),
      handlers = (handlers c)(2 * (length K - 1) + 1 \<mapsto> (stamp_env, stamp_handler p))\<rparr>"
  shows "mirrors K s' c'"
proof -
  note M = mirrorsD [OF m] and last = mirror_last [OF m r]
  let ?k = "2 * (length K - 1) + 1"
  have "handlers c' (2 * t) = handlers (net (base s)) t" for t
  proof -
    have "2 * t \<noteq> ?k" by presburger
    then show ?thesis using M(2) by (simp add: c')
  qed
  moreover have "handlers c' (2 * k + 1) = (if k < length K
        then Some (stamp_env, if Suc k = length K then stamp_handler p else Opens_Log 0) else None)" for k
    using M(3) [of k] last(2) by (cases "Suc k = length K") (auto simp: c')
  moreover have "holder c' = map_option (thread_no K) (holder n)" using last(3) by (simp add: c' n(2) thread_no_def)
  ultimately show ?thesis using M(6,8) M(10) p s' n unfolding mirrors_def by (auto simp: c')
qed

lemma single_match:
  assumes "mirrors K s' c'" and "clients_step (file_log disk) file_piece u c = returns (Some c')"
  shows "matched disk L K c s' (map write_of (append_of file_text u c c'))"
  unfolding matched_def using assms single_step [OF assms(2), of file_text]
  by (intro exI [of _ "[] :: byte list list"] exI [of _ "append_of file_text u c c'"] exI [of _ c']) simp

lemma mirror_write:
  assumes m: "mirrors K s c" and live: "mphase (base s) = Accepts" "round s = In_Stamp buf"
    and d: "log_append (file_log disk) buf (log_file (net (base s))) = returns d"
    and s': "s' = (set_net ((net (base s))\<lparr>log_file := d\<rparr>) s)\<lparr>round := Leaves_Stamp (if buf = [] then - 1 else 0)\<rparr>"
  shows "matched disk L K c s' [(Stamp, new_bytes s s')]"
proof -
  let ?k = "2 * (length K - 1) + 1"
  let ?c = "\<lparr>log_file = d, holder = holder c, handlers = (handlers c)(?k \<mapsto> (stamp_env, Leaves_Log 0))\<rparr>"
  note M = mirrorsD [OF m]
  have last: "handlers c ?k = Some (stamp_env, In_Log (stamp_state buf))" "K \<noteq> []"
    using mirror_last [OF m] live(2) by simp_all
  have "buf = last K" using M(7) live(2) by simp
  then have buf: "stamp_line buf" using M(8) last(2) by (metis last_in_set list_all_iff)
  note st = receive_stamp [OF buf]
  have "holder (net (base s)) = Some main_thread" using M(5) live(2) by simp
  then have "mirrors K s' ?c"
    using st(4) last(2) live(1)
    by (intro mirror_stamp_moved [OF m _ live(1), where n = "(net (base s))\<lparr>log_file := d\<rparr>" and p = "Leaves_Stamp 0"
          and mt = "mthread (base s)" and q = Accepts]) (simp_all add: s' set_net_def live(2))
  moreover have step: "clients_step (file_log disk) file_piece ?k c = returns (Some ?c)"
    using last(1) st(3) d M(1) live(1) stamp_env_smooth(1)
    by (simp add: clients_step_def handler_step_def smooth_def loaded_def not_less)
  ultimately have "matched disk L K c s' (map write_of (append_of file_text ?k c ?c))" by (rule single_match)
  moreover have "map write_of (append_of file_text ?k c ?c) = [(Stamp, new_bytes s s')]"
    using last(1) M(1) live(1) by (simp add: append_of_def write_of_def writer_of_def new_bytes_def s' set_net_def)
  ultimately show ?thesis by simp
qed

lemma mirror_unlock:
  assumes m: "mirrors K s c" and live: "mphase (base s) = Accepts" "round s = Leaves_Stamp rv"
    and s': "s' = (set_net ((net (base s))\<lparr>holder := None\<rparr>) s)\<lparr>flags := fl, round := At_Sweep\<rparr>"
  shows "matched disk L K c s' []"
proof -
  let ?k = "2 * (length K - 1) + 1"
  let ?c = "\<lparr>log_file = log_file (net (base s)), holder = None, handlers = (handlers c)(?k \<mapsto> (stamp_env, Opens_Log 0))\<rparr>"
  note M = mirrorsD [OF m]
  have last: "handlers c ?k = Some (stamp_env, Leaves_Log 0)" using mirror_last [OF m] live(2) by simp
  have "mirrors K s' ?c"
    by (intro mirror_stamp_moved [OF m _ live(1), where n = "(net (base s))\<lparr>holder := None\<rparr>" and p = At_Sweep
          and mt = "mthread (base s)" and q = Accepts]) (simp_all add: s' set_net_def live)
  moreover have "clients_step (file_log disk) file_piece ?k c = returns (Some ?c)"
    using last M(1) live(1) by (simp add: clients_step_def handler_step_def)
  ultimately have "matched disk L K c s' (map write_of (append_of file_text ?k c ?c))" by (rule single_match)
  moreover have "append_of file_text ?k c ?c = []" using last by (simp add: append_of_def)
  ultimately show ?thesis by simp
qed

text \<open>Steps of the main thread that neither touch the log nor the mutex.\<close>

lemma mirror_quiet:
  assumes "mirrors K s c" and "net (base s') = net (base s)" and "\<not> in_mutex (round s)" "\<not> in_mutex (round s')"
    and "round_ok K (round s')" and "mphase (base s') \<noteq> Accepts \<Longrightarrow> round s' = At_Accept"
    and "mphase (base s) = Returned \<Longrightarrow> mphase (base s') = Returned"
  shows "matched disk L K c s' []"
proof -
  have same: "stamp_handler (round s') = stamp_handler (round s)"
    using assms(3,4) by (cases "round s"; cases "round s'") simp_all
  have "mirrors K s' c" using assms by (auto simp: mirrors_def same)
  then show ?thesis by (rule matched_still)
qed

lemma mirror_stamp:
  assumes m: "mirrors K s c" and live: "mphase (base s) = Accepts" and a: "good_stamp a"
    and step: "stamp_step disk a s = returns (Some s')"
  shows "matched disk L K c s' (if in_stamp (round s) then [(Stamp, new_bytes s s')] else [])"
proof (cases "round s")
  case At_Accept
  with step show ?thesis by (simp add: stamp_step_def)
next
  case At_Timer
  obtain t where "localtime_answer a = Some t" using a by (auto simp: good_stamp_def)
  then have "s' = s\<lparr>round := At_Sweep\<rparr> \<or> s' = s\<lparr>round := Wants_Stamp (strftime 200 t)\<rparr>"
    using step At_Timer by (auto simp: stamp_step_def Let_def split: if_splits)
  with At_Timer live strftime_stamp [of t] show ?thesis by (auto intro!: mirror_quiet [OF m])
next
  case (Wants_Stamp buf)
  show ?thesis
  proof (cases "stamp_lock_error a")
    case True
    then have "s' = give_up s" using step Wants_Stamp by (simp add: stamp_step_def)
    with Wants_Stamp show ?thesis by (auto intro!: mirror_quiet [OF m] simp: give_up_def live)
  next
    case False
    then have "holder (net (base s)) = None"
        "s' = (set_net ((net (base s))\<lparr>holder := Some main_thread\<rparr>) s)\<lparr>round := In_Stamp buf\<rparr>"
      using step Wants_Stamp by (simp_all add: stamp_step_def Let_def split: if_splits)
    with mirror_lock [OF m live Wants_Stamp] Wants_Stamp show ?thesis by simp
  qed
next
  case (In_Stamp buf)
  then obtain d where "log_append (file_log disk) buf (log_file (net (base s))) = returns d"
      "s' = (set_net ((net (base s))\<lparr>log_file := d\<rparr>) s)\<lparr>round := Leaves_Stamp (if buf = [] then - 1 else 0)\<rparr>"
    using step by (auto simp: stamp_step_def Let_def bindC_eq_returns split: if_splits)
  from mirror_write [OF m live In_Stamp this] In_Stamp show ?thesis by simp
next
  case (Leaves_Stamp rv)
  then have "rv = 0" using mirrorsD(7) [OF m] by simp
  then have "s' = (set_net ((net (base s))\<lparr>holder := None\<rparr>) s)\<lparr>flags := (flags s)\<lparr>timer_fired := False\<rparr>, round := At_Sweep\<rparr>"
    using step Leaves_Stamp a by (simp add: stamp_step_def Let_def good_stamp_def)
  from mirror_unlock [OF m live Leaves_Stamp this] Leaves_Stamp show ?thesis by simp
next
  case At_Sweep
  with step show ?thesis by (simp add: stamp_step_def)
qed

section \<open>The main thread never faults\<close>

lemma sys_inv_net:
  "handlers n = handlers (net b) \<Longrightarrow> sys_inv (b\<lparr>net := n\<rparr>) xs = sys_inv b xs"
  by (simp add: sys_inv_def)

lemma sys_inv_give_up:
  "sys_inv b xs \<Longrightarrow> sys_inv (b\<lparr>mthread := (mthread b)\<lparr>main_retval := - 1\<rparr>, mphase := Tests\<rparr>) xs"
  by (simp add: sys_inv_def main_inv_def thread_list_def)

lemma stamp_step_ok:
  assumes inv: "sys_inv (base s) xs" and a: "good_stamp a"
  shows "\<exists>q. stamp_step disk a s = returns q \<and> (\<forall>s'. q = Some s' \<longrightarrow> sys_inv (base s') xs)"
proof (cases "round s")
  case At_Timer
  with inv a show ?thesis by (auto simp: stamp_step_def good_stamp_def Let_def)
next
  case (Wants_Stamp buf)
  with inv show ?thesis by (auto simp: stamp_step_def Let_def give_up_def set_net_def sys_inv_net sys_inv_give_up)
next
  case (In_Stamp buf)
  with inv a show ?thesis
    by (auto simp: stamp_step_def Let_def set_net_def sys_inv_net good_stamp_def file_log_def file_append_def)
next
  case (Leaves_Stamp rv)
  let ?b = "(base s)\<lparr>net := (net (base s))\<lparr>holder := None\<rparr>\<rparr>"
  have "sys_inv ?b xs" using inv by (simp add: sys_inv_net)
  with sys_inv_give_up [OF this] Leaves_Stamp a show ?thesis
    by (auto simp: stamp_step_def Let_def give_up_def set_net_def good_stamp_def)
qed (simp_all add: stamp_step_def)

lemma accept_begins:
  assumes inv: "sys_inv b xs" and acc: "mphase b = Accepts" and fresh: "fresh_round ok r env answers b"
  shows "\<exists>go_on m' ys. (if accept_answer r \<noteq> - 1
      then new_client (accept_answer r) (node_answer r (nodes (mthread b))) (create_error r) (new_thread r) (mthread b)
      else returns (True, mthread b)) = returns (go_on, m') \<and>
    (\<forall>p. p \<noteq> Returned \<longrightarrow> sys_inv ((add_handler r env answers b)\<lparr>mthread := m', mphase := p\<rparr>) ys)"
proof -
  let ?m = "mthread b" and ?p = "node_answer r (nodes (mthread b))"
  have mi: "main_inv (created ?m) (finished b) (args b) ?m xs" and dom: "dom (handlers (net b)) = set (created ?m)"
    and fin: "\<forall>t \<in> finished b. \<exists>env res. handlers (net b) t = Some (env, Ended res)"
    using inv by (simp_all add: sys_inv_def)
  have f: "nodes ?m a = None" if "?p = Ptr a" for a using fresh that by (simp add: fresh_round_def malloc_fresh_def)
  consider (none) "accept_answer r = - 1" | (failed) "accept_answer r \<noteq> - 1" "\<forall>a. create_error r \<or> ?p \<noteq> Ptr a"
    | (started) a where "accept_answer r \<noteq> - 1" "\<not> create_error r" "?p = Ptr a" by blast
  then show ?thesis
  proof cases
    case none
    then have "starts_at r ?m = None" by (auto simp: starts_at_def split: ptr.splits)
    with inv none show ?thesis by (auto simp: add_handler_def sys_inv_def)
  next
    case failed
    then have no: "starts_at r ?m = None" by (auto simp: starts_at_def split: ptr.splits)
    obtain m' where m': "new_client (accept_answer r) ?p (create_error r) (new_thread r) ?m = returns (False, m')"
        "main_inv (created ?m) (finished b) (args b) m' xs"
      using new_client_failed [OF mi f failed(2)] by blast
    then have "created m' = created ?m" by (simp add: main_inv_def)
    with m' failed(1) no dom fin show ?thesis by (auto simp: add_handler_def sys_inv_def)
  next
    case (started a)
    then have st: "starts_at r ?m = Some a" by (simp add: starts_at_def)
    then have none: "handlers (net b) (new_thread r) = None" using fresh acc by (simp add: fresh_round_def)
    with fin have nf: "new_thread r \<notin> finished b" by force
    have "new_thread r \<notin> set (created ?m)" using none dom by (metis domIff)
    then obtain m' where m': "new_client (accept_answer r) ?p (create_error r) (new_thread r) ?m = returns (True, m')"
        "main_inv (created ?m @ [new_thread r]) (finished b) ((args b)(new_thread r := a)) m' (a # xs)"
      using new_client_started [OF mi f [OF started(3)] _ nf] started(2,3) by auto
    then have "created m' = created ?m @ [new_thread r]" by (simp add: main_inv_def)
    with m' started(1) st dom fin nf show ?thesis by (auto simp: add_handler_def sys_inv_def)
  qed
qed

lemma remove_at_end_simps [simp]:
  "mphase (remove_at_end b) = mphase b" "sys_inv (remove_at_end b) xs = sys_inv b xs"
  "handlers (net (remove_at_end b)) = handlers (net b)" "holder (net (remove_at_end b)) = holder (net b)"
  by (simp_all add: remove_at_end_def sys_inv_net)

lemma same_phase: "mphase b = p \<Longrightarrow> b\<lparr>mphase := p\<rparr> = b"
  by simp

lemma file_main_ok:
  assumes inv: "sys_inv (base s) xs" and ok: "allowed L (Main_Acts r a env answers) s"
  shows "\<exists>q. file_main_step disk r a env answers s = returns q \<and> (\<forall>s'. q = Some s' \<longrightarrow> (\<exists>ys. sys_inv (base s') ys))"
proof (cases "mphase (base s) = Accepts")
  case False
  have "fresh_round (sends_line L) r env answers (base s)" using ok by simp
  with main_step_ok [OF inv this] False show ?thesis by (fastforce simp: file_main_step_def Let_def)
next
  case True
  have "good_stamp a" using ok by simp
  from stamp_step_ok [OF inv this, of disk]
  have stamp: "\<exists>q. stamp_step disk a s = returns q \<and> (\<forall>s'. q = Some s' \<longrightarrow> (\<exists>ys. sys_inv (base s') ys))" by blast
  show ?thesis
  proof (cases "round s")
    case At_Accept
    let ?b = "add_handler r env answers (base s)"
    have "fresh_round (sends_line L) r env answers (base s)" using ok by simp
    from accept_begins [OF inv True this] obtain go_on m' ys where
      run: "(if accept_answer r \<noteq> - 1
        then new_client (accept_answer r) (node_answer r (nodes (mthread (base s)))) (create_error r) (new_thread r) (mthread (base s))
        else returns (True, mthread (base s))) = returns (go_on, m')"
      and p: "\<And>p. p \<noteq> Returned \<Longrightarrow> sys_inv (?b\<lparr>mthread := m', mphase := p\<rparr>) ys"
      by blast
    have "mphase (?b\<lparr>mthread := m'\<rparr>) = Accepts" using True by (simp add: add_handler_def split: option.split)
    with p [of Accepts] p [of Tests] have "sys_inv (?b\<lparr>mthread := m'\<rparr>) ys" "sys_inv (?b\<lparr>mthread := m', mphase := Tests\<rparr>) ys"
      by (simp_all add: same_phase)
    with run True At_Accept show ?thesis by (auto simp: file_main_step_def Let_def)
  next
    case At_Sweep
    have "main_inv (created (mthread (base s))) (finished (base s)) (args (base s)) (mthread (base s)) xs"
      using inv by (simp add: sys_inv_def)
    from sweep_threads_inv [OF this, of "join_error r"] obtain m' ys where
      "sweep_threads (join_error r) (mthread (base s)) = returns m'"
      "main_inv (created (mthread (base s))) (finished (base s)) (args (base s)) m' ys"
      by blast
    moreover from this have "created m' = created (mthread (base s))" by (simp add: main_inv_def)
    ultimately have "sys_inv ((base s)\<lparr>mthread := m', mphase := Tests\<rparr>) ys"
      using inv by (simp add: sys_inv_def)
    with \<open>sweep_threads (join_error r) (mthread (base s)) = returns m'\<close> True At_Sweep
    show ?thesis by (auto simp: file_main_step_def Let_def)
  qed (use True stamp in \<open>simp_all add: file_main_step_def Let_def\<close>)
qed

section \<open>Runs\<close>

lemma mirror_main:
  assumes m: "mirrors K s c" and ok: "allowed L (Main_Acts r a env answers) s"
    and step: "file_main_step disk r a env answers s = returns (Some s')"
  shows "matched disk L K c s' (file_writes (file_events (Main_Acts r a env answers) s s'))"
proof (cases "mphase (base s) = Accepts")
  case False
  obtain b1 where b1: "main_step r env answers (base s) = returns (Some b1)" "s' = s\<lparr>base := remove_at_end b1\<rparr>"
    using step False by (auto simp: file_main_step_def Let_def bindC_eq_returns)
  have r: "round s = At_Accept" using mirrorsD(9) [OF m False] .
  have net: "net b1 = net (base s)" and ret: "mphase (base s) \<noteq> Returned"
    using b1(1) False by (auto simp: main_step_def Let_def bindC_eq_returns split: main_phase.splits if_splits)
  have "mirrors K s' c"
    using m ret r b1(2) net by (auto simp: mirrors_def remove_at_end_def)
  with matched_still False show ?thesis by simp
next
  case True
  show ?thesis
  proof (cases "round s")
    case At_Accept
    let ?b = "add_handler r env answers (base s)"
    obtain go_on m' where s': "s' = (if go_on then s\<lparr>base := ?b\<lparr>mthread := m'\<rparr>, round := At_Timer\<rparr>
        else s\<lparr>base := ?b\<lparr>mthread := m', mphase := Tests\<rparr>\<rparr>)"
      using step True At_Accept by (auto simp: file_main_step_def Let_def bindC_eq_returns)
    have "mphase ?b = Accepts" using True by (simp add: add_handler_def split: option.split)
    then have "base s' = ?b\<lparr>mthread := m', mphase := if go_on then Accepts else Tests\<rparr>" by (simp add: s' same_phase)
    from mirror_accept [OF m _ True At_Accept this] ok s' At_Accept True show ?thesis by simp
  next
    case At_Sweep
    obtain m' where "s' = s\<lparr>base := (base s)\<lparr>mthread := m', mphase := Tests\<rparr>, round := At_Accept\<rparr>"
      using step True At_Sweep by (auto simp: file_main_step_def Let_def bindC_eq_returns)
    with mirror_quiet [OF m, of s'] At_Sweep True show ?thesis by simp
  qed (use True mirror_stamp [OF m True, of a disk s'] ok step in \<open>simp_all add: file_main_step_def Let_def\<close>)
qed

text \<open>
  What is known of every run: its clients' run, and the invariant of the main thread; no file is left when
  the main thread has returned.
\<close>

definition tracked :: "disk \<Rightarrow> (nat \<Rightarrow> byte list) \<Rightarrow> file_server \<Rightarrow> file_event list \<Rightarrow> file_server \<Rightarrow> byte list list \<Rightarrow>
    byte list append_event list \<Rightarrow> plain_file clients \<Rightarrow> bool" where
  "tracked disk L s0 evs s K es c \<longleftrightarrow> mirrors K s c \<and> (\<exists>xs. sys_inv (base s) xs) \<and> map write_of es = file_writes evs \<and>
     (\<forall>L'. joint L K L' \<longrightarrow> file_clients disk L' (net (base s0)) es c) \<and>
     (mphase (base s) = Returned \<longrightarrow> log_file (net (base s)) = None)"

lemma tracked_clients:
  assumes "whole_writes disk" and "file_booted s0" and "tracked disk L s0 evs s K es c"
  shows "file_inv (requests L K) (file_text (log_file (net (base s0)))) es c"
proof -
  have "no_clients file_fits (net (base s0))" using assms(2) by (simp add: file_booted_def booted_def)
  moreover have "file_clients disk (requests L K) (net (base s0)) es c"
    using assms(3) joint_requests unfolding tracked_def by blast
  ultimately show ?thesis using plain.run_inv [of disk "requests L K" "net (base s0)" es c] assms(1) by (simp add: some_disk_def)
qed

lemma matched_tracked:
  assumes t: "tracked disk L s0 evs s K es c" and m: "matched disk L K c s' (file_writes evs')"
    and "\<exists>xs. sys_inv (base s') xs" and "mphase (base s') = Returned \<Longrightarrow> log_file (net (base s')) = None"
  shows "\<exists>K' es' c'. tracked disk L s0 (evs @ evs') s' K' es' c'"
proof -
  obtain ys fs c' where c': "mirrors (K @ ys) s' c'" "length ys \<le> 1" "map write_of fs = file_writes evs'"
    and run: "\<And>L'. joint L (K @ ys) L' \<Longrightarrow> file_clients disk L' c fs c'"
    using m unfolding matched_def by blast
  have "file_clients disk L' (net (base s0)) (es @ fs) c'" if "joint L (K @ ys) L'" for L'
  proof -
    have "joint L K L'" using that c'(2) joint_shorter by (cases ys) auto
    with t have "file_clients disk L' (net (base s0)) es c" by (simp add: tracked_def)
    with clients_run_trans [OF run [OF that]] show ?thesis .
  qed
  with t c'(1,3) assms(3,4) show ?thesis unfolding tracked_def
    by (intro exI [of _ "K @ ys"] exI [of _ "es @ fs"] exI [of _ c']) auto
qed

lemma mirror_steps_return:
  assumes "whole_writes disk" and m: "mirrors K s c" and inv: "file_inv L' x es c" and live: "mphase (base s) \<noteq> Returned"
  shows "\<exists>r. clients_step (file_log disk) file_piece t (net (base s)) = returns r"
proof (cases "handlers (net (base s)) t")
  case (Some eph)
  note M = mirrorsD [OF m]
  obtain env ph where h: "handlers (net (base s)) t = Some (env, ph)" using Some by (cases eph) auto
  have "holder (net (base s)) = None \<longleftrightarrow> holder c = None" using M(4) by simp
  note renamed = handler_step_renamed [OF this, of env "file_log disk" file_piece "2 * t" ph "log_file (net (base s))" t]
  obtain r where "clients_step (file_log disk) file_piece (2 * t) c = returns r"
    using plain.step_returns [where disk = disk, OF inv] assms(1) by (auto simp: some_disk_def)
  then have "\<exists>q. handler_step env (file_log disk) file_piece (2 * t) ph (holder c) (log_file c) = returns q"
    using h M(2) by (auto simp: clients_step_def bindC_eq_returns)
  then have "\<exists>q. handler_step env (file_log disk) file_piece t ph (holder (net (base s))) (log_file (net (base s))) = returns q"
    using M(1) [OF live] renamed by (auto simp: bindC_eq_returns)
  with h show ?thesis by (auto simp: clients_step_def)
qed (simp add: clients_step_def)

lemma file_thread_ok:
  assumes "whole_writes disk" and m: "mirrors K s c" and "file_inv L' x es c" and inv: "sys_inv (base s) xs"
  shows "\<exists>q. thread_step (file_log disk) file_piece t (base s) = returns q \<and> (\<forall>b1. q = Some b1 \<longrightarrow> sys_inv b1 xs)"
proof (cases "mphase (base s) = Returned")
  case True
  with returned_no_step [OF inv] show ?thesis by blast
next
  case False
  from thread_step_ok [OF inv mirror_steps_return [OF assms(1-3) False]] show ?thesis by blast
qed

lemma mirror_thread:
  assumes m: "mirrors K s c" and inv: "file_inv L' x es c" "sys_inv (base s) xs"
    and step: "file_step disk (Handler_Acts t) s = returns (Some s')"
  shows "matched disk L K c s' (file_writes (file_events (Handler_Acts t) s s'))"
proof -
  note M = mirrorsD [OF m]
  obtain b1 where b1: "thread_step (file_log disk) file_piece t (base s) = returns (Some b1)" "s' = s\<lparr>base := b1\<rparr>"
    using step by (auto simp: bindC_eq_returns)
  then have live: "mphase (base s) \<noteq> Returned" using returned_no_step [OF inv(2)] by auto
  from b1(1) show ?thesis
  proof (cases rule: thread_step_cases)
    case (net env ph n)
    then have s': "s' = set_net n s" using b1(2) by (simp add: set_net_def)
    have h: "handlers c (2 * t) = Some (env, ph)" using M(2) net(1) by simp
    obtain c' where c': "clients_step (file_log disk) file_piece (2 * t) c = returns (Some c')" "mirrors K s' c'"
      using mirror_handler [OF m inv(1) live net(1,4)] s' by auto
    have "log_file c' = log_file n" "log_file c = log_file (net (base s))"
      using mirrorsD(1) [OF c'(2)] M(1) live by (simp_all add: s' set_net_def)
    then have "map write_of (append_of file_text (2 * t) c c') = file_writes (file_events (Handler_Acts t) s s')"
      using h net(1) by (simp add: append_of_def write_of_def writer_of_def new_bytes_def s' set_net_def)
    with single_match [OF c'(2,1)] show ?thesis by metis
  next
    case (finish env res m')
    then have "mirrors K s' c" using m b1(2) by (simp add: mirrors_def)
    with matched_still finish(1) show ?thesis by simp
  qed
qed

lemma file_main_returned:
  assumes "file_main_step disk r a env answers s = returns (Some s')" and "mphase (base s') = Returned"
  shows "log_file (net (base s')) = None"
proof (cases "mphase (base s) = Accepts")
  case True
  then show ?thesis
    using assms
    by (auto simp: file_main_step_def stamp_step_def give_up_def set_net_def add_handler_def Let_def bindC_eq_returns
      split: round_phase.splits option.splits if_splits)
next
  case False
  with assms show ?thesis by (auto simp: file_main_step_def remove_at_end_def Let_def bindC_eq_returns)
qed

lemma file_run_tracked:
  assumes disk: "whole_writes disk" and boot: "file_booted s0"
  shows "file_run disk L s0 evs s \<Longrightarrow> \<exists>K es c. tracked disk L s0 evs s K es c"
proof (induction rule: file_run.induct)
  case file_start
  have "mirrors [] s0 (net (base s0))"
    using boot by (auto simp: file_booted_def booted_def no_clients_def mirrors_def)
  moreover have "\<exists>xs. sys_inv (base s0) xs" using boot booted_inv unfolding file_booted_def by blast
  moreover have "mphase (base s0) \<noteq> Returned" using boot by (simp add: file_booted_def booted_def)
  ultimately show ?case
    unfolding tracked_def by (intro exI [of _ "[]"] exI [of _ "net (base s0)"]) (auto intro: run_start)
next
  case (file_more evs s act s')
  then obtain K es c where t: "tracked disk L s0 evs s K es c" by blast
  note inv = tracked_clients [OF disk boot t]
  have m: "mirrors K s c" using t by (simp add: tracked_def)
  obtain xs where xs: "sys_inv (base s) xs" using t by (auto simp: tracked_def)
  show ?case
  proof (cases act)
    case (Main_Acts r a env answers)
    then have step: "file_main_step disk r a env answers s = returns (Some s')" and ok: "allowed L (Main_Acts r a env answers) s"
      using file_more.hyps by simp_all
    have "\<exists>ys. sys_inv (base s') ys" using file_main_ok [OF xs ok, of disk] step by auto
    from matched_tracked [OF t mirror_main [OF m ok step] this file_main_returned [OF step]] Main_Acts show ?thesis by simp
  next
    case (Handler_Acts h)
    then have step: "file_step disk (Handler_Acts h) s = returns (Some s')" using file_more.hyps by simp
    then obtain b1 where b1: "thread_step (file_log disk) file_piece h (base s) = returns (Some b1)" "s' = s\<lparr>base := b1\<rparr>"
      by (auto simp: bindC_eq_returns)
    then have "sys_inv (base s') xs" using file_thread_ok [OF disk m inv xs, of h] by auto
    moreover have "mphase (base s') = mphase (base s)" using b1 by (auto elim!: thread_step_cases)
    moreover have "mphase (base s) \<noteq> Returned" using b1(1) returned_no_step [OF xs] by auto
    ultimately show ?thesis using matched_tracked [OF t mirror_thread [OF m inv xs step]] Handler_Acts by auto
  next
    case Timer_Expires
    then have "s' = s\<lparr>flags := timer_handler (flags s)\<rparr>" using file_more.hyps by simp
    with t have "tracked disk L s0 (evs @ [Tick]) s' K es c" by (simp add: tracked_def mirrors_def)
    with Timer_Expires show ?thesis by auto
  next
    case Signal_Arrives
    then have "s' = s\<lparr>base := (base s)\<lparr>caught := True\<rparr>, flags := signal_handler (flags s)\<rparr>" using file_more.hyps by simp
    with t have "tracked disk L s0 evs s' K es c" by (simp add: tracked_def mirrors_def sys_inv_def)
    with Signal_Arrives show ?thesis by auto
  qed
qed

end
