(* ===== verification/Socket_File_Server.thy ===== *)
theory Socket_File_Server
  imports Socket_Stamps
begin

text \<open>
  What the runs of the server with an ordinary log file have in common: what they have written and
  answered, how ticks and time stamps relate, that some thread can always step and that the last loop
  ends. At the end a run of one client with a time stamp.
\<close>

section \<open>What a run has written\<close>

lemma grown_by_request:
  "chained (\<lambda>bs text. text @ bs) L x es \<Longrightarrow> (n, a, b) \<in> set es \<Longrightarrow> drop (length a) b = L n \<or> drop (length a) b = []"
  by (induction "\<lambda>bs text :: byte list. text @ bs" L x es rule: chained.induct) auto

lemma writes_split:
  "file_writes evs = us @ vs \<Longrightarrow> \<exists>evs1 evs2. evs = evs1 @ evs2 \<and> file_writes evs1 = us"
proof (induction evs arbitrary: us rule: file_writes.induct)
  case 1
  then show ?case by (intro exI [of _ "[]"]) simp
next
  case (2 evs)
  have "file_writes evs = us @ vs" using 2(2) by simp
  from 2(1) [OF this] obtain evs1 evs2 where "evs = evs1 @ evs2" "file_writes evs1 = us" by blast
  then show ?case by (intro exI [of _ "Tick # evs1"] exI [of _ evs2]) simp
next
  case (3 w bs evs)
  show ?case
  proof (cases us)
    case Nil
    then have "Written w bs # evs = [] @ (Written w bs # evs) \<and> file_writes [] = us" by simp
    then show ?thesis by blast
  next
    case (Cons u us')
    with 3(2) have "file_writes evs = us' @ vs" "u = (w, bs)" by simp_all
    with 3(1) obtain evs1 evs2 where "evs = evs1 @ evs2" "file_writes evs1 = us'" by blast
    with Cons \<open>u = (w, bs)\<close> show ?thesis by (intro exI [of _ "Written w bs # evs1"] exI [of _ evs2]) simp
  qed
qed

text \<open>
  A proper record of writes: each client's is what it sent (which contains a newline, or is empty), or
  nothing, when the disk did not take it, and at most one; each of the timer is a time stamp or nothing.
\<close>

definition proper_writes :: "(nat \<Rightarrow> byte list) \<Rightarrow> (writer \<times> byte list) list \<Rightarrow> bool" where
  "proper_writes L ws \<longleftrightarrow>
     (\<forall>t bs. (Client t, bs) \<in> set ws \<longrightarrow> loggable False (L t) \<and> (bs = L t \<or> bs = [])) \<and>
     (\<forall>bs. (Stamp, bs) \<in> set ws \<longrightarrow> stamp_line bs \<or> bs = []) \<and>
     (\<forall>t. length (filter (\<lambda>(w, bs). w = Client t) ws) \<le> 1)"

lemma client_writer: "writer_of n = Client t \<longleftrightarrow> n = 2 * t"
  by (auto simp: writer_of_def)

lemma at_most_one: "distinct (map fst es) \<Longrightarrow> length (filter (\<lambda>e. fst e = n) es) \<le> 1"
proof (induction es)
  case (Cons e es)
  then show ?case by (cases "fst e = n") (auto simp: filter_empty_conv image_iff)
qed simp

lemma write_origin:
  assumes "(w, bs) \<in> set (map write_of es)"
  obtains n a b where "(n, a, b) \<in> set es" and "writer_of n = w" and "bs = drop (length a) b"
proof -
  obtain e where e: "e \<in> set es" "(w, bs) = write_of e" using assms by auto
  obtain n a b where "e = (n, a, b)" by (cases e)
  with e that show thesis by (simp add: write_of_def)
qed

lemma tracked_proper:
  assumes disk: "whole_writes disk" and boot: "file_booted s0" and t: "tracked disk L s0 evs s K es c"
  shows "proper_writes L (file_writes evs)"
proof -
  note inv = tracked_clients [OF disk boot t]
  note D = clients_invD [OF inv]
  have m: "mirrors K s c" and ev: "file_writes evs = map write_of es" using t by (simp_all add: tracked_def)
  have "loggable False (L u) \<and> (bs = L u \<or> bs = [])" if w: "(Client u, bs) \<in> set (file_writes evs)" for u bs
  proof -
    obtain n a b where e: "(n, a, b) \<in> set es" "writer_of n = Client u" "bs = drop (length a) b"
      using write_origin [OF w [unfolded ev]] by blast
    then have "n = 2 * u" by (simp add: client_writer)
    then have "requests L K n = L u" by (simp add: requests_def)
    moreover have "n \<in> fst ` set es" using e(1) by force
    ultimately show ?thesis using D(5) [of n] grown_by_request [OF D(3) e(1)] e(3) by metis
  qed
  moreover have "stamp_line bs \<or> bs = []" if w: "(Stamp, bs) \<in> set (file_writes evs)" for bs
  proof -
    obtain n a b where e: "(n, a, b) \<in> set es" "writer_of n = Stamp" "bs = drop (length a) b"
      using write_origin [OF w [unfolded ev]] by blast
    then obtain k where n: "n = 2 * k + 1" by (auto simp: writer_of_def elim: oddE split: if_splits)
    have "n \<in> fst ` set es" using e(1) by force
    then have "handlers c n \<noteq> None" using D(5) by blast
    then have "k < length K" using mirrorsD(3) [OF m, of k] n by (auto split: if_splits)
    then have "stamp_line (requests L K n)" using mirrorsD(8) [OF m] n by (simp add: requests_def list_all_length)
    with grown_by_request [OF D(3) e(1)] e(3) show ?thesis by metis
  qed
  moreover have "length (filter (\<lambda>(w, bs). w = Client u) (file_writes evs)) \<le> 1" for u
  proof -
    have "(\<lambda>(w, bs). w = Client u) \<circ> write_of = (\<lambda>e. fst e = 2 * u)"
      by (auto simp: write_of_def client_writer)
    then show ?thesis using at_most_one [OF D(4), of "2 * u"] by (simp add: ev filter_map)
  qed
  ultimately show ?thesis unfolding proper_writes_def by blast
qed

lemma tracked_text:
  assumes disk: "whole_writes disk" and boot: "file_booted s0" and t: "tracked disk L s0 evs s K es c"
  shows "mphase (base s) \<noteq> Returned \<Longrightarrow>
    file_text (log_file (net (base s))) = file_text (log_file (net (base s0))) @ concat (map snd (file_writes evs))"
proof -
  assume live: "mphase (base s) \<noteq> Returned"
  note D = clients_invD [OF tracked_clients [OF disk boot t]]
  have m: "mirrors K s c" and ev: "file_writes evs = map write_of es" using t by (simp_all add: tracked_def)
  have "map snd (file_writes evs) = map (\<lambda>(t, a, b). drop (length a) b) es" by (simp add: ev write_of_def case_prod_unfold)
  with file_after_writes [OF D(3)] D(2) mirrorsD(1) [OF m live] show ?thesis by simp
qed

text \<open>What a client whose handler has ended got.\<close>

lemma tracked_answer:
  assumes disk: "whole_writes disk" and boot: "file_booted s0" and t: "tracked disk L s0 evs s K es c"
    and h: "handlers (net (base s)) u = Some (env, Ended res)"
  shows "result_retval res = 0 \<and> client_closed res \<and>
    (\<exists>evs1 evs2. evs = evs1 @ evs2 \<and> Client u \<in> fst ` set (file_writes evs1) \<and>
       sent res = file_text (log_file (net (base s0))) @ concat (map snd (file_writes evs1)))"
proof -
  let ?x = "file_text (log_file (net (base s0)))"
  note D = clients_invD [OF tracked_clients [OF disk boot t]]
  have m: "mirrors K s c" and ev: "file_writes evs = map write_of es" using t by (simp_all add: tracked_def)
  have hc: "handlers c (2 * u) = Some (env, Ended res)" using mirrorsD(2) [OF m] h by simp
  have "\<not> char_device env" using mirrorsD(10) [OF m h] .
  then have req: "loggable False (requests L K (2 * u))" using D(6) [OF hc] unfolding client_ok_def by blast
  have res: "result_retval res = 0" "client_closed res"
    and ans: "answered (loggable False (requests L K (2 * u))) (\<lambda>text. text) ?x es (2 * u) (sent res)"
    using D(6) [OF hc] file_grows [OF D(3)] by auto
  from ans req obtain es1 es2 where es: "es = es1 @ es2" "2 * u \<in> fst ` set es1" "sent res = store_after ?x es1"
    unfolding answered_def by auto
  have "chained (\<lambda>bs text. text @ bs) (requests L K) ?x es1" using D(3) es(1) by simp
  from file_after_writes [OF this] es(3) have out: "sent res = ?x @ concat (map snd (map write_of es1))"
    by (simp add: write_of_def case_prod_unfold comp_def)
  have "file_writes evs = map write_of es1 @ map write_of es2" using ev es(1) by simp
  then obtain evs1 evs2 where evs: "evs = evs1 @ evs2" "file_writes evs1 = map write_of es1" using writes_split by blast
  have "Client u \<in> fst ` set (map write_of es1)"
  proof -
    obtain e where "e \<in> set es1" "fst e = 2 * u" using es(2) by auto
    then have "write_of e \<in> set (map write_of es1)" by simp
    moreover have "Client u = fst (write_of e)"
      using \<open>fst e = 2 * u\<close> client_writer [of "2 * u" u] by (simp add: write_of_def case_prod_unfold)
    ultimately show ?thesis by (rule rev_image_eqI)
  qed
  with res evs out show ?thesis by metis
qed

text \<open>A client's write puts its whole text into the file, unless the disk does not take it at that moment.\<close>

definition refused :: "disk \<Rightarrow> (nat \<Rightarrow> byte list) \<Rightarrow> byte list \<Rightarrow> file_event list \<Rightarrow> nat \<Rightarrow> bool" where
  "refused disk L x evs t \<longleftrightarrow> (\<exists>evs1 evs2 d. evs = evs1 @ Written (Client t) [] # evs2 \<and>
     file_text d = x @ concat (map snd (file_writes evs1)) \<and> disk (L t) d = 0)"

lemma refused_more: "refused disk L x evs t \<Longrightarrow> refused disk L x (evs @ evs') t"
  unfolding refused_def by fastforce

lemma written_whole:
  assumes disk: "whole_writes disk" and boot: "file_booted s0" and t: "tracked disk L s0 evs s K es c"
    and step: "file_step disk (Handler_Acts u) s = returns (Some s')"
    and ev: "file_events (Handler_Acts u) s s' = [Written (Client u) bs]"
  shows "bs = L u \<or> bs = [] \<and> disk (L u) (log_file (net (base s))) = 0 \<and> mphase (base s) \<noteq> Returned"
proof -
  have m: "mirrors K s c" using t by (simp add: tracked_def)
  obtain xs where xs: "sys_inv (base s) xs" using t by (auto simp: tracked_def)
  obtain env ph where "handlers (net (base s)) u = Some (env, ph)" "in_log ph" and bs: "bs = new_bytes s s'"
    using ev by (auto split: option.splits if_splits)
  then obtain st where h: "handlers (net (base s)) u = Some (env, In_Log st)" by (cases ph) auto
  obtain b1 where b1: "thread_step (file_log disk) file_piece u (base s) = returns (Some b1)" "s' = s\<lparr>base := b1\<rparr>"
    using step by (auto simp: bindC_eq_returns)
  then have live: "mphase (base s) \<noteq> Returned" using returned_no_step [OF xs] by auto
  have "handlers c (2 * u) = Some (env, In_Log st)" using mirrorsD(2) [OF m] h by simp
  from clients_invD(6) [OF tracked_clients [OF disk boot t] this]
  have load: "take (unat (scast (total_bytes_recv st) :: u64)) (final_buffer st) = L u"
    by (simp add: requests_def loaded_def)
  obtain n where n: "clients_step (file_log disk) file_piece u (net (base s)) = returns (Some n)" "b1 = (base s)\<lparr>net := n\<rparr>"
    using b1(1) h by (cases rule: thread_step_cases) auto
  have "log_file n = Some (file_text (log_file (net (base s))) @ take (disk (L u) (log_file (net (base s)))) (L u))"
    using n(1) h load
    by (auto simp: clients_step_def handler_step_def file_log_def file_append_def bindC_eq_returns split: if_splits)
  then have "bs = take (disk (L u) (log_file (net (base s)))) (L u)" using bs b1(2) n(2) by (simp add: new_bytes_def)
  with live disk [unfolded whole_writes_def, rule_format, of "L u" "log_file (net (base s))"] show ?thesis by auto
qed

lemma file_run_written:
  assumes disk: "whole_writes disk" and boot: "file_booted s0"
  shows "file_run disk L s0 evs s \<Longrightarrow> (Client u, bs) \<in> set (file_writes evs) \<Longrightarrow>
    bs = L u \<or> refused disk L (file_text (log_file (net (base s0)))) evs u"
proof (induction arbitrary: bs rule: file_run.induct)
  case (file_more evs s act s')
  obtain K es c where t: "tracked disk L s0 evs s K es c" using file_run_tracked [OF disk boot file_more.hyps(1)] by blast
  show ?case
  proof (cases "(Client u, bs) \<in> set (file_writes evs)")
    case True
    with file_more.IH refused_more show ?thesis by blast
  next
    case False
    with file_more.prems have "(Client u, bs) \<in> set (file_writes (file_events act s s'))" by simp
    then have act: "act = Handler_Acts u" "file_events act s s' = [Written (Client u) bs]"
      by (cases act; auto split: option.splits if_splits)+
    from written_whole [OF disk boot t, of u s' bs] file_more.hyps(3) act
    have "bs = L u \<or> bs = [] \<and> disk (L u) (log_file (net (base s))) = 0 \<and> mphase (base s) \<noteq> Returned" by simp
    with tracked_text [OF disk boot t] act(2) show ?thesis unfolding refused_def by fastforce
  qed
qed simp

section \<open>Ticks and time stamps\<close>

definition ticks :: "file_event list \<Rightarrow> nat" where
  "ticks evs = count_list evs Tick"

definition stamps :: "file_event list \<Rightarrow> nat" where
  "stamps evs = count_list (map fst (file_writes evs)) Stamp"

lemma ticks_stamps_append [simp]:
  "ticks (evs @ evs') = ticks evs + ticks evs'" "stamps (evs @ evs') = stamps evs + stamps evs'"
  by (simp_all add: ticks_def stamps_def)

text \<open>A tick that is still to be written.\<close>

fun stamping :: "round_phase \<Rightarrow> bool" where
  "stamping (Wants_Stamp buf) = True"
| "stamping (In_Stamp buf) = True"
| "stamping (Leaves_Stamp rv) = True"
| "stamping _ = False"

fun leaving :: "round_phase \<Rightarrow> bool" where
  "leaving (Leaves_Stamp rv) = True"
| "leaving _ = False"

definition due :: "file_server \<Rightarrow> nat" where
  "due s = (if timer_fired (flags s) \<and> \<not> leaving (round s) then 1 else 0)"

lemma main_due:
  assumes m: "mirrors K s c" and ok: "allowed L (Main_Acts r a env answers) s"
    and step: "file_main_step disk r a env answers s = returns (Some s')" and "stamping (round s) \<longrightarrow> timer_fired (flags s)"
  shows "due s' + stamps (file_events (Main_Acts r a env answers) s s') \<le> due s \<and>
    (stamping (round s') \<longrightarrow> timer_fired (flags s'))"
proof (cases "mphase (base s) = Accepts")
  case False
  then show ?thesis
    using step mirrorsD(9) [OF m] by (auto simp: file_main_step_def Let_def bindC_eq_returns due_def stamps_def)
next
  case True
  show ?thesis
  proof (cases "round s")
    case (Leaves_Stamp rv)
    then have "rv = 0" using mirrorsD(7) [OF m] by simp
    with Leaves_Stamp True step ok show ?thesis
      by (auto simp: file_main_step_def stamp_step_def set_net_def good_stamp_def Let_def due_def stamps_def)
  qed (use True assms in \<open>auto simp: file_main_step_def stamp_step_def set_net_def give_up_def Let_def bindC_eq_returns
      due_def stamps_def split: option.splits if_splits\<close>)
qed

lemma file_run_due:
  assumes disk: "whole_writes disk" and boot: "file_booted s0"
  shows "file_run disk L s0 evs s \<Longrightarrow> stamps evs + due s \<le> ticks evs \<and> (stamping (round s) \<longrightarrow> timer_fired (flags s))"
proof (induction rule: file_run.induct)
  case file_start
  show ?case using boot by (simp add: file_booted_def due_def stamps_def)
next
  case (file_more evs s act s')
  obtain K es c where "tracked disk L s0 evs s K es c" using file_run_tracked [OF disk boot file_more.hyps(1)] by blast
  then have m: "mirrors K s c" by (simp add: tracked_def)
  show ?case
  proof (cases act)
    case (Main_Acts r a env answers)
    with main_due [OF m, of L r a env answers disk s'] file_more show ?thesis by (auto simp: ticks_def)
  next
    case (Handler_Acts t)
    then have "flags s' = flags s" "round s' = round s" using file_more.hyps(3) by (auto simp: bindC_eq_returns)
    moreover have "stamps (file_events act s s') = 0" using Handler_Acts by (simp add: stamps_def split: option.split)
    ultimately show ?thesis using file_more.IH by (simp add: due_def)
  next
    case Timer_Expires
    then have "s' = s\<lparr>flags := timer_handler (flags s)\<rparr>" using file_more.hyps(3) by simp
    with Timer_Expires file_more.IH show ?thesis by (simp add: due_def timer_handler_def ticks_def stamps_def)
  next
    case Signal_Arrives
    then have "s' = s\<lparr>base := (base s)\<lparr>caught := True\<rparr>, flags := signal_handler (flags s)\<rparr>" using file_more.hyps(3) by simp
    with Signal_Arrives file_more.IH show ?thesis by (simp add: due_def signal_handler_def ticks_def stamps_def)
  qed
qed

section \<open>Shutting down\<close>

text \<open>Every step of a thread in the last loop makes this smaller; the main thread's last step ends it.\<close>

definition file_left :: "file_server \<Rightarrow> (nat \<times> nat) \<times> nat \<times> nat" where
  "file_left s = (if mphase (base s) = Returned then ((0, 0), 0, 0)
     else shutdown_left (length (file_text (log_file (net (base s))))) (base s))"

lemma file_net_less:
  assumes disk: "whole_writes disk" and m: "mirrors K s c" and inv: "file_inv L' x es c" "sys_inv (base s) xs"
    and live: "mphase (base s) \<noteq> Returned"
    and step: "clients_step (file_log disk) file_piece t (net (base s)) = returns (Some n)"
  shows "(steps_left (length (file_text (log_file n))) n,
    steps_left (length (file_text (log_file (net (base s))))) (net (base s))) \<in> less_than <*lex*> less_than"
proof -
  note M = mirrorsD [OF m] and D = clients_invD [OF inv(1)]
  let ?n = "net (base s)"
  obtain env ph where h: "handlers ?n t = Some (env, ph)" using step by (auto simp: clients_step_def split: option.splits)
  then have hc: "handlers c (2 * t) = Some (env, ph)" using M(2) by simp
  obtain ph' m' d' where st: "handler_step env (file_log disk) file_piece t ph (holder ?n) (log_file ?n) = returns (Some (ph', m', d'))"
    "handlers n = (handlers ?n)(t \<mapsto> (env, ph'))" "log_file n = d'"
    using step h by (auto simp: clients_step_def bindC_eq_returns)
  have "holder ?n = None \<longleftrightarrow> holder c = None" using M(4) by simp
  from handler_step_renamed [OF this, of env "file_log disk" file_piece "2 * t" ph "log_file ?n" t]
  obtain mc where sc: "handler_step env (file_log (some_disk disk)) file_piece (2 * t) ph (holder c) (log_file c) = returns (Some (ph', mc, d'))"
    using st(1) M(1) [OF live] disk by (simp add: some_disk_def)
  have env: "client_ok False L' (2 * t) env"
    and hi: "handler_inv False L' (\<lambda>text. text) x es (file_text (log_file c)) (2 * t) ph"
    using D(6) [OF hc] by simp_all
  have "holds_log ph \<longrightarrow> holder c = Some (2 * t)" using D(7) hc by blast
  from plain.handler_moves [OF D(1,2) env hi this, of disk] sc have "\<not> in_log ph \<longrightarrow> file_text d' = file_text (log_file c)" by auto
  moreover have "finite (dom (handlers ?n))" using inv(2) by (simp add: sys_inv_def)
  ultimately show ?thesis
    using plain.handler_step_less [OF D(1) hi sc] M(1) [OF live] st(3)
    by (intro steps_left_less [OF _ h st(2)]) auto
qed

lemma least_left: "(((0, 0), 0, 0), p, n, Suc k) \<in> shutdown_order"
  by (cases p) auto

fun moves :: "file_action \<Rightarrow> bool" where
  "moves (Main_Acts r a env answers) = True"
| "moves (Handler_Acts t) = True"
| "moves _ = False"

lemma file_drained_less:
  assumes disk: "whole_writes disk" and boot: "file_booted s0" and t: "tracked disk L s0 evs s K es c"
    and dr: "drained (base s)" and act: "moves act" "file_step disk act s = returns (Some s')"
  shows "drained (base s') \<and> (file_left s', file_left s) \<in> shutdown_order"
proof -
  note inv = tracked_clients [OF disk boot t]
  have m: "mirrors K s c" using t by (simp add: tracked_def)
  obtain xs where xs: "sys_inv (base s) xs" using t by (auto simp: tracked_def)
  let ?n = "length (file_text (log_file (net (base s))))"
  show ?thesis
  proof (cases act)
    case (Main_Acts r a env answers)
    then obtain b1 where b1: "main_step r env answers (base s) = returns (Some b1)" "s' = s\<lparr>base := remove_at_end b1\<rparr>"
      using act(2) dr by (auto simp: file_main_step_def Let_def bindC_eq_returns)
    then have "mphase (base s) \<noteq> Returned" by (auto simp: main_step_def)
    then have "file_left s = shutdown_left ?n (base s)" "mphase (base s) = Drains" using dr by (simp_all add: file_left_def)
    with main_drains_less(1,2) [OF xs dr b1(1)] main_drains_less(3) [OF xs dr b1(1), of ?n] b1(2)
    show ?thesis using least_left
      by (cases "mphase b1 = Returned") (auto simp: file_left_def remove_at_end_def shutdown_left_def simp del: in_lex_prod)
  next
    case (Handler_Acts h)
    then obtain b1 where b1: "thread_step (file_log disk) file_piece h (base s) = returns (Some b1)" "s' = s\<lparr>base := b1\<rparr>"
      using act(2) by (auto simp: bindC_eq_returns)
    then have live: "mphase (base s) \<noteq> Returned" using returned_no_step [OF xs] by auto
    from b1(1) show ?thesis
    proof (cases rule: thread_step_cases)
      case (net env ph n)
      obtain ph' where "handlers n = (handlers (net (base s)))(h \<mapsto> (env, ph'))" using clients_step_moved [OF net(4,1)] .
      then have "dom (handlers n) = dom (handlers (net (base s)))" using net(1) by auto
      with file_net_less [OF disk m inv xs live net(4)] dr live net(5) b1(2) show ?thesis
        by (auto simp: file_left_def shutdown_left_def)
    next
      case (finish env res m')
      have "h \<in> dom (handlers (net (base s))) - finished (base s)" using finish(1,2) by auto
      moreover have "finite (dom (handlers (net (base s))))" using xs by (simp add: sys_inv_def)
      ultimately have "card (dom (handlers (net (base s))) - insert h (finished (base s))) < card (dom (handlers (net (base s))) - finished (base s))"
        by (intro psubset_card_mono) auto
      with dr live finish(4) b1(2) show ?thesis by (auto simp: file_left_def shutdown_left_def)
    qed
  qed (use act in simp_all)
qed

text \<open>A thread that has not finished and waits neither for the mutex nor for a silent client can step.\<close>

lemma live_handler_steps:
  assumes disk: "whole_writes disk" and boot: "file_booted s0" and t: "tracked disk L s0 evs s K es c"
    and h: "handlers (net (base s)) u = Some (env, ph)" "u \<notin> finished (base s)" and heard: "ph \<noteq> Receiving []"
    and free: "(\<exists>st. ph = Wants_Log st) \<longrightarrow> holder (net (base s)) = None"
  shows "\<exists>s'. file_step disk (Handler_Acts u) s = returns (Some s')"
proof -
  note inv = tracked_clients [OF disk boot t]
  have m: "mirrors K s c" using t by (simp add: tracked_def)
  obtain xs where xs: "sys_inv (base s) xs" using t by (auto simp: tracked_def)
  have live: "mphase (base s) \<noteq> Returned" using returned_all_done(3,5) [OF xs] h by blast
  have "(\<exists>res. ph = Ended res) \<or> (\<exists>n. clients_step (file_log disk) file_piece u (net (base s)) = returns (Some n))"
  proof (rule disjCI)
    assume none: "\<nexists>n. clients_step (file_log disk) file_piece u (net (base s)) = returns (Some n)"
    obtain r where "clients_step (file_log disk) file_piece u (net (base s)) = returns r"
      using mirror_steps_return [OF disk m inv live] by blast
    with none have "clients_step (file_log disk) file_piece u (net (base s)) = returns None" by (cases r) auto
    from mirror_handler [OF m inv live h(1) this] have "clients_step (file_log disk) file_piece (2 * u) c = returns None" by simp
    moreover have "handlers c (2 * u) = Some (env, ph)" "holder c = None \<longleftrightarrow> holder (net (base s)) = None"
      using mirrorsD(2,4) [OF m] h(1) by simp_all
    ultimately show "\<exists>res. ph = Ended res"
      using plain.clients_step_moves [OF inv, of "2 * u" env ph disk] disk free heard by (auto simp: some_disk_def)
  qed
  from thread_can_step [OF xs h this] show ?thesis by auto
qed

definition quiet_round :: round_answers where
  "quiet_round = (case round_of (- 1) 0 of Round r \<Rightarrow> r)"

definition quiet_stamp :: stamp_answers where
  "quiet_stamp = \<lparr>localtime_answer = Some \<lparr>tm_sec = 0, tm_min = 0, tm_hour = 0, tm_mday = 1, tm_mon = 0, tm_year = 70\<rparr>,
     stamp_lock_error = False, stamp_unlock_error = False, stamp_fopen_ok = True\<rparr>"

lemma quiet_allowed: "allowed L (Main_Acts quiet_round quiet_stamp env answers) s"
proof -
  have "accept_answer quiet_round = - 1" by (simp add: quiet_round_def round_of_def)
  then have "starts_at quiet_round m = None" for m by (simp add: starts_at_def split: ptr.split)
  moreover have "malloc_fresh (Round quiet_round)" using round_of_fresh [of "- 1" 0] by (simp add: quiet_round_def round_of_def)
  ultimately show ?thesis by (simp add: fresh_round_def good_stamp_def quiet_stamp_def)
qed

lemma main_blocked:
  assumes m: "mirrors K s c" and inv: "sys_inv (base s) xs" and live: "mphase (base s) \<noteq> Returned"
    and step: "file_main_step disk r a env answers s = returns None"
  shows "\<not> in_mutex (round s)" and "holder (net (base s)) = None \<Longrightarrow> \<exists>t \<in> dom (handlers (net (base s))). t \<notin> finished (base s)"
proof -
  have "\<not> in_mutex (round s) \<and> (mphase (base s) = Accepts \<longrightarrow> holder (net (base s)) \<noteq> None)"
  proof (cases "mphase (base s) = Accepts")
    case True
    with step show ?thesis
      by (cases "round s") (auto simp: file_main_step_def stamp_step_def Let_def bindC_eq_returns split: if_splits option.splits)
  qed (use mirrorsD(9) [OF m] in simp)
  moreover have "\<exists>t \<in> dom (handlers (net (base s))). t \<notin> finished (base s)" if na: "mphase (base s) \<noteq> Accepts"
  proof (rule ccontr)
    assume "\<not> ?thesis"
    moreover have none: "main_step r env answers (base s) = returns None"
      using step na by (auto simp: file_main_step_def Let_def bindC_eq_returns)
    moreover have "mphase (base s) = Drains"
      using none na live by (cases "mphase (base s)") (auto simp: main_step_def Let_def)
    ultimately show False using drains_can_step [OF inv, of r env answers] by fastforce
  qed
  ultimately show "\<not> in_mutex (round s)"
    and "holder (net (base s)) = None \<Longrightarrow> \<exists>t \<in> dom (handlers (net (base s))). t \<notin> finished (base s)" by blast+
qed

lemma file_can_step:
  assumes disk: "whole_writes disk" and boot: "file_booted s0" and t: "tracked disk L s0 evs s K es c"
    and live: "mphase (base s) \<noteq> Returned"
  shows "(\<exists>act s'. moves act \<and> allowed L act s \<and> file_step disk act s = returns (Some s')) \<or> stalled (base s)"
proof -
  note inv = tracked_clients [OF disk boot t]
  have m: "mirrors K s c" using t by (simp add: tracked_def)
  obtain xs where xs: "sys_inv (base s) xs" using t by (auto simp: tracked_def)
  let ?act = "Main_Acts quiet_round quiet_stamp calm_env []"
  have main: "allowed L ?act s" by (rule quiet_allowed)
  obtain q where q: "file_main_step disk quiet_round quiet_stamp calm_env [] s = returns q"
    using file_main_ok [OF xs main] by blast
  show ?thesis
  proof (cases q)
    case (Some s')
    with main q have "moves ?act \<and> allowed L ?act s \<and> file_step disk ?act s = returns (Some s')" by simp
    then show ?thesis by blast
  next
    case None
    note blocked = main_blocked [OF m xs live q [unfolded None]]
    have "(\<exists>u env ph. handlers (net (base s)) u = Some (env, ph) \<and> u \<notin> finished (base s) \<and> ph \<noteq> Receiving [] \<and>
        ((\<exists>st. ph = Wants_Log st) \<longrightarrow> holder (net (base s)) = None)) \<or> stalled (base s)"
    proof (cases "holder (net (base s))")
      case None
      with blocked(2) show ?thesis by (fastforce simp: stalled_def silent_def)
    next
      case (Some h)
      then have h: "h \<noteq> main_thread" using mirrorsD(5) [OF m] blocked(1) by auto
      then have "holder c = Some (2 * h)" using mirrorsD(4) [OF m] Some by (simp add: thread_no_client)
      then obtain env ph where "handlers c (2 * h) = Some (env, ph)" "holds_log ph" using clients_invD(7) [OF inv] by blast
      then have "handlers (net (base s)) h = Some (env, ph)" "\<forall>res. ph \<noteq> Ended res" "\<forall>st. ph \<noteq> Wants_Log st"
        "ph \<noteq> Receiving []"
        using mirrorsD(2) [OF m, of h] by auto
      moreover have "\<forall>t \<in> finished (base s). \<exists>env res. handlers (net (base s)) t = Some (env, Ended res)"
        using xs by (simp add: sys_inv_def)
      ultimately show ?thesis by fastforce
    qed
    then show ?thesis
    proof
      assume "\<exists>u env ph. handlers (net (base s)) u = Some (env, ph) \<and> u \<notin> finished (base s) \<and> ph \<noteq> Receiving [] \<and>
        ((\<exists>st. ph = Wants_Log st) \<longrightarrow> holder (net (base s)) = None)"
      then obtain u s' where "file_step disk (Handler_Acts u) s = returns (Some s')"
        using live_handler_steps [OF disk boot t] by blast
      then have "moves (Handler_Acts u) \<and> allowed L (Handler_Acts u) s \<and> file_step disk (Handler_Acts u) s = returns (Some s')"
        by simp
      then show ?thesis by blast
    qed simp
  qed
qed

lemma file_run_trans:
  "file_run disk L s evs' s' \<Longrightarrow> file_run disk L s0 evs s \<Longrightarrow> file_run disk L s0 (evs @ evs') s'"
  by (induction rule: file_run.induct) (auto intro: file_more simp flip: append_assoc)

lemma main_keeps_handlers:
  assumes "drained (base s)" and "moves act" and "file_step disk act s = returns (Some s')"
  shows "dom (handlers (net (base s'))) = dom (handlers (net (base s))) \<and>
    ((\<forall>t. \<not> silent (net (base s)) t) \<longrightarrow> (\<forall>t. \<not> silent (net (base s')) t))"
proof (cases act)
  case (Main_Acts r a env answers)
  with assms have "handlers (net (base s')) = handlers (net (base s))"
    by (auto simp: file_main_step_def main_step_def Let_def bindC_eq_returns split: main_phase.splits if_splits)
  then show ?thesis by (simp add: silent_def)
next
  case (Handler_Acts t)
  then obtain b1 where b1: "thread_step (file_log disk) file_piece t (base s) = returns (Some b1)" "s' = s\<lparr>base := b1\<rparr>"
    using assms(3) by (auto simp: bindC_eq_returns)
  from b1(1) show ?thesis
  proof (cases rule: thread_step_cases)
    case (net env ph n)
    obtain ph' where "handlers n = (handlers (net (base s)))(t \<mapsto> (env, ph'))" using clients_step_moved [OF net(4,1)] .
    then have "dom (handlers n) = dom (handlers (net (base s)))" using net(1) by auto
    with net(5) b1(2) still_heard [OF net(4)] show ?thesis by simp
  qed (use b1(2) in simp)
qed (use assms(2) in simp_all)

lemma file_shuts_down:
  assumes disk: "whole_writes disk" and boot: "file_booted s0" and "file_run disk L s0 evs s" and "drained (base s)"
    and "\<forall>t. \<not> silent (net (base s)) t"
  shows "\<exists>evs' s'. file_run disk L s0 (evs @ evs') s' \<and> mphase (base s') = Returned \<and>
    dom (handlers (net (base s'))) = dom (handlers (net (base s))) \<and> ticks evs' = 0"
  using assms(3-5)
proof (induction "file_left s" arbitrary: s evs rule: wf_induct_rule
    [OF wf_lex_prod [OF wf_lex_prod [OF wf_less_than wf_less_than] wf_lex_prod [OF wf_less_than wf_less_than]]])
  case (1 s)
  obtain K es c where t: "tracked disk L s0 evs s K es c" using file_run_tracked [OF disk boot 1(2)] by blast
  show ?case
  proof (cases "mphase (base s) = Returned")
    case True
    with 1(2) show ?thesis by (intro exI [of _ "[]"] exI [of _ s]) (simp add: ticks_def)
  next
    case False
    then obtain act s1 where act: "moves act" "allowed L act s" "file_step disk act s = returns (Some s1)"
      using file_can_step [OF disk boot t] 1(4) unfolding stalled_def by blast
    note keep = main_keeps_handlers [OF 1(3) act(1,3)]
    note less = file_drained_less [OF disk boot t 1(3) act(1,3)]
    obtain evs' s' where "file_run disk L s0 ((evs @ file_events act s s1) @ evs') s'" "mphase (base s') = Returned"
        "dom (handlers (net (base s'))) = dom (handlers (net (base s1)))" "ticks evs' = 0"
      using 1(1) [OF conjunct2 [OF less] file_more [OF 1(2) act(2,3)] conjunct1 [OF less]] keep 1(4) by blast
    moreover have "ticks (file_events act s s1) = 0" using act(1) by (cases act) (auto simp: ticks_def split: option.split)
    ultimately show ?thesis using keep by (intro exI [of _ "file_events act s s1 @ evs'"] exI [of _ s']) simp
  qed
qed

text \<open>In a schedule from the last loop on, the threads take finitely many steps; ticks and signals change nothing.\<close>

lemma file_drained_still:
  assumes "\<not> moves act" and "file_step disk act s = returns (Some s')"
  shows "drained (base s') = drained (base s) \<and> file_left s' = file_left s"
  using assms by (cases act) (auto simp: file_left_def shutdown_left_def)

lemma still_until_move:
  assumes "file_run disk L s0 evs (f n)" and "drained (base (f n))"
    and go: "\<And>i. allowed L (acts i) (f i) \<and> file_step disk (acts i) (f i) = returns (Some (f (Suc i)))"
    and still: "\<And>j. n \<le> j \<Longrightarrow> j < k \<Longrightarrow> \<not> moves (acts j)" and "n \<le> k"
  shows "\<exists>evs. file_run disk L s0 evs (f k) \<and> drained (base (f k)) \<and> file_left (f k) = file_left (f n)"
  using \<open>n \<le> k\<close> still
proof (induction k rule: dec_induct)
  case base
  from assms(1,2) show ?case by auto
next
  case (step k)
  then obtain evs where evs: "file_run disk L s0 evs (f k)" "drained (base (f k))" "file_left (f k) = file_left (f n)"
    by auto
  have "\<not> moves (acts k)" using step.prems step.hyps by simp
  note same = file_drained_still [OF this conjunct2 [OF go]]
  have "file_run disk L s0 (evs @ file_events (acts k) (f k) (f (Suc k))) (f (Suc k))"
    using file_more [OF evs(1) conjunct1 [OF go] conjunct2 [OF go]] .
  with same evs(2,3) show ?case by metis
qed

lemma finite_moves:
  assumes disk: "whole_writes disk" and boot: "file_booted s0" and "file_run disk L s0 evs (f n)" and "drained (base (f n))"
    and go: "\<And>i. allowed L (acts i) (f i) \<and> file_step disk (acts i) (f i) = returns (Some (f (Suc i)))"
  shows "finite {j. n \<le> j \<and> moves (acts j)}"
  using assms(3,4)
proof (induction "file_left (f n)" arbitrary: n evs rule: wf_induct_rule
    [OF wf_lex_prod [OF wf_lex_prod [OF wf_less_than wf_less_than] wf_lex_prod [OF wf_less_than wf_less_than]]])
  case (1 n)
  show ?case
  proof (cases "\<exists>j. n \<le> j \<and> moves (acts j)")
    case True
    define k where "k = (LEAST j. n \<le> j \<and> moves (acts j))"
    have k: "n \<le> k" "moves (acts k)" and least: "\<And>j. n \<le> j \<Longrightarrow> j < k \<Longrightarrow> \<not> moves (acts j)"
      using LeastI_ex [OF True] not_less_Least [where P = "\<lambda>j. n \<le> j \<and> moves (acts j)"] unfolding k_def by blast+
    obtain evs where evs: "file_run disk L s0 evs (f k)" "drained (base (f k))" "file_left (f k) = file_left (f n)"
      using still_until_move [where f = f, OF 1(2,3) go least k(1)] by blast
    obtain K es c where "tracked disk L s0 evs (f k) K es c" using file_run_tracked [OF disk boot evs(1)] by blast
    from file_drained_less [OF disk boot this evs(2) k(2)] go [of k]
    have "drained (base (f (Suc k)))" "(file_left (f (Suc k)), file_left (f n)) \<in> shutdown_order" using evs(3) by auto
    from 1(1) [OF this(2) file_more [OF evs(1)] this(1)] go [of k] have "finite {j. Suc k \<le> j \<and> moves (acts j)}" by blast
    moreover have "{j. n \<le> j \<and> moves (acts j)} \<subseteq> insert k {j. Suc k \<le> j \<and> moves (acts j)}"
    proof
      fix j
      assume j: "j \<in> {j. n \<le> j \<and> moves (acts j)}"
      then have "k \<le> j" using least [of j] by (auto intro: leI)
      with j show "j \<in> insert k {j. Suc k \<le> j \<and> moves (acts j)}" by (cases "j = k") auto
    qed
    ultimately show ?thesis by (simp add: finite_subset)
  next
    case False
    then have "{j. n \<le> j \<and> moves (acts j)} = {}" by blast
    then show ?thesis by (simp only: finite.emptyI)
  qed
qed

section \<open>A run\<close>

text \<open>
  The timer expires, a client with the line \<open>hi\<close> comes to thread 1, the main thread writes a time stamp
  and catches a signal.
\<close>

definition booted_file_server :: file_server where
  "booted_file_server = \<lparr>base = \<lparr>mthread = idle_server, mphase = Tests, caught = False,
      net = \<lparr>log_file = None, holder = None, handlers = Map.empty\<rparr>, args = (\<lambda>t. 0), finished = {}\<rparr>,
     flags = \<lparr>timer_fired = False, signal_caught = False, listening = True\<rparr>, round = At_Accept\<rparr>"

lemma booted_after_setup:
  "\<exists>e. server_setup (good_answers\<lparr>timer := Some \<lparr>sigaction_answer = 0, sigprocmask_set_answer = 0, timer_create_answer = 0,
      timer_settime_answer = 0, sigprocmask_unblock_answer = 0\<rparr>\<rparr>) [''aesdsocket''] = returns e \<and>
    file_main_start None e = Some booted_file_server"
proof -
  have "server_setup (good_answers\<lparr>timer := Some \<lparr>sigaction_answer = 0, sigprocmask_set_answer = 0, timer_create_answer = 0,
      timer_settime_answer = 0, sigprocmask_unblock_answer = 0\<rparr>\<rparr>) [''aesdsocket''] = returns (Ready 3 [3] 0)"
    by code_simp
  then show ?thesis by (simp add: file_main_start_def booted_file_server_def idle_server_def)
qed

lemma booted_file_server_start: "file_booted booted_file_server"
proof -
  obtain e where "file_main_start None e = Some booted_file_server" using booted_after_setup by blast
  from file_main_start_booted [OF this] show ?thesis by (simp add: file_fits_def)
qed

definition hi_line :: "nat \<Rightarrow> byte list" where
  "hi_line t = ''hi'' @ [newline]"

lemma hi_piece: "text_piece (hi_line t)"
  by (simp add: text_piece_def hi_line_def)

abbreviation main_goes :: "file_server \<Rightarrow> file_server option comp" where
  "main_goes \<equiv> file_main_step fitting_disk quiet_round quiet_stamp calm_env []"

lemma run_main:
  assumes "file_run fitting_disk L s0 evs s" and "main_goes s = returns (Some s')" and "\<not> in_stamp (round s)"
  shows "file_run fitting_disk L s0 evs s'"
  using file_more [OF assms(1) quiet_allowed, where s' = s'] assms(2,3) by simp

lemma one_round_client:
  "\<exists>m. new_client (accept_answer one_round) (node_answer one_round (nodes idle_server)) (create_error one_round)
    (new_thread one_round) idle_server = returns (True, m)" and one_round_accepts: "accept_answer one_round \<noteq> - 1"
proof -
  have "observe fst (new_client (accept_answer one_round) (node_answer one_round (nodes idle_server)) (create_error one_round)
    (new_thread one_round) idle_server) = returns True" by code_simp
  then show "\<exists>m. new_client (accept_answer one_round) (node_answer one_round (nodes idle_server)) (create_error one_round)
    (new_thread one_round) idle_server = returns (True, m)" by (auto elim!: observe_returnsE)
  show "accept_answer one_round \<noteq> - 1" by (simp add: one_round_def round_of_def)
qed

lemma sample_accepted:
  "\<exists>s. file_run fitting_disk hi_line booted_file_server [Tick] s \<and> mphase (base s) = Accepts \<and> round s = At_Timer \<and>
     timer_fired (flags s) \<and> net (base s) = \<lparr>log_file = None, holder = None, handlers = [1 \<mapsto> (stamp_env, Receiving [Recv (hi_line 1)])]\<rparr>"
proof -
  let ?s1 = "booted_file_server\<lparr>flags := timer_handler (flags booted_file_server)\<rparr>"
  let ?s2 = "?s1\<lparr>base := (base ?s1)\<lparr>mphase := Accepts\<rparr>\<rparr>"
  have "file_run fitting_disk hi_line booted_file_server ([] @ file_events Timer_Expires booted_file_server ?s1) ?s1"
    by (rule file_more [OF file_start]) simp_all
  then have run1: "file_run fitting_disk hi_line booted_file_server [Tick] ?s1" by simp
  have run2: "file_run fitting_disk hi_line booted_file_server [Tick] ?s2"
    by (rule run_main [OF run1])
      (simp_all add: file_main_step_def main_step_def booted_file_server_def idle_server_def remove_at_end_def timer_handler_def)
  obtain m where m: "new_client (accept_answer one_round) (node_answer one_round (nodes idle_server)) (create_error one_round)
      (new_thread one_round) idle_server = returns (True, m)"
    using one_round_client by blast
  let ?act = "Main_Acts one_round quiet_stamp stamp_env [Recv (hi_line 1)]"
  let ?s3 = "?s2\<lparr>base := (add_handler one_round stamp_env [Recv (hi_line 1)] (base ?s2))\<lparr>mthread := m\<rparr>, round := At_Timer\<rparr>"
  have "sends_line hi_line 1 stamp_env [Recv (hi_line 1)]"
    using hi_piece [of 1] stamp_env_smooth
    by (auto simp: sends_line_def sends_request_def client_ok_def loggable_def first_answer_def main_thread_def)
      (simp_all add: hi_line_def)
  then have "allowed hi_line ?act ?s2"
    using one_round_fresh by (simp add: fresh_round_def one_round_eval good_stamp_def quiet_stamp_def booted_file_server_def)
  moreover have "file_step fitting_disk ?act ?s2 = returns (Some ?s3)"
    using m one_round_accepts by (simp add: file_main_step_def booted_file_server_def Let_def)
  ultimately have "file_run fitting_disk hi_line booted_file_server [Tick] ?s3"
    using file_more [OF run2] by (fastforce simp: booted_file_server_def)
  then show ?thesis
    by (intro exI [of _ ?s3]) (simp add: booted_file_server_def add_handler_def one_round_eval timer_handler_def)
qed

lemma sample_stamped:
  "\<exists>s bs. file_run fitting_disk hi_line booted_file_server [Tick, Written Stamp bs] s \<and> mphase (base s) = Accepts \<and>
     round s = At_Sweep \<and> stamp_line bs \<and> log_file (net (base s)) = Some bs \<and> dom (handlers (net (base s))) = {1} \<and>
     (\<forall>t. \<not> silent (net (base s)) t)"
proof -
  obtain s where s: "file_run fitting_disk hi_line booted_file_server [Tick] s" "mphase (base s) = Accepts" "round s = At_Timer"
      "timer_fired (flags s)" "log_file (net (base s)) = None" "holder (net (base s)) = None" "dom (handlers (net (base s))) = {1}"
      "\<forall>t. \<not> silent (net (base s)) t"
    using sample_accepted by (auto simp: silent_def)
  obtain t where t: "localtime_answer quiet_stamp = Some t" by (simp add: quiet_stamp_def)
  define buf where "buf = strftime 200 t"
  have line: "stamp_line buf" unfolding buf_def by (rule strftime_stamp)
  then have buf: "buf \<noteq> []" "length buf < 200" by (auto simp: stamp_line_def)
  define s1 where "s1 = s\<lparr>round := Wants_Stamp buf\<rparr>"
  define s2 where "s2 = (set_net ((net (base s1))\<lparr>holder := Some main_thread\<rparr>) s1)\<lparr>round := In_Stamp buf\<rparr>"
  define s3 where "s3 = (set_net ((net (base s2))\<lparr>log_file := Some buf\<rparr>) s2)\<lparr>round := Leaves_Stamp 0\<rparr>"
  define s4 where "s4 = (set_net ((net (base s3))\<lparr>holder := None\<rparr>) s3)\<lparr>flags := (flags s3)\<lparr>timer_fired := False\<rparr>, round := At_Sweep\<rparr>"
  note eqs = s1_def s2_def s3_def s4_def set_net_def
  have quiet: "\<not> stamp_lock_error quiet_stamp" "\<not> stamp_unlock_error quiet_stamp" "stamp_fopen_ok quiet_stamp"
    by (simp_all add: quiet_stamp_def)
  have "main_goes s = returns (Some s1)" using s t by (simp add: file_main_step_def stamp_step_def Let_def eqs buf_def)
  then have run1: "file_run fitting_disk hi_line booted_file_server [Tick] s1" using run_main [OF s(1)] s(3) by simp
  have "main_goes s1 = returns (Some s2)" using s quiet by (simp add: file_main_step_def stamp_step_def Let_def eqs)
  then have run2: "file_run fitting_disk hi_line booted_file_server [Tick] s2" using run_main [OF run1] by (simp add: eqs)
  have "file_step fitting_disk (Main_Acts quiet_round quiet_stamp calm_env []) s2 = returns (Some s3)"
    using s quiet buf by (simp add: file_main_step_def stamp_step_def Let_def eqs file_log_def file_append_def fitting_disk_def)
  from file_more [OF run2 quiet_allowed this]
  have run3: "file_run fitting_disk hi_line booted_file_server [Tick, Written Stamp buf] s3"
    using s by (simp add: eqs new_bytes_def)
  have "main_goes s3 = returns (Some s4)" using s quiet by (simp add: file_main_step_def stamp_step_def Let_def eqs)
  then have "file_run fitting_disk hi_line booted_file_server [Tick, Written Stamp buf] s4" using run_main [OF run3] by (simp add: eqs)
  then show ?thesis using s line by (intro exI [of _ s4] exI [of _ buf]) (simp add: eqs silent_def)
qed

lemma sample_drains:
  "\<exists>s bs. file_run fitting_disk hi_line booted_file_server [Tick, Written Stamp bs] s \<and> mphase (base s) = Drains \<and>
     stamp_line bs \<and> file_text (log_file (net (base s))) = bs \<and> dom (handlers (net (base s))) = {1} \<and>
     (\<forall>t. \<not> silent (net (base s)) t)"
proof -
  let ?run = "\<lambda>bs. file_run fitting_disk hi_line booted_file_server [Tick, Written Stamp bs]"
  obtain s bs where s: "?run bs s" "mphase (base s) = Accepts" "round s = At_Sweep" "stamp_line bs"
      "log_file (net (base s)) = Some bs" "dom (handlers (net (base s))) = {1}" "\<forall>t. \<not> silent (net (base s)) t"
    using sample_stamped by blast
  obtain xs where xs: "sys_inv (base s) xs"
    using file_run_tracked [OF fitting_whole booted_file_server_start s(1)] by (auto simp: tracked_def)
  let ?act = "Main_Acts quiet_round quiet_stamp calm_env []"
  obtain m where m: "sweep_threads (join_error quiet_round) (mthread (base s)) = returns m"
    using file_main_ok [OF xs quiet_allowed, of fitting_disk] s(2,3)
    by (auto simp: file_main_step_def Let_def bindC_eq_returns)
  define s1 where "s1 = s\<lparr>base := (base s)\<lparr>mthread := m, mphase := Tests\<rparr>, round := At_Accept\<rparr>"
  define s2 where "s2 = s1\<lparr>base := (base s1)\<lparr>caught := True\<rparr>, flags := signal_handler (flags s1)\<rparr>"
  define s3 where "s3 = s2\<lparr>base := (base s2)\<lparr>mphase := Drains\<rparr>\<rparr>"
  have "main_goes s = returns (Some s1)" using s m by (simp add: file_main_step_def Let_def s1_def)
  then have run1: "?run bs s1" using run_main [OF s(1)] s(3) by simp
  have "file_step fitting_disk Signal_Arrives s1 = returns (Some s2)" by (simp add: s2_def)
  with file_more [OF run1 _ this] have run2: "?run bs s2" by simp
  have "main_goes s2 = returns (Some s3)"
    by (simp add: file_main_step_def main_step_def Let_def s1_def s2_def s3_def remove_at_end_def)
  then have "?run bs s3" using run_main [OF run2] by (simp add: s1_def s2_def)
  then show ?thesis using s by (intro exI [of _ s3] exI [of _ bs]) (simp add: s1_def s2_def s3_def)
qed

text \<open>How much a run has written.\<close>

lemma writers_known:
  assumes disk: "whole_writes disk" and boot: "file_booted s0" and t: "tracked disk L s0 evs s K es c"
    and w: "(Client u, bs) \<in> set (file_writes evs)"
  shows "u \<in> dom (handlers (net (base s)))"
proof -
  have m: "mirrors K s c" and ev: "file_writes evs = map write_of es" using t by (simp_all add: tracked_def)
  obtain n a b where e: "(n, a, b) \<in> set es" "writer_of n = Client u" "bs = drop (length a) b"
    using write_origin [OF w [unfolded ev]] by blast
  then have "n = 2 * u" by (simp add: client_writer)
  with e(1) have "2 * u \<in> fst ` set es" by (metis fst_conv imageI)
  then have "handlers c (2 * u) \<noteq> None" using clients_invD(5) [OF tracked_clients [OF disk boot t]] by blast
  then show ?thesis using mirrorsD(2) [OF m, of u] by auto
qed

lemma written_bound:
  "\<forall>(w, bs) \<in> set ws. w = Client u \<and> length bs \<le> m \<or> w = Stamp \<and> length bs \<le> n \<Longrightarrow>
   length (concat (map snd ws)) \<le> m * length (filter (\<lambda>(w, bs). w = Client u) ws) + n * count_list (map fst ws) Stamp"
proof (induction ws)
  case (Cons x ws)
  obtain w bs where x: "x = (w, bs)" by (cases x)
  then have "w = Client u \<and> length bs \<le> m \<or> w = Stamp \<and> length bs \<le> n" using Cons.prems by simp
  moreover have "length (concat (map snd ws)) \<le> m * length (filter (\<lambda>(w, bs). w = Client u) ws) + n * count_list (map fst ws) Stamp"
    using Cons.IH Cons.prems by simp
  ultimately show ?case using x by (elim disjE conjE) simp_all
qed simp

text \<open>It comes to its end, with the client served.\<close>

lemma sample_returns:
  "\<exists>evs s. file_run fitting_disk hi_line booted_file_server evs s \<and> mphase (base s) = Returned \<and>
     dom (handlers (net (base s))) = {1} \<and> length (concat (map snd (file_writes evs))) < 1000"
proof -
  note ok = fitting_whole booted_file_server_start
  obtain s1 bs where s1: "file_run fitting_disk hi_line booted_file_server [Tick, Written Stamp bs] s1"
      "mphase (base s1) = Drains" "dom (handlers (net (base s1))) = {1}" "\<forall>t. \<not> silent (net (base s1)) t"
    using sample_drains by blast
  then have "drained (base s1)" by simp
  from file_shuts_down [OF ok s1(1) this s1(4)] s1(3) obtain evs' s where
    s: "file_run fitting_disk hi_line booted_file_server ([Tick, Written Stamp bs] @ evs') s" "mphase (base s) = Returned"
    "dom (handlers (net (base s))) = {1}" "ticks evs' = 0" by metis
  define evs where "evs = [Tick, Written Stamp bs] @ evs'"
  have run: "file_run fitting_disk hi_line booted_file_server evs s" using s(1) by (simp add: evs_def)
  obtain K es c where t: "tracked fitting_disk hi_line booted_file_server evs s K es c" using file_run_tracked [OF ok run] by blast
  note proper = tracked_proper [OF ok t]
  have "w = Client 1 \<and> length xs \<le> 3 \<or> w = Stamp \<and> length xs \<le> 200" if "(w, xs) \<in> set (file_writes evs)" for w xs
  proof (cases w)
    case (Client u)
    with writers_known [OF ok t] that s(3) have "u = 1" by blast
    moreover from this Client that proper have "xs = hi_line 1 \<or> xs = []" by (simp add: proper_writes_def)
    ultimately show ?thesis using Client by (auto simp: hi_line_def)
  next
    case Stamp
    with that proper have "stamp_line xs \<or> xs = []" by (simp add: proper_writes_def)
    with Stamp show ?thesis by (auto simp: stamp_line_def)
  qed
  then have "length (concat (map snd (file_writes evs))) \<le>
      3 * length (filter (\<lambda>(w, bs). w = Client 1) (file_writes evs)) + 200 * count_list (map fst (file_writes evs)) Stamp"
    by (intro written_bound) auto
  moreover have "length (filter (\<lambda>(w, bs). w = Client 1) (file_writes evs)) \<le> 1" using proper by (simp add: proper_writes_def)
  moreover have "ticks evs = 1" using s(4) by (simp add: evs_def ticks_def)
  then have "count_list (map fst (file_writes evs)) Stamp \<le> 1" using file_run_due [OF ok run] by (simp add: stamps_def)
  ultimately have "length (concat (map snd (file_writes evs))) < 1000" by linarith
  with run s(2,3) show ?thesis by blast
qed

end
