(* ===== verification/Socket_File_Properties.thy ===== *)
theory Socket_File_Properties
  imports Socket_File_Server
begin

text \<open>
  What the server with an ordinary log file guarantees: no thread faults, the file holds whole texts of
  clients and whole time stamps, each client gets the file as it was at one moment after its own write,
  there are no more time stamps than ticks of the timer, and shutting down ends with every client served
  and the file removed.
\<close>

section \<open>Safety\<close>

text \<open>
  C8: In the server with an ordinary log file, for any number of clients that each send one text with a
  newline and no zero byte in one piece of fewer than 512 bytes, close at once or stay silent, and where
  the calls of the surroundings succeed (\<open>allowed\<close>; for some other clients \<open>handle_client\<close> itself reads
  out of bounds, and a \<open>recv\<close> that the timer's signal interrupts is left out): no step of any thread
  faults, however the main thread, the handlers, the timer and signals interleave, and only one thread at a time is between locking and
  unlocking \<open>log_mutex\<close>: a handler there is its holder, and the main thread is then not writing a time
  stamp. Time stamps work, and the disk takes writes whole or not at all.
\<close>

theorem file_server_never_faults:
  assumes disk: "whole_writes disk" and boot: "file_booted s0" and run: "file_run disk L s0 evs s" and act: "allowed L act s"
  shows "(\<exists>r. file_step disk act s = returns r) \<and>
    (\<forall>t env ph. handlers (net (base s)) t = Some (env, ph) \<and> holds_log ph \<longrightarrow>
       holder (net (base s)) = Some t \<and> \<not> in_mutex (round s))"
proof (intro conjI allI impI)
  obtain K es c where t: "tracked disk L s0 evs s K es c" using file_run_tracked [OF disk boot run] by blast
  then have m: "mirrors K s c" by (simp add: tracked_def)
  obtain xs where xs: "sys_inv (base s) xs" using t by (auto simp: tracked_def)
  note inv = tracked_clients [OF disk boot t]
  show "\<exists>r. file_step disk act s = returns r"
  proof (cases act)
    case (Main_Acts r a env answers)
    with file_main_ok [OF xs] act show ?thesis by fastforce
  next
    case (Handler_Acts u)
    with file_thread_ok [OF disk m inv xs, of u] show ?thesis by (auto simp: bindC_eq_returns)
  qed simp_all
  fix u env ph
  assume h: "handlers (net (base s)) u = Some (env, ph) \<and> holds_log ph"
  then have hold: "holder c = Some (2 * u)" using clients_invD(7) [OF inv] mirrorsD(2) [OF m, of u] by force
  then show "\<not> in_mutex (round s)" using mirror_last(3) [OF m] by (auto simp: double_not_eq_Suc_double)
  obtain v where v: "holder (net (base s)) = Some v" "thread_no K v = 2 * u" using hold mirrorsD(4) [OF m] by auto
  then have "v \<noteq> main_thread" using thread_no_even [of K v] by simp
  with v show "holder (net (base s)) = Some u" by (simp add: thread_no_client)
qed

theorem file_server_never_faults_witness:
  "\<exists>s bs. file_run fitting_disk hi_line booted_file_server [Tick, Written Stamp bs] s \<and> dom (handlers (net (base s))) = {1} \<and>
     (\<exists>r. file_step fitting_disk (Handler_Acts 1) s = returns r)"
proof -
  obtain s bs where s: "file_run fitting_disk hi_line booted_file_server [Tick, Written Stamp bs] s" "dom (handlers (net (base s))) = {1}"
    using sample_drains by blast
  moreover have "allowed hi_line (Handler_Acts 1) s" by simp
  from file_server_never_faults [OF fitting_whole booted_file_server_start s(1) this]
  have "\<exists>r. file_step fitting_disk (Handler_Acts 1) s = returns r" by (rule conjunct1)
  ultimately show ?thesis by blast
qed

section \<open>The file and the answers\<close>



text \<open>
  C6: When the main thread of the server with an ordinary log file has returned, the server has served
  every client it created a thread for: each thread was joined once and its structure freed, each handler
  put all that its client sent into the file, unless the disk did not take it at that moment
  (\<open>refused\<close>), ended without error and closed its connection, and the file is removed. Clients and
  surroundings are those of \<open>allowed\<close>: each client sends one text with a newline in one piece, closes at
  once, or stays silent, and then the main thread does not return.
\<close>

theorem file_server_serves_everyone:
  assumes disk: "whole_writes disk" and boot: "file_booted s0" and run: "file_run disk L s0 evs s"
    and returned: "mphase (base s) = Returned"
  shows "nodes (mthread (base s)) = Map.empty \<and> mset (joined (mthread (base s))) = mset (created (mthread (base s))) \<and>
    log_file (net (base s)) = None \<and>
    (\<forall>t \<in> set (created (mthread (base s))).
       ((Client t, L t) \<in> set (file_writes evs) \<or> refused disk L (file_text (log_file (net (base s0)))) evs t) \<and>
       (\<exists>env res. handlers (net (base s)) t = Some (env, Ended res) \<and> result_retval res = 0 \<and> client_closed res))"
proof -
  obtain K es c where t: "tracked disk L s0 evs s K es c" using file_run_tracked [OF disk boot run] by blast
  obtain xs where xs: "sys_inv (base s) xs" using t by (auto simp: tracked_def)
  note ends = returned_all_done [OF xs returned]
  have "((Client u, L u) \<in> set (file_writes evs) \<or> refused disk L (file_text (log_file (net (base s0)))) evs u) \<and>
      (\<exists>env res. handlers (net (base s)) u = Some (env, Ended res) \<and> result_retval res = 0 \<and> client_closed res)"
    if u: "u \<in> set (created (mthread (base s)))" for u
  proof -
    obtain env res where h: "handlers (net (base s)) u = Some (env, Ended res)" using ends(4) [OF u] by blast
    note answer = tracked_answer [OF disk boot t h]
    then have "Client u \<in> fst ` set (file_writes evs)" by auto
    then obtain bs where bs: "(Client u, bs) \<in> set (file_writes evs)" by auto
    from file_run_written [OF disk boot run this] bs answer h show ?thesis by auto
  qed
  moreover have "log_file (net (base s)) = None" using t returned by (simp add: tracked_def)
  ultimately show ?thesis using ends(1,2) by blast
qed

theorem file_server_serves_everyone_witness:
  "\<exists>evs s env res. file_run fitting_disk hi_line booted_file_server evs s \<and> mphase (base s) = Returned \<and>
     log_file (net (base s)) = None \<and> handlers (net (base s)) 1 = Some (env, Ended res) \<and> result_retval res = 0 \<and>
     (Client 1, ''hi'' @ [newline]) \<in> set (file_writes evs)"
proof -
  obtain evs s where s: "file_run fitting_disk hi_line booted_file_server evs s" "mphase (base s) = Returned"
      "dom (handlers (net (base s))) = {1}" "length (concat (map snd (file_writes evs))) < 1000"
    using sample_returns by blast
  obtain xs where xs: "sys_inv (base s) xs"
    using file_run_tracked [OF fitting_whole booted_file_server_start s(1)] by (auto simp: tracked_def)
  have "1 \<in> set (created (mthread (base s)))" using returned_all_done(3) [OF xs s(2)] s(3) by blast
  note served = file_server_serves_everyone [OF fitting_whole booted_file_server_start s(1,2)]
  with \<open>1 \<in> _\<close> have "log_file (net (base s)) = None"
    "(Client 1, hi_line 1) \<in> set (file_writes evs) \<or> refused fitting_disk hi_line [] evs 1"
    "\<exists>env res. handlers (net (base s)) 1 = Some (env, Ended res) \<and> result_retval res = 0"
    by (auto simp: booted_file_server_def)
  moreover have "\<not> refused fitting_disk hi_line [] evs 1"
    using s(4) by (auto simp: refused_def fitting_disk_def hi_line_def split: if_splits)
  ultimately show ?thesis using s(1,2) by (auto simp: hi_line_def)
qed

section \<open>Progress\<close>

text \<open>
  C9: Once the main thread of the server with an ordinary log file is in its last loop, for clients and
  surroundings as in the properties above: in every schedule, whatever ticks and signals it has, the
  threads take finitely many steps, and until the main thread has returned some thread can take one,
  unless every thread that has not finished waits in \<open>recv\<close> for a client that stays silent. So with no
  silent clients the server comes to its end.
\<close>

theorem file_server_shuts_down:
  assumes disk: "whole_writes disk" and boot: "file_booted s0" and run: "file_run disk L s0 evs s"
    and drains: "mphase (base s) = Drains"
  shows "(\<forall>f acts. f 0 = s \<and> (\<forall>i. allowed L (acts i) (f i) \<and> file_step disk (acts i) (f i) = returns (Some (f (Suc i)))) \<longrightarrow>
      finite {i. moves (acts i)}) \<and>
    ((\<exists>act s'. moves act \<and> allowed L act s \<and> file_step disk act s = returns (Some s')) \<or> stalled (base s))"
proof (intro conjI allI impI)
  obtain K es c where "tracked disk L s0 evs s K es c" using file_run_tracked [OF disk boot run] by blast
  from file_can_step [OF disk boot this] drains
  show "(\<exists>act s'. moves act \<and> allowed L act s \<and> file_step disk act s = returns (Some s')) \<or> stalled (base s)" by simp
  fix f acts
  assume "f 0 = s \<and> (\<forall>i. allowed L (acts i) (f i) \<and> file_step disk (acts i) (f i) = returns (Some (f (Suc i))))"
  then have f: "f 0 = s" "\<And>i. allowed L (acts i) (f i) \<and> file_step disk (acts i) (f i) = returns (Some (f (Suc i)))" by blast+
  have "finite {j. 0 \<le> j \<and> moves (acts j)}"
    by (rule finite_moves [where f = f, OF disk boot]) (use run drains f in auto)
  then show "finite {i. moves (acts i)}" by simp
qed

theorem file_server_shuts_down_witness:
  "\<exists>s bs. file_run fitting_disk hi_line booted_file_server [Tick, Written Stamp bs] s \<and> mphase (base s) = Drains \<and>
     (\<exists>act s'. moves act \<and> file_step fitting_disk act s = returns (Some s'))"
proof -
  obtain s bs where s: "file_run fitting_disk hi_line booted_file_server [Tick, Written Stamp bs] s" "mphase (base s) = Drains"
      "\<forall>t. \<not> silent (net (base s)) t"
    using sample_drains by blast
  then have "\<not> stalled (base s)" by (auto simp: stalled_def)
  with file_server_shuts_down [OF fitting_whole booted_file_server_start s(1,2)] s show ?thesis by blast
qed

text \<open>
  C26: However the threads interleave, there are never more time stamps than ticks of the timer, and at
  least one fewer while one is still to come.
\<close>

theorem stamps_within_ticks:
  assumes "whole_writes disk" and "file_booted s0" and "file_run disk L s0 evs s"
  shows "stamps evs + due s \<le> ticks evs"
  using file_run_due [OF assms] by blast

theorem stamps_within_ticks_witness:
  "\<exists>s bs. file_run fitting_disk hi_line booted_file_server [Tick, Written Stamp bs] s \<and> due s = 0"
proof -
  obtain s bs where s: "file_run fitting_disk hi_line booted_file_server [Tick, Written Stamp bs] s"
    using sample_drains by blast
  moreover from stamps_within_ticks [OF fitting_whole booted_file_server_start s]
  have "due s = 0" by (simp add: ticks_def stamps_def)
  ultimately show ?thesis by blast
qed

section \<open>The steps of a time stamp are the code\<close>

text \<open>The main thread alone, with the same answers to all its calls.\<close>

abbreviation main_alone ::
  "disk \<Rightarrow> round_answers \<Rightarrow> stamp_answers \<Rightarrow> client_env \<Rightarrow> recv_answer list \<Rightarrow> file_server \<Rightarrow> file_server \<Rightarrow> bool" where
  "main_alone disk r a env answers \<equiv> (\<lambda>s s'. file_main_step disk r a env answers s = returns (Some s'))\<^sup>*\<^sup>*"

text \<open>
  C29: The steps of the timer's block, taken one after the other while the mutex is free, are
  \<open>print_timestamp\<close> on the whole: the same bytes go to the file, and depending on its result the flag is
  cleared and the round goes on, or the main thread gives up with -1.
\<close>

theorem print_timestamp_in_steps:
  assumes "mphase (base s) = Accepts" and "round s = At_Timer" and "timer_fired (flags s)"
    and "holder (net (base s)) = None"
    and "print_timestamp (localtime_answer a) (stamp_lock_error a) (stamp_unlock_error a) (stamp_fopen_ok a) (file_log disk)
      (log_file (net (base s))) = returns (rv, d)"
  shows "\<exists>s'. main_alone disk r a env answers s s' \<and> log_file (net (base s')) = d \<and>
    (if rv = 0 then mphase (base s') = Accepts \<and> round s' = At_Sweep \<and> \<not> timer_fired (flags s') \<and> holder (net (base s')) = None
     else mphase (base s') = Tests \<and> main_retval (mthread (base s')) = - 1)"
proof -
  let ?go = "\<lambda>s. file_main_step disk r a env answers s"
  obtain t where t: "localtime_answer a = Some t" using assms(5) by (auto simp: print_timestamp_def split: option.splits)
  let ?buf = "strftime 200 t"
  have buf: "?buf \<noteq> []" using strftime_stamp [of t] by (auto simp: stamp_line_def)
  define s1 where "s1 = s\<lparr>round := Wants_Stamp ?buf\<rparr>"
  have one: "?go s = returns (Some s1)"
    using assms(1-3) t by (simp add: file_main_step_def stamp_step_def Let_def s1_def)
  show ?thesis
  proof (cases "stamp_lock_error a")
    case True
    then have "?go s1 = returns (Some (give_up s1))"
      using assms(1) by (simp add: file_main_step_def stamp_step_def Let_def s1_def)
    moreover have "rv = - 1" "d = log_file (net (base s))"
      using assms(5) True t by (simp_all add: print_timestamp_def Let_def)
    ultimately show ?thesis
      using one by (intro exI [of _ "give_up s1"]) (auto simp: give_up_def s1_def intro: converse_rtranclp_into_rtranclp)
  next
    case False
    then have d: "stamp_fopen_ok a" "log_append (file_log disk) ?buf (log_file (net (base s))) = returns d"
      "rv = (if stamp_unlock_error a then - 1 else 0)"
      using assms(5) t buf by (auto simp: print_timestamp_def Let_def bindC_eq_returns split: if_splits)
    define s2 where "s2 = (set_net ((net (base s))\<lparr>holder := Some main_thread\<rparr>) s)\<lparr>round := In_Stamp ?buf\<rparr>"
    define s3 where "s3 = (set_net ((net (base s2))\<lparr>log_file := d\<rparr>) s2)\<lparr>round := Leaves_Stamp 0\<rparr>"
    define s4 where "s4 = (if stamp_unlock_error a then give_up s3
      else (set_net ((net (base s3))\<lparr>holder := None\<rparr>) s3)\<lparr>flags := (flags s3)\<lparr>timer_fired := False\<rparr>, round := At_Sweep\<rparr>)"
    have "?go s1 = returns (Some s2)"
      using False assms(1,4) by (simp add: file_main_step_def stamp_step_def Let_def s1_def s2_def set_net_def)
    moreover have "?go s2 = returns (Some s3)"
      using d assms(1) buf by (simp add: file_main_step_def stamp_step_def Let_def s2_def s3_def set_net_def)
    moreover have "?go s3 = returns (Some s4)"
      using assms(1) by (simp add: file_main_step_def stamp_step_def Let_def s2_def s3_def s4_def set_net_def)
    ultimately have "main_alone disk r a env answers s s4"
      using one by (blast intro: converse_rtranclp_into_rtranclp)
    then show ?thesis
      using d assms(1) by (intro exI [of _ s4]) (auto simp: s4_def s3_def s2_def give_up_def set_net_def)
  qed
qed

theorem print_timestamp_in_steps_witness:
  "\<exists>s s' bs. file_run fitting_disk hi_line booted_file_server [Tick] s \<and> round s = At_Timer \<and>
     main_alone fitting_disk quiet_round quiet_stamp calm_env [] s s' \<and> stamp_line bs \<and> log_file (net (base s')) = Some bs \<and>
     \<not> timer_fired (flags s')"
proof -
  obtain s where s: "file_run fitting_disk hi_line booted_file_server [Tick] s" "mphase (base s) = Accepts" "round s = At_Timer"
      "timer_fired (flags s)" "log_file (net (base s)) = None" "holder (net (base s)) = None"
    using sample_accepted by auto
  obtain t where t: "localtime_answer quiet_stamp = Some t" by (simp add: quiet_stamp_def)
  have line: "stamp_line (strftime 200 t)" by (rule strftime_stamp)
  then have buf: "strftime 200 t \<noteq> []" "length (strftime 200 t) < 200" by (auto simp: stamp_line_def)
  have "print_timestamp (localtime_answer quiet_stamp) (stamp_lock_error quiet_stamp) (stamp_unlock_error quiet_stamp)
      (stamp_fopen_ok quiet_stamp) (file_log fitting_disk) (log_file (net (base s))) = returns (0, Some (strftime 200 t))"
    using t s(5) buf
    by (simp add: print_timestamp_def Let_def file_log_def file_append_def fitting_disk_def) (simp add: quiet_stamp_def)
  from print_timestamp_in_steps [OF s(2-4,6) this, of quiet_round calm_env "[]"] obtain s' where
    "main_alone fitting_disk quiet_round quiet_stamp calm_env [] s s'" "log_file (net (base s')) = Some (strftime 200 t)"
    "\<not> timer_fired (flags s')" by auto
  with line s show ?thesis by blast
qed

end
