(* ===== verification/Queue_Interface.thy ===== *)
theory Queue_Interface
  imports Prelude
begin

text \<open>
  What the queue families of \<open>server/queue.h\<close> have in common: the two loops over a queue and the
  contracts of the operations, as locales that the theory of each family interprets. The client
  lemmas are proved once here.
\<close>

section \<open>The loops\<close>

text \<open>
  The plain loop reads a node's link after the body has run, the safe one before. \<open>stop\<close> is the
  value that ends the loop: \<open>NULL\<close>, or the head of a circular queue.
\<close>

partial_function (option) walk ::
  "('s \<Rightarrow> 'p \<Rightarrow> 'p comp) \<Rightarrow> 'p \<Rightarrow> ('s \<Rightarrow> 'p \<Rightarrow> 's comp) \<Rightarrow> 'p \<Rightarrow> 's \<Rightarrow> 's comp" where
  "walk nxt stop body var s =
     (if var = stop then returns s
      else bindC (body s var) (\<lambda>s'. bindC (nxt s' var) (\<lambda>n. walk nxt stop body n s')))"

partial_function (option) walk_safe ::
  "('s \<Rightarrow> 'p \<Rightarrow> 'p comp) \<Rightarrow> 'p \<Rightarrow> ('s \<Rightarrow> 'p \<Rightarrow> 's comp) \<Rightarrow> 'p \<Rightarrow> 's \<Rightarrow> 's comp" where
  "walk_safe nxt stop body var s =
     (if var = stop then returns s
      else bindC (nxt s var) (\<lambda>tvar. bindC (body s var) (\<lambda>s'. walk_safe nxt stop body tvar s')))"

declare walk.simps [code] walk_safe.simps [code]

text \<open>Following the links gives the positions \<open>ps\<close>, then \<open>stop\<close>.\<close>

fun leads :: "('p \<Rightarrow> 'p comp) \<Rightarrow> 'p \<Rightarrow> 'p list \<Rightarrow> 'p \<Rightarrow> bool" where
  "leads nxt p [] stop \<longleftrightarrow> p = stop"
| "leads nxt p (q # qs) stop \<longleftrightarrow> p = q \<and> q \<noteq> stop \<and> (\<exists>r. nxt q = returns r \<and> leads nxt r qs stop)"

text \<open>A body that leaves the links alone runs once for every position, in order.\<close>

lemma walk_foldC:
  assumes body: "\<And>s p s'. P s \<Longrightarrow> body s p = returns s' \<Longrightarrow> P s'" and nxt: "\<And>s p. P s \<Longrightarrow> nxt s p = lnk p"
  shows "leads lnk p ps stop \<Longrightarrow> P s \<Longrightarrow> walk nxt stop body p s = foldC body s ps"
proof (induction ps arbitrary: p s)
  case Nil
  then show ?case by (subst walk.simps) simp
next
  case (Cons q ps)
  then obtain r where p: "p = q" "q \<noteq> stop" "lnk q = returns r" "leads lnk r ps stop" by auto
  have "body s q = returns s' \<Longrightarrow> bindC (nxt s' q) (\<lambda>n. walk nxt stop body n s') = foldC body s' ps" for s'
    using Cons.IH [OF p(4)] body [OF Cons.prems(2), of q s'] nxt p(3) by simp
  with p show ?case by (subst walk.simps) (simp cong: bindC_cong)
qed

text \<open>A body that notes the nodes in the order in which the loop comes to them.\<close>

definition note_node :: "'m \<times> 'p list \<Rightarrow> 'p \<Rightarrow> ('m \<times> 'p list) comp" where
  "note_node s p = returns (fst s, snd s @ [p])"

lemma note_node_keeps: "note_node s p = returns s' \<Longrightarrow> fst s' = fst s"
  by (auto simp: note_node_def)

lemma foldC_note_node: "foldC note_node (m, us) ps = returns (m, us @ ps)"
  by (induction ps arbitrary: us) (simp_all add: note_node_def)

section \<open>The contracts\<close>

text \<open>
  \<open>rep m h xs\<close>: the queue with head \<open>h\<close> consists of the nodes \<open>xs\<close>. \<open>spares\<close>: from one memory to
  the next, only links of the nodes \<open>A\<close> and of the heads \<open>H\<close> have changed, so every other queue is
  what it was, and nothing that the nodes hold beside their links.
\<close>

definition spares :: "('m \<Rightarrow> nat \<Rightarrow> nat list \<Rightarrow> bool) \<Rightarrow> ('m \<Rightarrow> nat \<Rightarrow> 'd option) \<Rightarrow> nat set \<Rightarrow> nat set \<Rightarrow> 'm \<Rightarrow> 'm \<Rightarrow> bool" where
  "spares rep rest H A m m' \<longleftrightarrow> rest m' = rest m \<and>
     (\<forall>h ys. h \<notin> H \<longrightarrow> set ys \<inter> A = {} \<longrightarrow> rep m h ys \<longrightarrow> rep m' h ys)"

lemma spares_refl: "spares rep rest H A m m"
  by (simp add: spares_def)

lemma spares_trans:
  "spares rep rest H A m m' \<Longrightarrow> spares rep rest H B m' m'' \<Longrightarrow> A \<subseteq> C \<Longrightarrow> B \<subseteq> C \<Longrightarrow> spares rep rest H C m m''"
  by (simp add: spares_def) blast

locale node_queue =
  fixes rep :: "'m \<Rightarrow> nat \<Rightarrow> nat list \<Rightarrow> bool"
    and rest :: "'m \<Rightarrow> nat \<Rightarrow> 'd option"
    and insert_head :: "'m \<Rightarrow> nat \<Rightarrow> nat \<Rightarrow> 'm comp"
    and insert_after :: "'m \<Rightarrow> nat \<Rightarrow> nat \<Rightarrow> nat \<Rightarrow> 'm comp"
    and remove :: "'m \<Rightarrow> nat \<Rightarrow> nat \<Rightarrow> 'm comp"
  assumes nodes_distinct: "rep m h xs \<Longrightarrow> distinct xs"
    and rep_unique: "rep m h xs \<Longrightarrow> rep m h ys \<Longrightarrow> xs = ys"
    and insert_head_ok: "rep m h xs \<Longrightarrow> rest m a \<noteq> None \<Longrightarrow> a \<notin> set xs \<Longrightarrow>
      \<exists>m'. insert_head m h a = returns m' \<and> rep m' h (a # xs) \<and> spares rep rest {h} (insert a (set xs)) m m'"
    and insert_after_ok: "rep m h (xs @ e # ys) \<Longrightarrow> rest m a \<noteq> None \<Longrightarrow> a \<notin> set (xs @ e # ys) \<Longrightarrow>
      \<exists>m'. insert_after m h e a = returns m' \<and> rep m' h (xs @ e # a # ys) \<and>
        spares rep rest {h} (insert a (set (xs @ e # ys))) m m'"
    and remove_ok: "rep m h (xs @ e # ys) \<Longrightarrow>
      \<exists>m'. remove m h e = returns m' \<and> rep m' h (xs @ ys) \<and> spares rep rest {h} (set (xs @ e # ys)) m m'"
begin

lemma remove_member:
  assumes "rep m h xs" and "e \<in> set xs"
  shows "\<exists>m'. remove m h e = returns m' \<and> rep m' h (remove1 e xs) \<and> spares rep rest {h} (set xs) m m'"
proof -
  obtain as bs where xs: "xs = as @ e # bs" using assms(2) by (meson split_list)
  then have "remove1 e xs = as @ bs" using nodes_distinct [OF assms(1)] by (simp add: remove1_append)
  with remove_ok [of m h as e bs] assms(1) xs show ?thesis by simp
qed

lemma insert_after_member:
  assumes "rep m h xs" and "e \<in> set xs" and "rest m a \<noteq> None" and "a \<notin> set xs"
  shows "\<exists>m' m'' as bs. xs = as @ e # bs \<and> insert_after m h e a = returns m' \<and> rep m' h (as @ e # a # bs) \<and>
    remove m' h a = returns m'' \<and> rep m'' h xs"
proof -
  obtain as bs where xs: "xs = as @ e # bs" using assms(2) by (meson split_list)
  then obtain m' where m': "insert_after m h e a = returns m'" "rep m' h (as @ e # a # bs)"
    using insert_after_ok assms by meson
  then have "rep m' h ((as @ [e]) @ a # bs)" by simp
  from remove_ok [OF this] xs m' show ?thesis by auto
qed

end

text \<open>Queues with an end to insert at are first in, first out.\<close>

locale fifo_queue = node_queue +
  fixes insert_tail :: "'a \<Rightarrow> nat \<Rightarrow> nat \<Rightarrow> 'a comp"
  assumes insert_tail_ok: "rep m h xs \<Longrightarrow> rest m a \<noteq> None \<Longrightarrow> a \<notin> set xs \<Longrightarrow>
      \<exists>m'. insert_tail m h a = returns m' \<and> rep m' h (xs @ [a]) \<and> spares rep rest {h} (insert a (set xs)) m m'"
begin

lemma insert_all:
  "rep m h xs \<Longrightarrow> \<forall>a \<in> set as. rest m a \<noteq> None \<Longrightarrow> distinct (xs @ as) \<Longrightarrow>
   \<exists>m'. foldC (\<lambda>m. insert_tail m h) m as = returns m' \<and> rep m' h (xs @ as) \<and>
     spares rep rest {h} (set (xs @ as)) m m'"
proof (induction as arbitrary: m xs)
  case Nil
  then show ?case by (simp add: spares_refl)
next
  case (Cons a as)
  then obtain m1 where m1: "insert_tail m h a = returns m1" "rep m1 h (xs @ [a])"
    "spares rep rest {h} (insert a (set xs)) m m1"
    using insert_tail_ok [of m h xs a] by auto
  moreover have "\<forall>b \<in> set as. rest m1 b \<noteq> None" using m1(3) Cons.prems(2) by (simp add: spares_def)
  ultimately obtain m' where "foldC (\<lambda>m. insert_tail m h) m1 as = returns m'" "rep m' h ((xs @ [a]) @ as)"
    "spares rep rest {h} (set ((xs @ [a]) @ as)) m1 m'"
    using Cons.IH [of m1 "xs @ [a]"] Cons.prems(3) by auto
  with m1 spares_trans [OF m1(3) this(3), of "set (xs @ a # as)"] show ?case by auto
qed

lemma remove_all:
  "rep m h (as @ xs) \<Longrightarrow> \<exists>m'. foldC (\<lambda>m. remove m h) m as = returns m' \<and> rep m' h xs"
proof (induction as arbitrary: m)
  case (Cons a as)
  then show ?case using remove_ok [of m h "[]" a "as @ xs"] by fastforce
qed simp

text \<open>What was inserted at the end is what comes out first, in the order of insertion.\<close>

lemma first_in_first_out:
  assumes "rep m h []" and "\<forall>a \<in> set as. rest m a \<noteq> None" and "distinct as"
  shows "\<exists>m' m''. foldC (\<lambda>m. insert_tail m h) m as = returns m' \<and> rep m' h as \<and>
    foldC (\<lambda>m. remove m h) m' as = returns m'' \<and> rep m'' h []"
  using insert_all [OF assms(1,2)] assms(3) remove_all [of _ h as "[]"] by fastforce

end

end
