(* ===== verification/Queue_Memory.thy ===== *)
theory Queue_Memory
  imports Queue_Interface
begin

text \<open>
  The memory on which the list, tail queue and singly-linked tail queue macros of
  \<open>server/queue.h\<close> work. Unlike the singly-linked lists these structures hold addresses of
  pointer variables (\<open>struct type **\<close>), so a \<^emph>\<open>link\<close> names such a variable: the first-element
  field of a head or the next-element field of a node. Every access is checked. The rest of the
  theory is the abstraction that the three families share: the chain of links from a head through
  its nodes, and the links that point back.
\<close>

section \<open>Heads, nodes and links\<close>

text \<open>The address of a pointer variable: \<open>NULL\<close>, \<open>&head->first\<close> or \<open>&elm->field.next\<close>.\<close>

datatype link = No_Link | First_Of nat | Next_Of nat

text \<open>A head is a pointer to the first element, in tail queues followed by the last link.\<close>

record link_head =
  q_first :: ptr

record tail_head = link_head +
  q_last :: link

text \<open>An entry is a pointer to the next element, in doubly linked structures followed by the address
  of the link that points here.\<close>

record link_entry =
  q_next :: ptr

record back_entry = link_entry +
  q_prev :: link

record ('h, 'n) queue_mem =
  q_heads :: "nat \<Rightarrow> 'h link_head_scheme option"
  q_nodes :: "nat \<Rightarrow> 'n link_entry_scheme option"

type_synonym 'n list_mem = "(unit, 'n back_entry_ext) queue_mem"
type_synonym 'n stailq_mem = "(unit tail_head_ext, 'n) queue_mem"
type_synonym 'n tailq_mem = "(unit tail_head_ext, 'n back_entry_ext) queue_mem"

section \<open>Checked accesses\<close>

definition link_val :: "('h, 'n) queue_mem \<Rightarrow> link \<Rightarrow> ptr option" where
  "link_val m l = (case l of
      No_Link \<Rightarrow> None
    | First_Of h \<Rightarrow> map_option q_first (q_heads m h)
    | Next_Of a \<Rightarrow> map_option q_next (q_nodes m a))"

definition live :: "('h, 'n) queue_mem \<Rightarrow> link \<Rightarrow> bool" where
  "live m l \<longleftrightarrow> link_val m l \<noteq> None"

definition bad_access :: "link \<Rightarrow> fault" where
  "bad_access l = (if l = No_Link then Null_Deref else Use_After_Free)"

text \<open>\<open>*l\<close> read and written; \<open>&p->field.next\<close>.\<close>

definition load :: "('h, 'n) queue_mem \<Rightarrow> link \<Rightarrow> ptr comp" where
  "load m l = (case link_val m l of None \<Rightarrow> fails (bad_access l) | Some p \<Rightarrow> returns p)"

definition set_link :: "('h, 'n) queue_mem \<Rightarrow> link \<Rightarrow> ptr \<Rightarrow> ('h, 'n) queue_mem" where
  "set_link m l p = (case l of
      No_Link \<Rightarrow> m
    | First_Of h \<Rightarrow> m\<lparr>q_heads := (q_heads m)(h := map_option (q_first_update (\<lambda>_. p)) (q_heads m h))\<rparr>
    | Next_Of a \<Rightarrow> m\<lparr>q_nodes := (q_nodes m)(a := map_option (q_next_update (\<lambda>_. p)) (q_nodes m a))\<rparr>)"

definition store :: "('h, 'n) queue_mem \<Rightarrow> link \<Rightarrow> ptr \<Rightarrow> ('h, 'n) queue_mem comp" where
  "store m l p = (if live m l then returns (set_link m l p) else fails (bad_access l))"

definition next_link :: "ptr \<Rightarrow> link comp" where
  "next_link p = (case p of Ptr a \<Rightarrow> returns (Next_Of a) | _ \<Rightarrow> fails Null_Deref)"

definition load_next :: "('h, 'n) queue_mem \<Rightarrow> ptr \<Rightarrow> ptr comp" where
  "load_next m p = bindC (next_link p) (load m)"

definition store_next :: "('h, 'n) queue_mem \<Rightarrow> ptr \<Rightarrow> ptr \<Rightarrow> ('h, 'n) queue_mem comp" where
  "store_next m p q = bindC (next_link p) (\<lambda>l. store m l q)"

text \<open>\<open>p->field.prev\<close> read and written.\<close>

definition back_val :: "('h, 'n back_entry_ext) queue_mem \<Rightarrow> nat \<Rightarrow> link option" where
  "back_val m a = map_option q_prev (q_nodes m a)"

definition set_back :: "('h, 'n back_entry_ext) queue_mem \<Rightarrow> nat \<Rightarrow> link \<Rightarrow> ('h, 'n back_entry_ext) queue_mem" where
  "set_back m a l = m\<lparr>q_nodes := (q_nodes m)(a := map_option (q_prev_update (\<lambda>_. l)) (q_nodes m a))\<rparr>"

definition load_prev :: "('h, 'n back_entry_ext) queue_mem \<Rightarrow> ptr \<Rightarrow> link comp" where
  "load_prev m p = (case p of
      Ptr a \<Rightarrow> (case back_val m a of None \<Rightarrow> fails Use_After_Free | Some l \<Rightarrow> returns l)
    | _ \<Rightarrow> fails Null_Deref)"

definition store_prev :: "('h, 'n back_entry_ext) queue_mem \<Rightarrow> ptr \<Rightarrow> link \<Rightarrow> ('h, 'n back_entry_ext) queue_mem comp" where
  "store_prev m p l = (case p of
      Ptr a \<Rightarrow> if live m (Next_Of a) then returns (set_back m a l) else fails Use_After_Free
    | _ \<Rightarrow> fails Null_Deref)"

text \<open>\<open>head->last\<close> read and written.\<close>

definition last_val :: "('t tail_head_ext, 'n) queue_mem \<Rightarrow> nat \<Rightarrow> link option" where
  "last_val m h = map_option q_last (q_heads m h)"

definition set_last :: "('t tail_head_ext, 'n) queue_mem \<Rightarrow> nat \<Rightarrow> link \<Rightarrow> ('t tail_head_ext, 'n) queue_mem" where
  "set_last m h l = m\<lparr>q_heads := (q_heads m)(h := map_option (q_last_update (\<lambda>_. l)) (q_heads m h))\<rparr>"

definition load_last :: "('t tail_head_ext, 'n) queue_mem \<Rightarrow> nat \<Rightarrow> link comp" where
  "load_last m h = (case last_val m h of None \<Rightarrow> fails Use_After_Free | Some l \<Rightarrow> returns l)"

definition store_last :: "('t tail_head_ext, 'n) queue_mem \<Rightarrow> nat \<Rightarrow> link \<Rightarrow> ('t tail_head_ext, 'n) queue_mem comp" where
  "store_last m h l = (if live m (First_Of h) then returns (set_last m h l) else fails Use_After_Free)"

text \<open>What the heads and nodes hold beside their links.\<close>

definition payload :: "('h, 'n back_entry_ext) queue_mem \<Rightarrow> nat \<Rightarrow> 'n option" where
  "payload m a = map_option back_entry.more (q_nodes m a)"

definition s_payload :: "('h, 'n) queue_mem \<Rightarrow> nat \<Rightarrow> 'n option" where
  "s_payload m a = map_option link_entry.more (q_nodes m a)"

section \<open>How the accesses compute\<close>

lemmas mem_defs = link_val_def back_val_def last_val_def payload_def s_payload_def
  set_link_def set_back_def set_last_def live_def



lemma live_set [simp]:
  "live (set_link m l p) x = live m x" "live (set_back m' a k) x = live m' x" "live (set_last m'' h k) x = live m'' x"
  by (auto simp: mem_defs option.map_comp comp_def split: link.splits)

lemma link_val_set [simp]:
  "live m l \<Longrightarrow> link_val (set_link m l p) = (link_val m)(l \<mapsto> p)"
  "link_val (set_back m' a k) = link_val m'"
  "link_val (set_last m'' h k) = link_val m''"
  by (auto simp: mem_defs fun_eq_iff option.map_comp comp_def split: link.splits)

lemma back_val_set [simp]:
  "back_val (set_link m l p) = back_val m"
  "live m (Next_Of a) \<Longrightarrow> back_val (set_back m a k) = (back_val m)(a \<mapsto> k)"
  "back_val (set_last m' h k) = back_val m'"
  by (auto simp: mem_defs fun_eq_iff option.map_comp comp_def split: link.splits)

lemma last_val_set [simp]:
  "last_val (set_link m l p) = last_val m"
  "last_val (set_back m' a k) = last_val m'"
  "live m (First_Of h) \<Longrightarrow> last_val (set_last m h k) = (last_val m)(h \<mapsto> k)"
  by (auto simp: mem_defs fun_eq_iff option.map_comp comp_def split: link.splits)

lemma payload_set [simp]:
  "payload (set_link m l p) = payload m" "payload (set_back m a k) = payload m" "payload (set_last m' h k) = payload m'"
  by (auto simp: mem_defs fun_eq_iff option.map_comp comp_def split: link.splits)

lemma s_payload_set [simp]:
  "s_payload (set_link m l p) = s_payload m" "s_payload (set_last m' h k) = s_payload m'"
  by (auto simp: mem_defs fun_eq_iff option.map_comp comp_def split: link.splits)

lemma access_simps [simp]:
  "link_val m l = Some p \<Longrightarrow> load m l = returns p"
  "live m l \<Longrightarrow> store m l p = returns (set_link m l p)"
  "link_val m (Next_Of a) = Some p \<Longrightarrow> load_next m (Ptr a) = returns p"
  "live m (Next_Of a) \<Longrightarrow> store_next m (Ptr a) p = returns (set_link m (Next_Of a) p)"
  "next_link (Ptr a) = returns (Next_Of a)"
  by (simp_all add: load_def store_def load_next_def store_next_def next_link_def)

lemma back_access_simps [simp]:
  "back_val m a = Some k \<Longrightarrow> load_prev m (Ptr a) = returns k"
  "live m (Next_Of a) \<Longrightarrow> store_prev m (Ptr a) k = returns (set_back m a k)"
  by (simp_all add: load_prev_def store_prev_def)

lemma last_access_simps [simp]:
  "last_val m h = Some k \<Longrightarrow> load_last m h = returns k"
  "live m (First_Of h) \<Longrightarrow> store_last m h k = returns (set_last m h k)"
  by (simp_all add: load_last_def store_last_def)

lemma null_access [simp]: "load_next m Null = fails Null_Deref" "load_prev m' Null = fails Null_Deref"
  by (simp_all add: load_next_def next_link_def load_prev_def)

lemma liveI [simp]:
  "link_val m l = Some p \<Longrightarrow> live m l" "back_val m' a = Some k \<Longrightarrow> live m' (Next_Of a)"
  "last_val m'' h = Some k \<Longrightarrow> live m'' (First_Of h)"
  by (auto simp: mem_defs)

lemma payload_live: "payload m a \<noteq> None \<Longrightarrow> live m (Next_Of a)"
  by (auto simp: mem_defs)

lemma s_payload_live: "s_payload m a \<noteq> None \<Longrightarrow> live m (Next_Of a)"
  by (auto simp: mem_defs)

section \<open>Chains\<close>

text \<open>The link behind the nodes \<open>xs\<close> of a chain that starts at the link \<open>l\<close>.\<close>

fun end_of :: "link \<Rightarrow> nat list \<Rightarrow> link" where
  "end_of l [] = l"
| "end_of l (a # as) = end_of (Next_Of a) as"

text \<open>\<open>path c l xs\<close>: from the link \<open>l\<close> on, the links lead through the nodes \<open>xs\<close>.\<close>

fun path :: "(link \<Rightarrow> ptr option) \<Rightarrow> link \<Rightarrow> nat list \<Rightarrow> bool" where
  "path c l [] \<longleftrightarrow> True"
| "path c l (a # as) \<longleftrightarrow> c l = Some (Ptr a) \<and> path c (Next_Of a) as"

definition chain :: "(link \<Rightarrow> ptr option) \<Rightarrow> link \<Rightarrow> nat list \<Rightarrow> bool" where
  "chain c l xs \<longleftrightarrow> path c l xs \<and> c (end_of l xs) = Some Null"

text \<open>\<open>backs b l xs\<close>: every node knows the link that points to it.\<close>

fun backs :: "(nat \<Rightarrow> link option) \<Rightarrow> link \<Rightarrow> nat list \<Rightarrow> bool" where
  "backs b l [] \<longleftrightarrow> True"
| "backs b l (a # as) \<longleftrightarrow> b a = Some l \<and> backs b (Next_Of a) as"

lemma Next_Of_image [simp]: "Next_Of a \<in> Next_Of ` A \<longleftrightarrow> a \<in> A" "First_Of h \<notin> Next_Of ` A" "No_Link \<notin> Next_Of ` A"
  by auto

lemma end_of_append [simp]: "end_of l (xs @ ys) = end_of (end_of l xs) ys"
  by (induction xs arbitrary: l) simp_all

lemma path_append [simp]: "path c l (xs @ ys) \<longleftrightarrow> path c l xs \<and> path c (end_of l xs) ys"
  by (induction xs arbitrary: l) simp_all

lemma backs_append [simp]: "backs b l (xs @ ys) \<longleftrightarrow> backs b l xs \<and> backs b (end_of l xs) ys"
  by (induction xs arbitrary: l) simp_all

lemma chain_simps [simp]:
  "chain c l [] \<longleftrightarrow> c l = Some Null"
  "chain c l (a # as) \<longleftrightarrow> c l = Some (Ptr a) \<and> chain c (Next_Of a) as"
  by (auto simp: chain_def)

lemma chain_append [simp]: "chain c l (xs @ ys) \<longleftrightarrow> path c l xs \<and> chain c (end_of l xs) ys"
  by (simp add: chain_def)

lemma end_of_in: "end_of l xs = l \<and> xs = [] \<or> end_of l xs \<in> Next_Of ` set xs"
proof (induction xs arbitrary: l)
  case (Cons a as)
  then show ?case using Cons.IH [of "Next_Of a"] by auto
qed simp

lemma end_of_neq [simp]: "l \<notin> Next_Of ` set xs \<Longrightarrow> x \<notin> Next_Of ` set xs \<Longrightarrow> x \<noteq> l \<Longrightarrow> x \<noteq> end_of l xs"
  using end_of_in [of l xs] by auto

text \<open>What a change of one link or back link leaves alone.\<close>

lemma path_other [simp]: "x \<noteq> l \<Longrightarrow> x \<notin> Next_Of ` set xs \<Longrightarrow> path (c(x := v)) l xs = path c l xs"
  by (induction xs arbitrary: l) auto

lemma chain_other [simp]: "x \<noteq> l \<Longrightarrow> x \<notin> Next_Of ` set xs \<Longrightarrow> chain (c(x := v)) l xs = chain c l xs"
  using end_of_in [of l xs] by (auto simp: chain_def)

lemma path_end [simp]:
  "distinct xs \<Longrightarrow> l \<notin> Next_Of ` set xs \<Longrightarrow> path (c(end_of l xs := v)) l xs = path c l xs"
proof (induction xs arbitrary: l)
  case (Cons a as)
  have "end_of (Next_Of a) as \<noteq> l" using end_of_in [of "Next_Of a" as] Cons.prems by auto
  moreover have "path (c(end_of (Next_Of a) as := v)) (Next_Of a) as = path c (Next_Of a) as"
    using Cons.prems by (intro Cons.IH) auto
  ultimately show ?case by (simp del: fun_upd_apply add: fun_upd_other)
qed simp

lemma backs_other [simp]: "a \<notin> set xs \<Longrightarrow> backs (b(a := v)) l xs = backs b l xs"
  by (induction xs arbitrary: l) auto

lemma path_cong: "c l = c' l \<Longrightarrow> (\<And>a. a \<in> set xs \<Longrightarrow> c (Next_Of a) = c' (Next_Of a)) \<Longrightarrow> path c l xs = path c' l xs"
  by (induction xs arbitrary: l) auto

lemma chain_cong: "c l = c' l \<Longrightarrow> (\<And>a. a \<in> set xs \<Longrightarrow> c (Next_Of a) = c' (Next_Of a)) \<Longrightarrow> chain c l xs = chain c' l xs"
  using path_cong [of c l c' xs] end_of_in [of l xs] by (auto simp: chain_def)

lemma backs_cong: "(\<And>a. a \<in> set xs \<Longrightarrow> b a = b' a) \<Longrightarrow> backs b l xs = backs b' l xs"
  by (induction xs arbitrary: l) auto

text \<open>The chain determines its nodes, and visits none twice.\<close>

lemma chain_unique: "chain c l xs \<Longrightarrow> chain c l ys \<Longrightarrow> xs = ys"
proof (induction xs arbitrary: l ys)
  case Nil
  then show ?case by (cases ys) auto
next
  case (Cons a xs)
  then show ?case by (cases ys) auto
qed

lemma chain_distinct: "chain c l xs \<Longrightarrow> distinct xs"
proof (induction xs arbitrary: l)
  case (Cons a xs)
  have "a \<notin> set xs"
  proof
    assume "a \<in> set xs"
    then obtain ys zs where xs: "xs = ys @ a # zs" by (meson split_list)
    then have "chain c (Next_Of a) zs" "chain c (Next_Of a) (ys @ a # zs)" using Cons.prems by auto
    then have "zs = ys @ a # zs" by (rule chain_unique)
    then show False by simp
  qed
  moreover have "distinct xs" using Cons.prems Cons.IH [of "Next_Of a"] by simp
  ultimately show ?case by simp
qed simp

section \<open>Doubly linked chains\<close>

definition linked :: "(link \<Rightarrow> ptr option) \<Rightarrow> (nat \<Rightarrow> link option) \<Rightarrow> nat \<Rightarrow> nat list \<Rightarrow> bool" where
  "linked c b h xs \<longleftrightarrow> chain c (First_Of h) xs \<and> backs b (First_Of h) xs"

text \<open>The first node of \<open>xs\<close>, if there is one, is told the link that points to it now.\<close>

definition point_back :: "nat list \<Rightarrow> link \<Rightarrow> (nat \<Rightarrow> link option) \<Rightarrow> nat \<Rightarrow> link option" where
  "point_back xs l b = (case xs of [] \<Rightarrow> b | x # _ \<Rightarrow> b(x \<mapsto> l))"

lemma point_back_simps [simp]: "point_back [] l b = b" "point_back (x # xs) l b = b(x \<mapsto> l)"
  by (simp_all add: point_back_def)

lemma point_back_twice [simp]: "point_back xs l (point_back xs k b) = point_back xs l b"
  by (cases xs) simp_all

lemma point_back_apply: "point_back xs l b a = (if xs \<noteq> [] \<and> a = hd xs then Some l else b a)"
  by (cases xs) simp_all

lemma point_back_other: "a \<notin> set xs \<Longrightarrow> point_back xs l b a = b a"
  by (cases xs) auto

lemma point_back_skip: "a \<notin> set ys \<Longrightarrow> point_back xs l (point_back ys k b) a = point_back xs l b a"
  by (cases ys) (auto simp: point_back_apply)

abbreviation tail_link :: "nat \<Rightarrow> nat list \<Rightarrow> link" where
  "tail_link h xs \<equiv> end_of (First_Of h) xs"

lemma linked_distinct: "linked c b h xs \<Longrightarrow> distinct xs"
  by (auto simp: linked_def dest: chain_distinct)

lemma tail_link_neq [simp]:
  "a \<notin> set xs \<Longrightarrow> Next_Of a \<noteq> tail_link h xs" "a \<notin> set xs \<Longrightarrow> tail_link h xs \<noteq> Next_Of a"
  using end_of_in [of "First_Of h" xs] by auto

lemma tail_link_notin [simp]: "set xs \<inter> A = {} \<Longrightarrow> tail_link h xs \<notin> Next_Of ` A"
  using end_of_in [of "First_Of h" xs] by auto

lemma first_of_Null [simp]: "first_of xs = Null \<longleftrightarrow> xs = []"
  by (cases xs) simp_all

lemma chain_first: "chain c l xs \<Longrightarrow> c l = Some (first_of xs)"
  by (cases xs) simp_all

text \<open>Joining two parts: what follows is redirected, and pointed back.\<close>

lemma chain_join:
  assumes "chain c l ys" and "path c (First_Of h) xs" and "distinct (xs @ ys)"
  shows "chain (c(tail_link h xs \<mapsto> first_of ys)) (First_Of h) (xs @ ys)"
proof (cases ys)
  case (Cons y zs)
  have "y \<notin> set xs" "set xs \<inter> set zs = {}" using assms(3) Cons by auto
  then show ?thesis using assms Cons by simp
qed (use assms in \<open>simp add: chain_def\<close>)

lemma linked_join:
  assumes "chain c l ys" "backs b l ys" and "path c (First_Of h) xs" "backs b (First_Of h) xs" and "distinct (xs @ ys)"
  shows "linked (c(tail_link h xs \<mapsto> first_of ys)) (point_back ys (tail_link h xs) b) h (xs @ ys)"
proof -
  have "chain (c(tail_link h xs \<mapsto> first_of ys)) (First_Of h) (xs @ ys)"
    using assms by (intro chain_join [of c l]) auto
  moreover have "backs (point_back ys (tail_link h xs) b) (First_Of h) (xs @ ys)"
    using assms by (cases ys) auto
  ultimately show ?thesis by (simp add: linked_def)
qed

lemma linked_remove:
  assumes "linked c b h (xs @ e # ys)"
  shows "linked (c(tail_link h xs \<mapsto> first_of ys)) (point_back ys (tail_link h xs) b) h (xs @ ys)"
  using assms linked_distinct [OF assms] by (intro linked_join [of c "Next_Of e"]) (auto simp: linked_def)

lemma chain_insert:
  assumes l: "chain c (First_Of h) (xs @ ys)" and a: "a \<notin> set (xs @ ys)"
  shows "chain (c(Next_Of a \<mapsto> first_of ys, tail_link h xs \<mapsto> Ptr a)) (First_Of h) (xs @ a # ys)"
proof -
  have d: "distinct (xs @ ys)" using l by (rule chain_distinct)
  let ?c = "c(Next_Of a \<mapsto> first_of ys)"
  have "chain ?c (Next_Of a) ys" using l a d by (cases ys) auto
  moreover have "path ?c (First_Of h) xs" using l a by simp
  ultimately show ?thesis using a d by auto
qed

lemma linked_insert:
  assumes l: "linked c b h (xs @ ys)" and a: "a \<notin> set (xs @ ys)"
  shows "linked (c(Next_Of a \<mapsto> first_of ys, tail_link h xs \<mapsto> Ptr a))
    ((point_back ys (Next_Of a) b)(a \<mapsto> tail_link h xs)) h (xs @ a # ys)"
proof -
  have "distinct (xs @ ys)" using l by (rule linked_distinct)
  then have "backs ((point_back ys (Next_Of a) b)(a \<mapsto> tail_link h xs)) (First_Of h) (xs @ a # ys)"
    using l a by (cases ys) (auto simp: linked_def)
  moreover have "chain c (First_Of h) (xs @ ys)" using l by (simp add: linked_def)
  ultimately show ?thesis using chain_insert [OF _ a] by (simp add: linked_def del: chain_append backs_append)
qed

lemma linked_replace:
  assumes l: "linked c b h (xs @ e # ys)" and a: "a \<notin> set (xs @ e # ys)"
  shows "linked (c(Next_Of a \<mapsto> first_of ys, tail_link h xs \<mapsto> Ptr a))
    ((point_back ys (Next_Of a) b)(a \<mapsto> tail_link h xs)) h (xs @ a # ys)"
proof -
  have "tail_link h xs \<noteq> Next_Of a" using a by simp
  then show ?thesis
    using linked_insert [OF linked_remove [OF l], of a] a by (simp add: fun_upd_twist del: tail_link_neq)
qed

lemma linked_cong:
  assumes "\<And>l. l \<notin> First_Of ` H \<Longrightarrow> l \<notin> Next_Of ` A \<Longrightarrow> c' l = c l" and "\<And>a. a \<notin> A \<Longrightarrow> b' a = b a"
    and "h \<notin> H" and "set xs \<inter> A = {}"
  shows "linked c' b' h xs = linked c b h xs"
proof -
  have "chain c' (First_Of h) xs = chain c (First_Of h) xs" using assms by (intro chain_cong) auto
  moreover have "backs b' (First_Of h) xs = backs b (First_Of h) xs" using assms by (intro backs_cong) auto
  ultimately show ?thesis by (simp add: linked_def)
qed

text \<open>A chain that is hung on another head.\<close>

lemma chain_move:
  assumes "chain c (First_Of h) xs" and "c' (First_Of k) = Some (first_of xs)"
    and "\<And>a. a \<in> set xs \<Longrightarrow> c' (Next_Of a) = c (Next_Of a)"
  shows "chain c' (First_Of k) xs"
proof (cases xs)
  case (Cons x ys)
  have "chain c' (Next_Of x) ys = chain c (Next_Of x) ys" using assms(3) Cons by (intro chain_cong) auto
  with assms Cons show ?thesis by simp
qed (use assms in simp)

lemma linked_move:
  assumes "linked c b h xs" and "c' (First_Of k) = Some (first_of xs)"
    and "\<And>a. a \<in> set xs \<Longrightarrow> c' (Next_Of a) = c (Next_Of a)"
    and "\<And>a. a \<in> set xs \<Longrightarrow> b' a = point_back xs (First_Of k) b a"
  shows "linked c' b' k xs"
proof -
  have "backs b' (First_Of k) xs"
  proof (cases xs)
    case (Cons x ys)
    then have "x \<notin> set ys" using linked_distinct [OF assms(1)] by simp
    then have "backs b' (Next_Of x) ys = backs b (Next_Of x) ys" using assms(4) Cons by (intro backs_cong) auto
    with assms(1,4) Cons show ?thesis by (simp add: linked_def)
  qed simp
  with assms chain_move [of c h xs c' k] show ?thesis by (simp add: linked_def)
qed

lemma linked_swap:
  assumes "linked c b h xs" "linked c b k ys" and "h \<noteq> k" and "set xs \<inter> set ys = {}"
  shows "linked (c(First_Of h \<mapsto> first_of ys, First_Of k \<mapsto> first_of xs))
      (point_back xs (First_Of k) (point_back ys (First_Of h) b)) h ys"
    and "linked (c(First_Of h \<mapsto> first_of ys, First_Of k \<mapsto> first_of xs))
      (point_back xs (First_Of k) (point_back ys (First_Of h) b)) k xs"
  by (rule linked_move [of c b k ys], use assms in \<open>auto simp: disjoint_iff intro!: point_back_other\<close>)
    (rule linked_move [of c b h xs], use assms in \<open>auto simp: disjoint_iff point_back_skip\<close>)

text \<open>What a loop over a chain sees.\<close>

lemma chain_leads: "chain (link_val m) l xs \<Longrightarrow> leads (load_next m) (first_of xs) (map Ptr xs) Null"
proof (induction xs arbitrary: l)
  case (Cons a xs)
  then have "chain (link_val m) (Next_Of a) xs" by simp
  with Cons.IH chain_first [OF this] show ?case by auto
qed simp

definition last_of :: "nat list \<Rightarrow> ptr" where
  "last_of xs = (if xs = [] then Null else Ptr (last xs))"

lemma last_of_simps [simp]: "last_of [] = Null" "last_of (xs @ [a]) = Ptr a"
  by (simp_all add: last_of_def)

lemma tail_link_last: "tail_link h xs = (if xs = [] then First_Of h else Next_Of (last xs))"
  by (cases xs rule: rev_cases) simp_all

text \<open>
  The effects of the operations on doubly linked memory: inserting \<open>a\<close> between \<open>xs\<close> and \<open>ys\<close>
  (which is also what replacing the node between them does), and removing what is between them.
\<close>

definition inserted ::
  "nat \<Rightarrow> nat list \<Rightarrow> nat \<Rightarrow> nat list \<Rightarrow> ('h, 'n back_entry_ext) queue_mem \<Rightarrow> ('h, 'n back_entry_ext) queue_mem \<Rightarrow> bool" where
  "inserted h xs a ys m m' \<longleftrightarrow>
     link_val m' = (link_val m)(Next_Of a \<mapsto> first_of ys, tail_link h xs \<mapsto> Ptr a) \<and>
     back_val m' = (point_back ys (Next_Of a) (back_val m))(a \<mapsto> tail_link h xs) \<and> payload m' = payload m"

definition removed ::
  "nat \<Rightarrow> nat list \<Rightarrow> nat list \<Rightarrow> ('h, 'n back_entry_ext) queue_mem \<Rightarrow> ('h, 'n back_entry_ext) queue_mem \<Rightarrow> bool" where
  "removed h xs ys m m' \<longleftrightarrow>
     link_val m' = (link_val m)(tail_link h xs \<mapsto> first_of ys) \<and>
     back_val m' = point_back ys (tail_link h xs) (back_val m) \<and> payload m' = payload m"

definition same_outside ::
  "nat set \<Rightarrow> nat set \<Rightarrow> ('h, 'n back_entry_ext) queue_mem \<Rightarrow> ('h, 'n back_entry_ext) queue_mem \<Rightarrow> bool" where
  "same_outside H A m m' \<longleftrightarrow> payload m' = payload m \<and> (\<forall>a. a \<notin> A \<longrightarrow> back_val m' a = back_val m a) \<and>
     (\<forall>l. l \<notin> First_Of ` H \<longrightarrow> l \<notin> Next_Of ` A \<longrightarrow> link_val m' l = link_val m l)"

lemma tail_link_cases: "tail_link h xs = First_Of h \<or> tail_link h xs \<in> Next_Of ` set xs"
  using end_of_in [of "First_Of h" xs] by auto

lemma inserted_outside: "inserted h xs a ys m m' \<Longrightarrow> same_outside {h} (insert a (set (xs @ ys))) m m'"
  using tail_link_cases [of h xs] by (auto simp: inserted_def same_outside_def point_back_other)

lemma removed_outside: "removed h xs ys m m' \<Longrightarrow> same_outside {h} (set (xs @ ys)) m m'"
  using tail_link_cases [of h xs] by (auto simp: removed_def same_outside_def point_back_other)

lemma outside_more: "same_outside H A m m' \<Longrightarrow> A \<subseteq> B \<Longrightarrow> H \<subseteq> G \<Longrightarrow> same_outside G B m m'"
  by (simp add: same_outside_def) blast

lemma outside_linked:
  assumes "same_outside H A m m'" and "h \<notin> H" and "set xs \<inter> A = {}"
  shows "linked (link_val m') (back_val m') h xs = linked (link_val m) (back_val m) h xs"
  using assms by (intro linked_cong [of H A]) (auto simp: same_outside_def)

end
