(* ===== verification/Queue_List.thy ===== *)
theory Queue_List
  imports Queue_Memory
begin

text \<open>
  The \<open>LIST_*\<close> macros of \<open>server/queue.h\<close>: doubly-linked lists whose elements point back to the
  link that points to them, so that any element can be removed without its predecessor being known.
\<close>

section \<open>The macros\<close>

definition LIST_END :: ptr where
  "LIST_END = Null"

definition LIST_FIRST :: "'n list_mem \<Rightarrow> nat \<Rightarrow> ptr comp" where
  "LIST_FIRST m head = load m (First_Of head)"

definition LIST_NEXT :: "'n list_mem \<Rightarrow> ptr \<Rightarrow> ptr comp" where
  "LIST_NEXT m elm = load_next m elm"

text \<open>\<open>__containerof\<close> of a link that is not in an element is not the address of an element.\<close>

definition LIST_PREV :: "'n list_mem \<Rightarrow> ptr \<Rightarrow> nat \<Rightarrow> ptr comp" where
  "LIST_PREV m elm head =
     bindC (load_prev m elm) (\<lambda>l.
       if l = First_Of head then returns LIST_END
       else (case l of Next_Of a \<Rightarrow> returns (Ptr a) | _ \<Rightarrow> fails Out_Of_Bounds))"

definition LIST_EMPTY :: "'n list_mem \<Rightarrow> nat \<Rightarrow> bool comp" where
  "LIST_EMPTY m head = bindC (load m (First_Of head)) (\<lambda>f. returns (f = LIST_END))"

definition LIST_INIT :: "'n list_mem \<Rightarrow> nat \<Rightarrow> 'n list_mem comp" where
  "LIST_INIT m head = store m (First_Of head) LIST_END"

definition LIST_INSERT_HEAD :: "'n list_mem \<Rightarrow> nat \<Rightarrow> ptr \<Rightarrow> 'n list_mem comp" where
  "LIST_INSERT_HEAD m head elm =
     bindC (load m (First_Of head)) (\<lambda>f.
     bindC (store_next m elm f) (\<lambda>m.
     bindC (if f \<noteq> LIST_END
            then bindC (load m (First_Of head)) (\<lambda>f'. bindC (next_link elm) (\<lambda>l. store_prev m f' l))
            else returns m) (\<lambda>m.
     bindC (store m (First_Of head) elm) (\<lambda>m.
     store_prev m elm (First_Of head)))))"

definition LIST_INSERT_BEFORE :: "'n list_mem \<Rightarrow> ptr \<Rightarrow> ptr \<Rightarrow> 'n list_mem comp" where
  "LIST_INSERT_BEFORE m listelm elm =
     bindC (load_prev m listelm) (\<lambda>p.
     bindC (store_prev m elm p) (\<lambda>m.
     bindC (store_next m elm listelm) (\<lambda>m.
     bindC (load_prev m listelm) (\<lambda>p'.
     bindC (store m p' elm) (\<lambda>m.
     bindC (next_link elm) (\<lambda>l. store_prev m listelm l))))))"

definition LIST_INSERT_AFTER :: "'n list_mem \<Rightarrow> ptr \<Rightarrow> ptr \<Rightarrow> 'n list_mem comp" where
  "LIST_INSERT_AFTER m listelm elm =
     bindC (load_next m listelm) (\<lambda>n.
     bindC (store_next m elm n) (\<lambda>m.
     bindC (if n \<noteq> Null
            then bindC (load_next m listelm) (\<lambda>n'. bindC (next_link elm) (\<lambda>l. store_prev m n' l))
            else returns m) (\<lambda>m.
     bindC (store_next m listelm elm) (\<lambda>m.
     bindC (next_link listelm) (\<lambda>l. store_prev m elm l)))))"

definition LIST_REMOVE :: "'n list_mem \<Rightarrow> ptr \<Rightarrow> 'n list_mem comp" where
  "LIST_REMOVE m elm =
     bindC (load_next m elm) (\<lambda>n.
     bindC (if n \<noteq> Null then bindC (load_prev m elm) (\<lambda>p. store_prev m n p) else returns m) (\<lambda>m.
     bindC (load_prev m elm) (\<lambda>p.
     bindC (load_next m elm) (\<lambda>n'. store m p n'))))"

definition LIST_REPLACE :: "'n list_mem \<Rightarrow> ptr \<Rightarrow> ptr \<Rightarrow> 'n list_mem comp" where
  "LIST_REPLACE m elm elm2 =
     bindC (load_next m elm) (\<lambda>n.
     bindC (store_next m elm2 n) (\<lambda>m.
     bindC (if n \<noteq> Null
            then bindC (load_next m elm2) (\<lambda>n'. bindC (next_link elm2) (\<lambda>l. store_prev m n' l))
            else returns m) (\<lambda>m.
     bindC (load_prev m elm) (\<lambda>p.
     bindC (store_prev m elm2 p) (\<lambda>m.
     bindC (load_prev m elm2) (\<lambda>p'. store m p' elm2))))))"

definition LIST_SWAP :: "'n list_mem \<Rightarrow> nat \<Rightarrow> nat \<Rightarrow> 'n list_mem comp" where
  "LIST_SWAP m head1 head2 =
     bindC (LIST_FIRST m head1) (\<lambda>swap_tmp.
     bindC (LIST_FIRST m head2) (\<lambda>f.
     bindC (store m (First_Of head1) f) (\<lambda>m.
     bindC (store m (First_Of head2) swap_tmp) (\<lambda>m.
     bindC (LIST_FIRST m head1) (\<lambda>swap_tmp.
     bindC (if swap_tmp \<noteq> LIST_END then store_prev m swap_tmp (First_Of head1) else returns m) (\<lambda>m.
     bindC (LIST_FIRST m head2) (\<lambda>swap_tmp.
     if swap_tmp \<noteq> LIST_END then store_prev m swap_tmp (First_Of head2) else returns m)))))))"

text \<open>The loops, on a state in which \<open>mem\<close> finds the memory.\<close>

definition LIST_FOREACH :: "('s \<Rightarrow> 'n list_mem) \<Rightarrow> nat \<Rightarrow> ('s \<Rightarrow> ptr \<Rightarrow> 's comp) \<Rightarrow> 's \<Rightarrow> 's comp" where
  "LIST_FOREACH mem head body s =
     bindC (load (mem s) (First_Of head)) (\<lambda>f. walk (\<lambda>s. load_next (mem s)) Null body f s)"

definition LIST_FOREACH_SAFE :: "('s \<Rightarrow> 'n list_mem) \<Rightarrow> nat \<Rightarrow> ('s \<Rightarrow> ptr \<Rightarrow> 's comp) \<Rightarrow> 's \<Rightarrow> 's comp" where
  "LIST_FOREACH_SAFE mem head body s =
     bindC (LIST_FIRST (mem s) head) (\<lambda>f. walk_safe (\<lambda>s. LIST_NEXT (mem s)) Null body f s)"

section \<open>What they do to a list\<close>

definition list_rep :: "'n list_mem \<Rightarrow> nat \<Rightarrow> nat list \<Rightarrow> bool" where
  "list_rep m h xs \<longleftrightarrow> linked (link_val m) (back_val m) h xs"

lemma list_spares: "same_outside H A m m' \<Longrightarrow> spares list_rep payload H A m m'"
  using outside_linked [of H A m m'] by (simp add: spares_def list_rep_def same_outside_def)

lemma list_distinct: "list_rep m h xs \<Longrightarrow> distinct xs"
  by (auto simp: list_rep_def dest: linked_distinct)

lemma list_inserted:
  assumes "\<exists>m'. c = returns m' \<and> inserted h xs a ys m m'" and "list_rep m h (xs @ ys)" and "a \<notin> set (xs @ ys)"
  shows "\<exists>m'. c = returns m' \<and> list_rep m' h (xs @ a # ys) \<and> spares list_rep payload {h} (insert a (set (xs @ ys))) m m'"
proof -
  from assms(1) obtain m' where m': "c = returns m'" "inserted h xs a ys m m'" by blast
  then have "list_rep m' h (xs @ a # ys)"
    using linked_insert [of "link_val m" "back_val m" h xs ys a] assms(2,3) by (simp add: list_rep_def inserted_def)
  with m' list_spares [OF inserted_outside] show ?thesis by blast
qed

lemma list_removed:
  assumes "\<exists>m'. c = returns m' \<and> removed h xs ys m m'" and "list_rep m h (xs @ e # ys)"
  shows "\<exists>m'. c = returns m' \<and> list_rep m' h (xs @ ys) \<and> spares list_rep payload {h} (set (xs @ e # ys)) m m'"
proof -
  from assms(1) obtain m' where m': "c = returns m'" "removed h xs ys m m'" by blast
  then have "same_outside {h} (set (xs @ e # ys)) m m'" by (rule_tac outside_more [OF removed_outside]) auto
  with m' show ?thesis
    using linked_remove [of "link_val m" "back_val m" h xs e ys] assms(2)
    by (auto simp: list_rep_def removed_def dest: list_spares)
qed

lemmas list_ops = list_rep_def linked_def LIST_INSERT_HEAD_def LIST_INSERT_BEFORE_def LIST_INSERT_AFTER_def
  LIST_REMOVE_def LIST_REPLACE_def LIST_END_def

lemma list_insert_head_ok:
  assumes "list_rep m h xs" and "payload m a \<noteq> None" "a \<notin> set xs"
  shows "\<exists>m'. LIST_INSERT_HEAD m h (Ptr a) = returns m' \<and> list_rep m' h (a # xs) \<and>
    spares list_rep payload {h} (insert a (set xs)) m m'"
proof -
  have "\<exists>m'. LIST_INSERT_HEAD m h (Ptr a) = returns m' \<and> inserted h [] a xs m m'"
    using assms payload_live [OF assms(2)] list_distinct [OF assms(1)] by (cases xs) (auto simp: list_ops inserted_def)
  from list_inserted [OF this] assms show ?thesis by simp
qed

lemma list_insert_before_ok:
  assumes "list_rep m h (xs @ e # ys)" and "payload m a \<noteq> None" "a \<notin> set (xs @ e # ys)"
  shows "\<exists>m'. LIST_INSERT_BEFORE m (Ptr e) (Ptr a) = returns m' \<and> list_rep m' h (xs @ a # e # ys) \<and>
    spares list_rep payload {h} (insert a (set (xs @ e # ys))) m m'"
proof -
  have "\<exists>m'. LIST_INSERT_BEFORE m (Ptr e) (Ptr a) = returns m' \<and> inserted h xs a (e # ys) m m'"
    using assms payload_live [OF assms(2)] list_distinct [OF assms(1)] by (auto simp: list_ops inserted_def)
  from list_inserted [OF this] assms show ?thesis by simp
qed

lemma list_insert_after_ok:
  assumes "list_rep m h (xs @ e # ys)" and "payload m a \<noteq> None" "a \<notin> set (xs @ e # ys)"
  shows "\<exists>m'. LIST_INSERT_AFTER m (Ptr e) (Ptr a) = returns m' \<and> list_rep m' h (xs @ e # a # ys) \<and>
    spares list_rep payload {h} (insert a (set (xs @ e # ys))) m m'"
proof -
  have "\<exists>m'. LIST_INSERT_AFTER m (Ptr e) (Ptr a) = returns m' \<and> inserted h (xs @ [e]) a ys m m'"
    using assms payload_live [OF assms(2)] list_distinct [OF assms(1)] by (cases ys) (auto simp: list_ops inserted_def)
  from list_inserted [OF this] assms show ?thesis by simp
qed

lemma list_remove_ok:
  assumes "list_rep m h (xs @ e # ys)"
  shows "\<exists>m'. LIST_REMOVE m (Ptr e) = returns m' \<and> list_rep m' h (xs @ ys) \<and>
    spares list_rep payload {h} (set (xs @ e # ys)) m m'"
proof -
  have "\<exists>m'. LIST_REMOVE m (Ptr e) = returns m' \<and> removed h xs ys m m'"
    using assms list_distinct [OF assms] by (cases ys) (auto simp: list_ops removed_def)
  from list_removed [OF this assms] show ?thesis .
qed

lemma list_replace_ok:
  assumes "list_rep m h (xs @ e # ys)" and "payload m a \<noteq> None" "a \<notin> set (xs @ e # ys)"
  shows "\<exists>m'. LIST_REPLACE m (Ptr e) (Ptr a) = returns m' \<and> list_rep m' h (xs @ a # ys) \<and>
    spares list_rep payload {h} (insert a (set (xs @ ys))) m m'"
proof -
  have "\<exists>m'. LIST_REPLACE m (Ptr e) (Ptr a) = returns m' \<and> inserted h xs a ys m m'"
    using assms payload_live [OF assms(2)] list_distinct [OF assms(1)] by (cases ys) (auto simp: list_ops inserted_def)
  then obtain m' where m': "LIST_REPLACE m (Ptr e) (Ptr a) = returns m'" "inserted h xs a ys m m'" by blast
  then have "list_rep m' h (xs @ a # ys)"
    using linked_replace [of "link_val m" "back_val m" h xs e ys a] assms by (simp add: list_rep_def inserted_def)
  with m' list_spares [OF inserted_outside] show ?thesis by blast
qed

lemma list_swap_ok:
  assumes l: "list_rep m h xs" "list_rep m k ys" and "h \<noteq> k" and "set xs \<inter> set ys = {}"
  shows "\<exists>m'. LIST_SWAP m h k = returns m' \<and> list_rep m' h ys \<and> list_rep m' k xs \<and>
    spares list_rep payload {h, k} (set xs \<union> set ys) m m'"
proof -
  have "\<exists>m'. LIST_SWAP m h k = returns m' \<and> payload m' = payload m \<and>
      link_val m' = (link_val m)(First_Of h \<mapsto> first_of ys, First_Of k \<mapsto> first_of xs) \<and>
      back_val m' = point_back xs (First_Of k) (point_back ys (First_Of h) (back_val m))"
    using assms by (cases xs; cases ys) (auto simp: LIST_SWAP_def LIST_FIRST_def LIST_END_def list_rep_def linked_def)
  then obtain m' where m': "LIST_SWAP m h k = returns m'" "payload m' = payload m"
      "link_val m' = (link_val m)(First_Of h \<mapsto> first_of ys, First_Of k \<mapsto> first_of xs)"
      "back_val m' = point_back xs (First_Of k) (point_back ys (First_Of h) (back_val m))" by blast
  have "list_rep m' h ys" "list_rep m' k xs"
    using linked_swap [of "link_val m" "back_val m" h xs k ys] assms m' by (simp_all add: list_rep_def)
  moreover have "same_outside {h, k} (set xs \<union> set ys) m m'"
    using m' by (auto simp: same_outside_def point_back_other)
  ultimately show ?thesis using m'(1) list_spares by blast
qed

lemma list_prev_ok:
  assumes "list_rep m h (xs @ e # ys)"
  shows "LIST_PREV m (Ptr e) h = returns (last_of xs)"
  using assms by (simp add: LIST_PREV_def list_rep_def linked_def LIST_END_def tail_link_last last_of_def)

lemma list_foreach_ok:
  assumes "list_rep (mem s) h xs" and "\<And>s p s'. body s p = returns s' \<Longrightarrow> mem s' = mem s"
  shows "LIST_FOREACH mem h body s = foldC body s (map Ptr xs)"
proof -
  have c: "chain (link_val (mem s)) (First_Of h) xs" using assms(1) by (simp add: list_rep_def linked_def)
  have "walk (\<lambda>s. load_next (mem s)) Null body (first_of xs) s = foldC body s (map Ptr xs)"
    by (rule walk_foldC [where P = "\<lambda>t. mem t = mem s", OF _ _ chain_leads [OF c]]) (auto dest: assms(2))
  then show ?thesis using chain_first [OF c] by (simp add: LIST_FOREACH_def)
qed

interpretation dlist: node_queue list_rep payload "\<lambda>m h a. LIST_INSERT_HEAD m h (Ptr a)"
  "\<lambda>m h e a. LIST_INSERT_AFTER m (Ptr e) (Ptr a)" "\<lambda>m h e. LIST_REMOVE m (Ptr e)"
proof unfold_locales
  show "list_rep m h xs \<Longrightarrow> list_rep m h ys \<Longrightarrow> xs = ys" for m :: "'n list_mem" and h xs ys
    by (auto simp: list_rep_def linked_def dest: chain_unique)
qed (auto intro: list_distinct list_insert_head_ok list_insert_after_ok list_remove_ok simp del: set_append)

section \<open>Properties\<close>

text \<open>Head 0 with the nodes 1, 2 and 3, an empty head 9, and the node 4 allocated.\<close>

definition two_lists :: "unit list_mem" where
  "two_lists = \<lparr>q_heads = [0 \<mapsto> \<lparr>q_first = Ptr 1\<rparr>, 9 \<mapsto> \<lparr>q_first = Null\<rparr>],
     q_nodes = [1 \<mapsto> \<lparr>q_next = Ptr 2, q_prev = First_Of 0\<rparr>, 2 \<mapsto> \<lparr>q_next = Ptr 3, q_prev = Next_Of 1\<rparr>,
       3 \<mapsto> \<lparr>q_next = Null, q_prev = Next_Of 2\<rparr>, 4 \<mapsto> \<lparr>q_next = Null, q_prev = No_Link\<rparr>]\<rparr>"

lemma two_lists_rep: "list_rep two_lists 0 [1, 2, 3]" "list_rep two_lists 9 []"
  by (simp_all add: two_lists_def list_rep_def linked_def link_val_def back_val_def)

text \<open>
  An element of a doubly-linked list is removed without its head or its predecessor being
  named: exactly it is gone from its list, the order of the others is kept, every other list with
  none of these nodes is what it was, and nothing but links has changed in any node.
\<close>

theorem list_remove_correct:
  assumes "list_rep m h xs" and "e \<in> set xs"
  shows "\<exists>m'. LIST_REMOVE m (Ptr e) = returns m' \<and> list_rep m' h (remove1 e xs) \<and> payload m' = payload m \<and>
    (\<forall>k ys. k \<noteq> h \<longrightarrow> set ys \<inter> set xs = {} \<longrightarrow> list_rep m k ys \<longrightarrow> list_rep m' k ys)"
  using dlist.remove_member [OF assms] by (simp add: spares_def)

theorem list_remove_correct_witness:
  "\<exists>m'. LIST_REMOVE two_lists (Ptr 2) = returns m' \<and> list_rep m' 0 [1, 3] \<and> list_rep m' 9 []"
  using list_remove_correct [OF two_lists_rep(1), of 2] two_lists_rep(2) by auto

end
