(* ===== verification/Queue_Stailq.thy ===== *)
theory Queue_Stailq
  imports Queue_Memory
begin

text \<open>
  The \<open>STAILQ_*\<close> macros of \<open>server/queue.h\<close>: singly-linked queues whose head also holds the last
  link, so that elements can be added at the end and whole queues joined without a loop.
\<close>

section \<open>The macros\<close>

definition STAILQ_END :: ptr where
  "STAILQ_END = Null"

definition STAILQ_FIRST :: "'n stailq_mem \<Rightarrow> nat \<Rightarrow> ptr comp" where
  "STAILQ_FIRST m head = load m (First_Of head)"

definition STAILQ_NEXT :: "'n stailq_mem \<Rightarrow> ptr \<Rightarrow> ptr comp" where
  "STAILQ_NEXT m elm = load_next m elm"

definition STAILQ_EMPTY :: "'n stailq_mem \<Rightarrow> nat \<Rightarrow> bool comp" where
  "STAILQ_EMPTY m head = bindC (load m (First_Of head)) (\<lambda>f. returns (f = STAILQ_END))"

text \<open>The last element is found from the address of its link; the link in a head is in no element.\<close>

definition STAILQ_LAST :: "'n stailq_mem \<Rightarrow> nat \<Rightarrow> ptr comp" where
  "STAILQ_LAST m head =
     bindC (STAILQ_EMPTY m head) (\<lambda>e.
       if e then returns STAILQ_END
       else bindC (load_last m head) (\<lambda>l. case l of Next_Of a \<Rightarrow> returns (Ptr a) | _ \<Rightarrow> fails Out_Of_Bounds))"

definition STAILQ_INIT :: "'n stailq_mem \<Rightarrow> nat \<Rightarrow> 'n stailq_mem comp" where
  "STAILQ_INIT m head =
     bindC (store m (First_Of head) STAILQ_END) (\<lambda>m. store_last m head (First_Of head))"

definition STAILQ_INSERT_HEAD :: "'n stailq_mem \<Rightarrow> nat \<Rightarrow> ptr \<Rightarrow> 'n stailq_mem comp" where
  "STAILQ_INSERT_HEAD m head elm =
     bindC (load m (First_Of head)) (\<lambda>f.
     bindC (store_next m elm f) (\<lambda>m.
     bindC (if f = STAILQ_END then bindC (next_link elm) (\<lambda>l. store_last m head l) else returns m) (\<lambda>m.
     store m (First_Of head) elm)))"

definition STAILQ_INSERT_AFTER :: "'n stailq_mem \<Rightarrow> nat \<Rightarrow> ptr \<Rightarrow> ptr \<Rightarrow> 'n stailq_mem comp" where
  "STAILQ_INSERT_AFTER m head listelm elm =
     bindC (load_next m listelm) (\<lambda>n.
     bindC (store_next m elm n) (\<lambda>m.
     bindC (if n = STAILQ_END then bindC (next_link elm) (\<lambda>l. store_last m head l) else returns m) (\<lambda>m.
     store_next m listelm elm)))"

definition STAILQ_INSERT_TAIL :: "'n stailq_mem \<Rightarrow> nat \<Rightarrow> ptr \<Rightarrow> 'n stailq_mem comp" where
  "STAILQ_INSERT_TAIL m head elm =
     bindC (store_next m elm STAILQ_END) (\<lambda>m.
     bindC (load_last m head) (\<lambda>l.
     bindC (store m l elm) (\<lambda>m.
     bindC (next_link elm) (\<lambda>l'. store_last m head l'))))"

definition STAILQ_CONCAT :: "'n stailq_mem \<Rightarrow> nat \<Rightarrow> nat \<Rightarrow> 'n stailq_mem comp" where
  "STAILQ_CONCAT m head1 head2 =
     bindC (STAILQ_EMPTY m head2) (\<lambda>e.
     if e then returns m
     else bindC (load_last m head1) (\<lambda>l.
          bindC (load m (First_Of head2)) (\<lambda>f.
          bindC (store m l f) (\<lambda>m.
          bindC (load_last m head2) (\<lambda>l2.
          bindC (store_last m head1 l2) (\<lambda>m. STAILQ_INIT m head2))))))"

definition STAILQ_REMOVE_HEAD :: "'n stailq_mem \<Rightarrow> nat \<Rightarrow> 'n stailq_mem comp" where
  "STAILQ_REMOVE_HEAD m head =
     bindC (load m (First_Of head)) (\<lambda>f.
     bindC (load_next m f) (\<lambda>n.
     bindC (store m (First_Of head) n) (\<lambda>m.
     if n = STAILQ_END then store_last m head (First_Of head) else returns m)))"

definition STAILQ_REMOVE_HEAD_UNTIL :: "'n stailq_mem \<Rightarrow> nat \<Rightarrow> ptr \<Rightarrow> 'n stailq_mem comp" where
  "STAILQ_REMOVE_HEAD_UNTIL m head elm =
     bindC (STAILQ_NEXT m elm) (\<lambda>n.
     bindC (store m (First_Of head) n) (\<lambda>m.
     if n = STAILQ_END then store_last m head (First_Of head) else returns m))"

definition STAILQ_REMOVE_AFTER :: "'n stailq_mem \<Rightarrow> nat \<Rightarrow> ptr \<Rightarrow> 'n stailq_mem comp" where
  "STAILQ_REMOVE_AFTER m head elm =
     bindC (STAILQ_NEXT m elm) (\<lambda>n.
     bindC (STAILQ_NEXT m n) (\<lambda>n2.
     bindC (store_next m elm n2) (\<lambda>m.
     if n2 = STAILQ_END then bindC (next_link elm) (\<lambda>l. store_last m head l) else returns m)))"

text \<open>The search of \<open>STAILQ_REMOVE\<close>, which does not test for the end of the queue.\<close>

partial_function (option) stailq_pred :: "'n stailq_mem \<Rightarrow> ptr \<Rightarrow> ptr \<Rightarrow> ptr comp" where
  "stailq_pred m curelm elm =
     bindC (load_next m curelm) (\<lambda>n. if n \<noteq> elm then stailq_pred m n elm else returns curelm)"

declare stailq_pred.simps [code]

definition STAILQ_REMOVE :: "'n stailq_mem \<Rightarrow> nat \<Rightarrow> ptr \<Rightarrow> 'n stailq_mem comp" where
  "STAILQ_REMOVE m head elm =
     bindC (load m (First_Of head)) (\<lambda>f.
     if f = elm then STAILQ_REMOVE_HEAD m head
     else bindC (stailq_pred m f elm) (\<lambda>curelm.
          bindC (load_next m curelm) (\<lambda>n.
          bindC (load_next m n) (\<lambda>n2.
          bindC (store_next m curelm n2) (\<lambda>m.
          if n2 = STAILQ_END then bindC (next_link curelm) (\<lambda>l. store_last m head l) else returns m)))))"

definition STAILQ_SWAP :: "'n stailq_mem \<Rightarrow> nat \<Rightarrow> nat \<Rightarrow> 'n stailq_mem comp" where
  "STAILQ_SWAP m head1 head2 =
     bindC (STAILQ_FIRST m head1) (\<lambda>swap_first.
     bindC (load_last m head1) (\<lambda>swap_last.
     bindC (STAILQ_FIRST m head2) (\<lambda>f2.
     bindC (store m (First_Of head1) f2) (\<lambda>m.
     bindC (load_last m head2) (\<lambda>l2.
     bindC (store_last m head1 l2) (\<lambda>m.
     bindC (store m (First_Of head2) swap_first) (\<lambda>m.
     bindC (store_last m head2 swap_last) (\<lambda>m.
     bindC (STAILQ_EMPTY m head1) (\<lambda>e1.
     bindC (if e1 then store_last m head1 (First_Of head1) else returns m) (\<lambda>m.
     bindC (STAILQ_EMPTY m head2) (\<lambda>e2.
     if e2 then store_last m head2 (First_Of head2) else returns m)))))))))))"

definition STAILQ_FOREACH :: "('s \<Rightarrow> 'n stailq_mem) \<Rightarrow> nat \<Rightarrow> ('s \<Rightarrow> ptr \<Rightarrow> 's comp) \<Rightarrow> 's \<Rightarrow> 's comp" where
  "STAILQ_FOREACH mem head body s =
     bindC (load (mem s) (First_Of head)) (\<lambda>f. walk (\<lambda>s. load_next (mem s)) Null body f s)"

definition STAILQ_FOREACH_SAFE :: "('s \<Rightarrow> 'n stailq_mem) \<Rightarrow> nat \<Rightarrow> ('s \<Rightarrow> ptr \<Rightarrow> 's comp) \<Rightarrow> 's \<Rightarrow> 's comp" where
  "STAILQ_FOREACH_SAFE mem head body s =
     bindC (STAILQ_FIRST (mem s) head) (\<lambda>f. walk_safe (\<lambda>s. STAILQ_NEXT (mem s)) Null body f s)"

section \<open>What they do to a queue\<close>

definition stailq_rep :: "'n stailq_mem \<Rightarrow> nat \<Rightarrow> nat list \<Rightarrow> bool" where
  "stailq_rep m h xs \<longleftrightarrow> chain (link_val m) (First_Of h) xs \<and> last_val m h = Some (tail_link h xs)"

lemma stailq_distinct: "stailq_rep m h xs \<Longrightarrow> distinct xs"
  by (auto simp: stailq_rep_def dest: chain_distinct)

lemma stailq_spares:
  assumes "\<And>l. l \<notin> First_Of ` H \<Longrightarrow> l \<notin> Next_Of ` A \<Longrightarrow> link_val m' l = link_val m l"
    and "\<And>h. h \<notin> H \<Longrightarrow> last_val m' h = last_val m h" and "s_payload m' = s_payload m"
  shows "spares stailq_rep s_payload H A m m'"
proof -
  have "stailq_rep m' h ys" if "h \<notin> H" "set ys \<inter> A = {}" "stailq_rep m h ys" for h ys
  proof -
    have "chain (link_val m') (First_Of h) ys = chain (link_val m) (First_Of h) ys"
      using that assms(1) by (intro chain_cong) auto
    with that assms(2) show ?thesis by (simp add: stailq_rep_def)
  qed
  with assms(3) show ?thesis by (auto simp: spares_def)
qed

text \<open>The two effects: \<open>a\<close> is put between \<open>xs\<close> and \<open>ys\<close>; what is between them is cut out.\<close>

definition put_in :: "nat \<Rightarrow> nat list \<Rightarrow> nat \<Rightarrow> nat list \<Rightarrow> 'n stailq_mem \<Rightarrow> 'n stailq_mem \<Rightarrow> bool" where
  "put_in h xs a ys m m' \<longleftrightarrow> link_val m' = (link_val m)(Next_Of a \<mapsto> first_of ys, tail_link h xs \<mapsto> Ptr a) \<and>
     last_val m' = (last_val m)(h \<mapsto> tail_link h (xs @ a # ys)) \<and> s_payload m' = s_payload m"

definition cut_out :: "nat \<Rightarrow> nat list \<Rightarrow> nat list \<Rightarrow> 'n stailq_mem \<Rightarrow> 'n stailq_mem \<Rightarrow> bool" where
  "cut_out h xs ys m m' \<longleftrightarrow> link_val m' = (link_val m)(tail_link h xs \<mapsto> first_of ys) \<and>
     last_val m' = (last_val m)(h \<mapsto> tail_link h (xs @ ys)) \<and> s_payload m' = s_payload m"

lemma stailq_put_in:
  assumes "\<exists>m'. c = returns m' \<and> put_in h xs a ys m m'" and "stailq_rep m h (xs @ ys)" and "a \<notin> set (xs @ ys)"
  shows "\<exists>m'. c = returns m' \<and> stailq_rep m' h (xs @ a # ys) \<and> spares stailq_rep s_payload {h} (insert a (set (xs @ ys))) m m'"
proof -
  from assms(1) obtain m' where m': "c = returns m'" "put_in h xs a ys m m'" by blast
  then have "stailq_rep m' h (xs @ a # ys)"
    using chain_insert [of "link_val m" h xs ys a] assms(2,3)
    by (simp add: stailq_rep_def put_in_def del: chain_append)
  moreover have "spares stailq_rep s_payload {h} (insert a (set (xs @ ys))) m m'"
    using m'(2) tail_link_cases [of h xs] by (intro stailq_spares) (auto simp: put_in_def)
  ultimately show ?thesis using m'(1) by blast
qed

lemma stailq_cut_out:
  assumes "\<exists>m'. c = returns m' \<and> cut_out h xs ys m m'" and "stailq_rep m h (xs @ es @ ys)"
  shows "\<exists>m'. c = returns m' \<and> stailq_rep m' h (xs @ ys) \<and> spares stailq_rep s_payload {h} (set (xs @ es @ ys)) m m'"
proof -
  from assms(1) obtain m' where m': "c = returns m'" "cut_out h xs ys m m'" by blast
  then have "stailq_rep m' h (xs @ ys)"
    using chain_join [of "link_val m" "end_of (tail_link h xs) es" ys h xs] assms(2) stailq_distinct [OF assms(2)]
    by (auto simp: stailq_rep_def cut_out_def)
  moreover have "spares stailq_rep s_payload {h} (set (xs @ es @ ys)) m m'"
    using m'(2) tail_link_cases [of h xs] by (intro stailq_spares) (auto simp: cut_out_def)
  ultimately show ?thesis using m'(1) by blast
qed

lemmas stailq_ops = stailq_rep_def STAILQ_END_def STAILQ_INSERT_HEAD_def STAILQ_INSERT_AFTER_def
  STAILQ_INSERT_TAIL_def STAILQ_REMOVE_HEAD_def STAILQ_REMOVE_AFTER_def STAILQ_REMOVE_HEAD_UNTIL_def
  STAILQ_NEXT_def STAILQ_REMOVE_def STAILQ_EMPTY_def STAILQ_INIT_def STAILQ_CONCAT_def

lemma stailq_insert_head_ok:
  assumes "stailq_rep m h xs" and "s_payload m a \<noteq> None" "a \<notin> set xs"
  shows "\<exists>m'. STAILQ_INSERT_HEAD m h (Ptr a) = returns m' \<and> stailq_rep m' h (a # xs) \<and>
    spares stailq_rep s_payload {h} (insert a (set xs)) m m'"
proof -
  have "\<exists>m'. STAILQ_INSERT_HEAD m h (Ptr a) = returns m' \<and> put_in h [] a xs m m'"
    using assms s_payload_live [OF assms(2)] by (cases xs) (auto simp: stailq_ops put_in_def)
  from stailq_put_in [OF this] assms show ?thesis by simp
qed

lemma stailq_insert_after_ok:
  assumes "stailq_rep m h (xs @ e # ys)" and "s_payload m a \<noteq> None" "a \<notin> set (xs @ e # ys)"
  shows "\<exists>m'. STAILQ_INSERT_AFTER m h (Ptr e) (Ptr a) = returns m' \<and> stailq_rep m' h (xs @ e # a # ys) \<and>
    spares stailq_rep s_payload {h} (insert a (set (xs @ e # ys))) m m'"
proof -
  have "\<exists>m'. STAILQ_INSERT_AFTER m h (Ptr e) (Ptr a) = returns m' \<and> put_in h (xs @ [e]) a ys m m'"
    using assms s_payload_live [OF assms(2)] by (cases ys) (auto simp: stailq_ops put_in_def)
  from stailq_put_in [OF this] assms show ?thesis by simp
qed

lemma stailq_insert_tail_ok:
  assumes "stailq_rep m h xs" and "s_payload m a \<noteq> None" "a \<notin> set xs"
  shows "\<exists>m'. STAILQ_INSERT_TAIL m h (Ptr a) = returns m' \<and> stailq_rep m' h (xs @ [a]) \<and>
    spares stailq_rep s_payload {h} (insert a (set xs)) m m'"
proof -
  have "live m (tail_link h xs)" using assms(1) by (auto simp: stailq_rep_def chain_def)
  then have "\<exists>m'. STAILQ_INSERT_TAIL m h (Ptr a) = returns m' \<and> put_in h xs a [] m m'"
    using assms s_payload_live [OF assms(2)] by (auto simp: stailq_ops put_in_def)
  from stailq_put_in [OF this] assms show ?thesis by simp
qed

lemma stailq_remove_head_ok:
  assumes "stailq_rep m h (e # ys)"
  shows "\<exists>m'. STAILQ_REMOVE_HEAD m h = returns m' \<and> stailq_rep m' h ys \<and>
    spares stailq_rep s_payload {h} (set (e # ys)) m m'"
proof -
  have "\<exists>m'. STAILQ_REMOVE_HEAD m h = returns m' \<and> cut_out h [] ys m m'"
    using assms by (cases ys) (auto simp: stailq_ops cut_out_def)
  from stailq_cut_out [OF this, of "[e]"] assms show ?thesis by simp
qed

lemma stailq_remove_after_ok:
  assumes "stailq_rep m h (xs @ a # b # ys)"
  shows "\<exists>m'. STAILQ_REMOVE_AFTER m h (Ptr a) = returns m' \<and> stailq_rep m' h (xs @ a # ys) \<and>
    spares stailq_rep s_payload {h} (set (xs @ a # b # ys)) m m'"
proof -
  have "\<exists>m'. STAILQ_REMOVE_AFTER m h (Ptr a) = returns m' \<and> cut_out h (xs @ [a]) ys m m'"
    using assms by (cases ys) (auto simp: stailq_ops cut_out_def)
  from stailq_cut_out [OF this, of "[b]"] assms show ?thesis by simp
qed

lemma stailq_remove_head_until_ok:
  assumes "stailq_rep m h (xs @ e # ys)"
  shows "\<exists>m'. STAILQ_REMOVE_HEAD_UNTIL m h (Ptr e) = returns m' \<and> stailq_rep m' h ys \<and>
    spares stailq_rep s_payload {h} (set (xs @ e # ys)) m m'"
proof -
  have f: "live m (First_Of h)" using chain_first [of "link_val m"] assms by (auto simp: stailq_rep_def)
  have "\<exists>m'. STAILQ_REMOVE_HEAD_UNTIL m h (Ptr e) = returns m' \<and> cut_out h [] ys m m'"
    using assms f by (cases ys) (auto simp: stailq_ops cut_out_def)
  from stailq_cut_out [OF this, of "xs @ [e]"] assms show ?thesis by simp
qed

lemma stailq_pred_found:
  "chain (link_val m) l (xs @ b # e # ys) \<Longrightarrow> stailq_pred m (first_of (xs @ b # e # ys)) (Ptr e) = returns (Ptr b)"
proof (induction xs arbitrary: l)
  case Nil
  then show ?case by (subst stailq_pred.simps) simp
next
  case (Cons a xs)
  have "first_of (xs @ b # e # ys) \<noteq> Ptr e" using chain_distinct [OF Cons.prems] by (cases xs) auto
  moreover have c: "chain (link_val m) (Next_Of a) (xs @ b # e # ys)" using Cons.prems by simp
  moreover have "load_next m (Ptr a) = returns (first_of (xs @ b # e # ys))" using chain_first [OF c] by simp
  ultimately show ?case using Cons.IH [OF c] by (subst stailq_pred.simps) simp
qed

lemma stailq_remove_ok:
  assumes l: "stailq_rep m h (xs @ e # ys)"
  shows "\<exists>m'. STAILQ_REMOVE m h (Ptr e) = returns m' \<and> stailq_rep m' h (xs @ ys) \<and>
    spares stailq_rep s_payload {h} (set (xs @ e # ys)) m m'"
proof (cases xs rule: rev_cases)
  case Nil
  then have "STAILQ_REMOVE m h (Ptr e) = STAILQ_REMOVE_HEAD m h"
    using l by (simp add: STAILQ_REMOVE_def stailq_rep_def)
  with Nil stailq_remove_head_ok [of m h e ys] l show ?thesis by simp
next
  case (snoc zs b)
  then have c: "chain (link_val m) (First_Of h) (zs @ b # e # ys)" using l by (simp add: stailq_rep_def)
  have "first_of (zs @ b # e # ys) \<noteq> Ptr e" using chain_distinct [OF c] by (cases zs) auto
  moreover have "load m (First_Of h) = returns (first_of (zs @ b # e # ys))" using chain_first [OF c] by simp
  ultimately have "\<exists>m'. STAILQ_REMOVE m h (Ptr e) = returns m' \<and> cut_out h xs ys m m'"
    using stailq_pred_found [OF c] l snoc by (cases ys) (auto simp: STAILQ_REMOVE_def STAILQ_END_def stailq_rep_def cut_out_def)
  from stailq_cut_out [OF this, of "[e]"] l show ?thesis by simp
qed

lemma stailq_last_ok:
  assumes "stailq_rep m h xs"
  shows "STAILQ_LAST m h = returns (last_of xs)"
proof (cases xs rule: rev_cases)
  case (snoc ys a)
  have "link_val m (First_Of h) = Some (first_of xs)" using chain_first assms by (auto simp: stailq_rep_def)
  then show ?thesis
    using assms snoc by (simp add: STAILQ_LAST_def STAILQ_EMPTY_def STAILQ_END_def stailq_rep_def)
qed (use assms in \<open>simp add: STAILQ_LAST_def STAILQ_EMPTY_def STAILQ_END_def stailq_rep_def\<close>)

lemma stailq_foreach_ok:
  assumes "stailq_rep (mem s) h xs" and "\<And>s p s'. body s p = returns s' \<Longrightarrow> mem s' = mem s"
  shows "STAILQ_FOREACH mem h body s = foldC body s (map Ptr xs)"
proof -
  have c: "chain (link_val (mem s)) (First_Of h) xs" using assms(1) by (simp add: stailq_rep_def)
  have "walk (\<lambda>s. load_next (mem s)) Null body (first_of xs) s = foldC body s (map Ptr xs)"
    by (rule walk_foldC [where P = "\<lambda>t. mem t = mem s", OF _ _ chain_leads [OF c]]) (auto dest: assms(2))
  then show ?thesis using chain_first [OF c] by (simp add: STAILQ_FOREACH_def)
qed

lemma stailq_init_ok:
  assumes "live m (First_Of h)"
  shows "\<exists>m'. STAILQ_INIT m h = returns m' \<and> stailq_rep m' h [] \<and> spares stailq_rep s_payload {h} {} m m'"
  using assms by (auto simp: STAILQ_INIT_def STAILQ_END_def stailq_rep_def intro!: stailq_spares split: if_splits)

text \<open>Operations on two queues.\<close>

lemma stailq_concat_ok:
  assumes l: "stailq_rep m h xs" "stailq_rep m k ys" and "h \<noteq> k" and d: "set xs \<inter> set ys = {}"
  shows "\<exists>m'. STAILQ_CONCAT m h k = returns m' \<and> stailq_rep m' h (xs @ ys) \<and> stailq_rep m' k [] \<and>
    spares stailq_rep s_payload {h, k} (set xs \<union> set ys) m m'"
proof (cases ys)
  case Nil
  with l have "STAILQ_CONCAT m h k = returns m" by (simp add: stailq_ops)
  with Nil l show ?thesis by (simp add: spares_refl)
next
  case (Cons y zs)
  have t: "live m (tail_link h xs)" using l(1) by (auto simp: stailq_rep_def chain_def)
  have n: "First_Of k \<noteq> tail_link h xs" using tail_link_cases [of h xs] assms(3) by auto
  have "\<exists>m'. STAILQ_CONCAT m h k = returns m' \<and> s_payload m' = s_payload m \<and>
      link_val m' = (link_val m)(tail_link h xs \<mapsto> first_of ys, First_Of k \<mapsto> Null) \<and>
      last_val m' = (last_val m)(h \<mapsto> tail_link h (xs @ ys), k \<mapsto> First_Of k)"
    using l t n assms(3) Cons by (auto simp: stailq_ops)
  then obtain m' where m': "STAILQ_CONCAT m h k = returns m'" "s_payload m' = s_payload m"
      "link_val m' = (link_val m)(tail_link h xs \<mapsto> first_of ys, First_Of k \<mapsto> Null)"
      "last_val m' = (last_val m)(h \<mapsto> tail_link h (xs @ ys), k \<mapsto> First_Of k)" by blast
  have "chain ((link_val m)(tail_link h xs \<mapsto> first_of ys)) (First_Of h) (xs @ ys)"
    using l d stailq_distinct [OF l(1)] stailq_distinct [OF l(2)]
    by (intro chain_join [of _ "First_Of k"]) (auto simp: stailq_rep_def chain_def)
  then have "chain (link_val m') (First_Of h) (xs @ ys)"
    using assms(3) by (subst m'(3), subst chain_other) auto
  then have "stailq_rep m' h (xs @ ys)" "stailq_rep m' k []"
    using m'(3,4) assms(3) by (simp_all add: stailq_rep_def del: chain_append)
  moreover have "spares stailq_rep s_payload {h, k} (set xs \<union> set ys) m m'"
    using m' tail_link_cases [of h xs] by (intro stailq_spares) auto
  ultimately show ?thesis using m'(1) by blast
qed

lemma stailq_swap_ok:
  assumes l: "stailq_rep m h xs" "stailq_rep m k ys" and "h \<noteq> k" and d: "set xs \<inter> set ys = {}"
  shows "\<exists>m'. STAILQ_SWAP m h k = returns m' \<and> stailq_rep m' h ys \<and> stailq_rep m' k xs \<and>
    spares stailq_rep s_payload {h, k} (set xs \<union> set ys) m m'"
proof -
  have "\<exists>m'. STAILQ_SWAP m h k = returns m' \<and> s_payload m' = s_payload m \<and>
      link_val m' = (link_val m)(First_Of h \<mapsto> first_of ys, First_Of k \<mapsto> first_of xs) \<and>
      last_val m' = (last_val m)(h \<mapsto> tail_link h ys, k \<mapsto> tail_link k xs)"
    using l assms(3) by (cases xs; cases ys)
      (auto simp: STAILQ_SWAP_def STAILQ_FIRST_def STAILQ_EMPTY_def STAILQ_END_def stailq_rep_def fun_upd_twist)
  then obtain m' where m': "STAILQ_SWAP m h k = returns m'" "s_payload m' = s_payload m"
      "link_val m' = (link_val m)(First_Of h \<mapsto> first_of ys, First_Of k \<mapsto> first_of xs)"
      "last_val m' = (last_val m)(h \<mapsto> tail_link h ys, k \<mapsto> tail_link k xs)" by blast
  have "chain (link_val m') (First_Of h) ys" "chain (link_val m') (First_Of k) xs"
    using l assms(3) m'(3) chain_move [of "link_val m" k ys "link_val m'" h] chain_move [of "link_val m" h xs "link_val m'" k]
    by (simp_all add: stailq_rep_def)
  then have "stailq_rep m' h ys" "stailq_rep m' k xs" using m'(4) assms(3) by (simp_all add: stailq_rep_def)
  moreover have "spares stailq_rep s_payload {h, k} (set xs \<union> set ys) m m'"
    using m' by (intro stailq_spares) auto
  ultimately show ?thesis using m'(1) by blast
qed

interpretation stailq: fifo_queue stailq_rep s_payload "\<lambda>m h a. STAILQ_INSERT_HEAD m h (Ptr a)"
  "\<lambda>m h e a. STAILQ_INSERT_AFTER m h (Ptr e) (Ptr a)" "\<lambda>m h e. STAILQ_REMOVE m h (Ptr e)"
  "\<lambda>m h a. STAILQ_INSERT_TAIL m h (Ptr a)"
proof unfold_locales
  show "stailq_rep m h xs \<Longrightarrow> stailq_rep m h ys \<Longrightarrow> xs = ys" for m :: "'n stailq_mem" and h xs ys
    by (auto simp: stailq_rep_def dest: chain_unique)
qed (auto intro: stailq_distinct stailq_insert_head_ok stailq_insert_after_ok stailq_insert_tail_ok stailq_remove_ok
    simp del: set_append)

lemma stailq_notes:
  assumes "stailq_rep m h xs"
  shows "STAILQ_FOREACH fst h note_node (m, []) = returns (m, map Ptr xs)"
  using assms stailq_foreach_ok [of fst "(m, [])" h xs note_node]
  by (simp add: note_node_keeps foldC_note_node)

section \<open>Properties\<close>

text \<open>The nodes 1, 2 and 3 behind head 0, an empty head 9, and node 4 allocated.\<close>

definition two_stailqs :: "unit stailq_mem" where
  "two_stailqs = \<lparr>q_heads = [0 \<mapsto> \<lparr>q_first = Ptr 1, q_last = Next_Of 3\<rparr>, 9 \<mapsto> \<lparr>q_first = Null, q_last = First_Of 9\<rparr>],
     q_nodes = [1 \<mapsto> \<lparr>q_next = Ptr 2\<rparr>, 2 \<mapsto> \<lparr>q_next = Ptr 3\<rparr>, 3 \<mapsto> \<lparr>q_next = Null\<rparr>, 4 \<mapsto> \<lparr>q_next = Null\<rparr>]\<rparr>"

lemma two_stailqs_rep: "stailq_rep two_stailqs 0 [1, 2, 3]" "stailq_rep two_stailqs 9 []"
  by (simp_all add: two_stailqs_def stailq_rep_def link_val_def last_val_def)

text \<open>
  C34: A singly-linked tail queue is first in, first out: elements that are added one by one at the
  end of an empty queue are visited in that order, and can be removed in that order until the queue
  is empty again.
\<close>

theorem stailq_first_in_first_out:
  assumes "stailq_rep m h []" and "\<forall>a \<in> set as. s_payload m a \<noteq> None" and "distinct as"
  shows "\<exists>m' m''. foldC (\<lambda>m a. STAILQ_INSERT_TAIL m h (Ptr a)) m as = returns m' \<and>
    STAILQ_FOREACH fst h note_node (m', []) = returns (m', map Ptr as) \<and> STAILQ_LAST m' h = returns (last_of as) \<and>
    foldC (\<lambda>m a. STAILQ_REMOVE m h (Ptr a)) m' as = returns m'' \<and> stailq_rep m'' h []"
  using stailq.first_in_first_out [OF assms] stailq_notes stailq_last_ok by blast

theorem stailq_first_in_first_out_witness:
  "\<exists>m'. foldC (\<lambda>m a. STAILQ_INSERT_TAIL m 9 (Ptr a)) two_stailqs [4] = returns m' \<and>
    STAILQ_FOREACH fst 9 note_node (m', []) = returns (m', [Ptr 4]) \<and> STAILQ_LAST m' 9 = returns (Ptr 4)"
  using stailq_first_in_first_out [OF two_stailqs_rep(2), of "[4]"]
  by (auto simp: two_stailqs_def s_payload_def last_of_def)

text \<open>
  Removing an element from a singly-linked tail queue, wherever it stands, keeps the end of the
  queue right: an element added at the end afterwards is the last one, also when the last or the
  only element was removed.
\<close>

theorem stailq_remove_then_append:
  assumes "stailq_rep m h xs" and "e \<in> set xs" and "s_payload m a \<noteq> None" and "a \<notin> set xs"
  shows "\<exists>m1 m2. STAILQ_REMOVE m h (Ptr e) = returns m1 \<and> STAILQ_INSERT_TAIL m1 h (Ptr a) = returns m2 \<and>
    stailq_rep m2 h (remove1 e xs @ [a]) \<and> STAILQ_LAST m2 h = returns (Ptr a)"
proof -
  obtain m1 where m1: "STAILQ_REMOVE m h (Ptr e) = returns m1" "stailq_rep m1 h (remove1 e xs)"
    "spares stailq_rep s_payload {h} (set xs) m m1"
    using stailq.remove_member [OF assms(1,2)] by blast
  moreover have "s_payload m1 a \<noteq> None" using m1(3) assms(3) by (simp add: spares_def)
  moreover have "a \<notin> set (remove1 e xs)" using assms(4) notin_set_remove1 by fast
  ultimately obtain m2 where "STAILQ_INSERT_TAIL m1 h (Ptr a) = returns m2" "stailq_rep m2 h (remove1 e xs @ [a])"
    using stailq_insert_tail_ok by blast
  with m1(1) stailq_last_ok [OF this(2)] show ?thesis by auto
qed

theorem stailq_remove_then_append_witness:
  "\<exists>m1 m2. STAILQ_REMOVE two_stailqs 0 (Ptr 3) = returns m1 \<and> STAILQ_INSERT_TAIL m1 0 (Ptr 4) = returns m2 \<and>
    stailq_rep m2 0 [1, 2, 4]"
  using stailq_remove_then_append [OF two_stailqs_rep(1), of 3 4] by (auto simp: two_stailqs_def s_payload_def)

end
