(* ===== verification/Queue_Tailq.thy ===== *)
theory Queue_Tailq
  imports Queue_Memory
begin

text \<open>
  The \<open>TAILQ_*\<close> macros of \<open>server/queue.h\<close>: doubly-linked queues whose head also holds the last
  link. The macros that go backwards read a node through the type of a head: an entry has the layout
  of a head, so behind the link of an entry lies its back link, behind the link of a head its last link.
\<close>

section \<open>The macros\<close>

definition TAILQ_END :: ptr where
  "TAILQ_END = Null"

definition TAILQ_FIRST :: "'n tailq_mem \<Rightarrow> nat \<Rightarrow> ptr comp" where
  "TAILQ_FIRST m head = load m (First_Of head)"

definition TAILQ_NEXT :: "'n tailq_mem \<Rightarrow> ptr \<Rightarrow> ptr comp" where
  "TAILQ_NEXT m elm = load_next m elm"

definition TAILQ_EMPTY :: "'n tailq_mem \<Rightarrow> nat \<Rightarrow> bool comp" where
  "TAILQ_EMPTY m head = bindC (load m (First_Of head)) (\<lambda>f. returns (f = TAILQ_END))"

text \<open>\<open>((struct headname *) l)->tqh_last\<close>: the word behind the link.\<close>

definition as_head_last :: "'n tailq_mem \<Rightarrow> link \<Rightarrow> link comp" where
  "as_head_last m l = (case l of
      No_Link \<Rightarrow> fails Null_Deref | First_Of h \<Rightarrow> load_last m h | Next_Of a \<Rightarrow> load_prev m (Ptr a))"

definition TAILQ_LAST :: "'n tailq_mem \<Rightarrow> nat \<Rightarrow> ptr comp" where
  "TAILQ_LAST m head = bindC (load_last m head) (\<lambda>l. bindC (as_head_last m l) (load m))"

definition TAILQ_PREV :: "'n tailq_mem \<Rightarrow> ptr \<Rightarrow> ptr comp" where
  "TAILQ_PREV m elm = bindC (load_prev m elm) (\<lambda>l. bindC (as_head_last m l) (load m))"

definition TAILQ_INIT :: "'n tailq_mem \<Rightarrow> nat \<Rightarrow> 'n tailq_mem comp" where
  "TAILQ_INIT m head =
     bindC (store m (First_Of head) TAILQ_END) (\<lambda>m. store_last m head (First_Of head))"

definition TAILQ_INSERT_HEAD :: "'n tailq_mem \<Rightarrow> nat \<Rightarrow> ptr \<Rightarrow> 'n tailq_mem comp" where
  "TAILQ_INSERT_HEAD m head elm =
     bindC (load m (First_Of head)) (\<lambda>f.
     bindC (store_next m elm f) (\<lambda>m.
     bindC (next_link elm) (\<lambda>l.
     bindC (if f \<noteq> TAILQ_END then bindC (load m (First_Of head)) (\<lambda>f'. store_prev m f' l)
            else store_last m head l) (\<lambda>m.
     bindC (store m (First_Of head) elm) (\<lambda>m.
     store_prev m elm (First_Of head))))))"

definition TAILQ_INSERT_BEFORE :: "'n tailq_mem \<Rightarrow> ptr \<Rightarrow> ptr \<Rightarrow> 'n tailq_mem comp" where
  "TAILQ_INSERT_BEFORE m listelm elm =
     bindC (load_prev m listelm) (\<lambda>p.
     bindC (store_prev m elm p) (\<lambda>m.
     bindC (store_next m elm listelm) (\<lambda>m.
     bindC (load_prev m listelm) (\<lambda>p'.
     bindC (store m p' elm) (\<lambda>m.
     bindC (next_link elm) (\<lambda>l. store_prev m listelm l))))))"

definition TAILQ_INSERT_AFTER :: "'n tailq_mem \<Rightarrow> nat \<Rightarrow> ptr \<Rightarrow> ptr \<Rightarrow> 'n tailq_mem comp" where
  "TAILQ_INSERT_AFTER m head listelm elm =
     bindC (load_next m listelm) (\<lambda>n.
     bindC (store_next m elm n) (\<lambda>m.
     bindC (next_link elm) (\<lambda>l.
     bindC (if n \<noteq> TAILQ_END then bindC (load_next m elm) (\<lambda>n'. store_prev m n' l)
            else store_last m head l) (\<lambda>m.
     bindC (store_next m listelm elm) (\<lambda>m.
     bindC (next_link listelm) (\<lambda>l'. store_prev m elm l'))))))"

definition TAILQ_INSERT_TAIL :: "'n tailq_mem \<Rightarrow> nat \<Rightarrow> ptr \<Rightarrow> 'n tailq_mem comp" where
  "TAILQ_INSERT_TAIL m head elm =
     bindC (store_next m elm TAILQ_END) (\<lambda>m.
     bindC (load_last m head) (\<lambda>l.
     bindC (store_prev m elm l) (\<lambda>m.
     bindC (load_last m head) (\<lambda>l'.
     bindC (store m l' elm) (\<lambda>m.
     bindC (next_link elm) (\<lambda>k. store_last m head k))))))"

definition TAILQ_CONCAT :: "'n tailq_mem \<Rightarrow> nat \<Rightarrow> nat \<Rightarrow> 'n tailq_mem comp" where
  "TAILQ_CONCAT m head1 head2 =
     bindC (TAILQ_EMPTY m head2) (\<lambda>e.
     if e then returns m
     else bindC (load_last m head1) (\<lambda>l.
          bindC (load m (First_Of head2)) (\<lambda>f.
          bindC (store m l f) (\<lambda>m.
          bindC (load m (First_Of head2)) (\<lambda>f'.
          bindC (load_last m head1) (\<lambda>l'.
          bindC (store_prev m f' l') (\<lambda>m.
          bindC (load_last m head2) (\<lambda>l2.
          bindC (store_last m head1 l2) (\<lambda>m. TAILQ_INIT m head2)))))))))"

definition TAILQ_REMOVE :: "'n tailq_mem \<Rightarrow> nat \<Rightarrow> ptr \<Rightarrow> 'n tailq_mem comp" where
  "TAILQ_REMOVE m head elm =
     bindC (load_next m elm) (\<lambda>n.
     bindC (load_prev m elm) (\<lambda>p.
     bindC (if n \<noteq> TAILQ_END then store_prev m n p else store_last m head p) (\<lambda>m.
     bindC (load_prev m elm) (\<lambda>p'.
     bindC (load_next m elm) (\<lambda>n'. store m p' n')))))"

definition TAILQ_REPLACE :: "'n tailq_mem \<Rightarrow> nat \<Rightarrow> ptr \<Rightarrow> ptr \<Rightarrow> 'n tailq_mem comp" where
  "TAILQ_REPLACE m head elm elm2 =
     bindC (load_next m elm) (\<lambda>n.
     bindC (store_next m elm2 n) (\<lambda>m.
     bindC (next_link elm2) (\<lambda>l.
     bindC (if n \<noteq> TAILQ_END then bindC (load_next m elm2) (\<lambda>n'. store_prev m n' l)
            else store_last m head l) (\<lambda>m.
     bindC (load_prev m elm) (\<lambda>p.
     bindC (store_prev m elm2 p) (\<lambda>m.
     bindC (load_prev m elm2) (\<lambda>p'. store m p' elm2)))))))"

definition TAILQ_SWAP :: "'n tailq_mem \<Rightarrow> nat \<Rightarrow> nat \<Rightarrow> 'n tailq_mem comp" where
  "TAILQ_SWAP m head1 head2 =
     bindC (load m (First_Of head1)) (\<lambda>swap_first.
     bindC (load_last m head1) (\<lambda>swap_last.
     bindC (load m (First_Of head2)) (\<lambda>f2.
     bindC (store m (First_Of head1) f2) (\<lambda>m.
     bindC (load_last m head2) (\<lambda>l2.
     bindC (store_last m head1 l2) (\<lambda>m.
     bindC (store m (First_Of head2) swap_first) (\<lambda>m.
     bindC (store_last m head2 swap_last) (\<lambda>m.
     bindC (load m (First_Of head1)) (\<lambda>f.
     bindC (if f \<noteq> TAILQ_END then store_prev m f (First_Of head1) else store_last m head1 (First_Of head1)) (\<lambda>m.
     bindC (load m (First_Of head2)) (\<lambda>f'.
     if f' \<noteq> TAILQ_END then store_prev m f' (First_Of head2) else store_last m head2 (First_Of head2))))))))))))"

definition TAILQ_FOREACH :: "('s \<Rightarrow> 'n tailq_mem) \<Rightarrow> nat \<Rightarrow> ('s \<Rightarrow> ptr \<Rightarrow> 's comp) \<Rightarrow> 's \<Rightarrow> 's comp" where
  "TAILQ_FOREACH mem head body s =
     bindC (load (mem s) (First_Of head)) (\<lambda>f. walk (\<lambda>s. load_next (mem s)) TAILQ_END body f s)"

definition TAILQ_FOREACH_SAFE :: "('s \<Rightarrow> 'n tailq_mem) \<Rightarrow> nat \<Rightarrow> ('s \<Rightarrow> ptr \<Rightarrow> 's comp) \<Rightarrow> 's \<Rightarrow> 's comp" where
  "TAILQ_FOREACH_SAFE mem head body s =
     bindC (load (mem s) (First_Of head)) (\<lambda>f. walk_safe (\<lambda>s. TAILQ_NEXT (mem s)) TAILQ_END body f s)"

definition TAILQ_FOREACH_REVERSE :: "('s \<Rightarrow> 'n tailq_mem) \<Rightarrow> nat \<Rightarrow> ('s \<Rightarrow> ptr \<Rightarrow> 's comp) \<Rightarrow> 's \<Rightarrow> 's comp" where
  "TAILQ_FOREACH_REVERSE mem head body s =
     bindC (TAILQ_LAST (mem s) head) (\<lambda>f. walk (\<lambda>s. TAILQ_PREV (mem s)) TAILQ_END body f s)"

definition TAILQ_FOREACH_REVERSE_SAFE :: "('s \<Rightarrow> 'n tailq_mem) \<Rightarrow> nat \<Rightarrow> ('s \<Rightarrow> ptr \<Rightarrow> 's comp) \<Rightarrow> 's \<Rightarrow> 's comp" where
  "TAILQ_FOREACH_REVERSE_SAFE mem head body s =
     bindC (TAILQ_LAST (mem s) head) (\<lambda>f. walk_safe (\<lambda>s. TAILQ_PREV (mem s)) TAILQ_END body f s)"

section \<open>What they do to a queue\<close>

definition tailq_rep :: "'n tailq_mem \<Rightarrow> nat \<Rightarrow> nat list \<Rightarrow> bool" where
  "tailq_rep m h xs \<longleftrightarrow> linked (link_val m) (back_val m) h xs \<and> last_val m h = Some (tail_link h xs)"

lemma tailq_distinct: "tailq_rep m h xs \<Longrightarrow> distinct xs"
  by (auto simp: tailq_rep_def dest: linked_distinct)

lemma tailq_spares:
  assumes "same_outside H A m m'" and "\<And>h. h \<notin> H \<Longrightarrow> last_val m' h = last_val m h"
  shows "spares tailq_rep payload H A m m'"
  using assms outside_linked [OF assms(1)] by (simp add: spares_def tailq_rep_def same_outside_def)

lemma tailq_inserted:
  assumes "\<exists>m'. c = returns m' \<and> inserted h xs a ys m m' \<and> last_val m' = (last_val m)(h \<mapsto> tail_link h (xs @ a # ys))"
    and "tailq_rep m h (xs @ ys)" and "a \<notin> set (xs @ ys)"
  shows "\<exists>m'. c = returns m' \<and> tailq_rep m' h (xs @ a # ys) \<and> spares tailq_rep payload {h} (insert a (set (xs @ ys))) m m'"
proof -
  from assms(1) obtain m' where m': "c = returns m'" "inserted h xs a ys m m'"
    "last_val m' = (last_val m)(h \<mapsto> tail_link h (xs @ a # ys))" by blast
  then have "tailq_rep m' h (xs @ a # ys)"
    using linked_insert [of "link_val m" "back_val m" h xs ys a] assms(2,3) by (simp add: tailq_rep_def inserted_def)
  moreover have "spares tailq_rep payload {h} (insert a (set (xs @ ys))) m m'"
    using inserted_outside [OF m'(2)] m'(3) by (intro tailq_spares) auto
  ultimately show ?thesis using m'(1) by blast
qed

lemmas tailq_ops = tailq_rep_def linked_def TAILQ_INSERT_HEAD_def TAILQ_INSERT_BEFORE_def TAILQ_INSERT_AFTER_def
  TAILQ_INSERT_TAIL_def TAILQ_REMOVE_def TAILQ_REPLACE_def TAILQ_END_def

lemma tailq_insert_head_ok:
  assumes "tailq_rep m h xs" and "payload m a \<noteq> None" "a \<notin> set xs"
  shows "\<exists>m'. TAILQ_INSERT_HEAD m h (Ptr a) = returns m' \<and> tailq_rep m' h (a # xs) \<and>
    spares tailq_rep payload {h} (insert a (set xs)) m m'"
proof -
  have "\<exists>m'. TAILQ_INSERT_HEAD m h (Ptr a) = returns m' \<and> inserted h [] a xs m m' \<and>
      last_val m' = (last_val m)(h \<mapsto> tail_link h ([] @ a # xs))"
    using assms payload_live [OF assms(2)] by (cases xs) (auto simp: tailq_ops inserted_def)
  from tailq_inserted [OF this] assms show ?thesis by simp
qed

lemma tailq_insert_before_ok:
  assumes "tailq_rep m h (xs @ e # ys)" and "payload m a \<noteq> None" "a \<notin> set (xs @ e # ys)"
  shows "\<exists>m'. TAILQ_INSERT_BEFORE m (Ptr e) (Ptr a) = returns m' \<and> tailq_rep m' h (xs @ a # e # ys) \<and>
    spares tailq_rep payload {h} (insert a (set (xs @ e # ys))) m m'"
proof -
  have "\<exists>m'. TAILQ_INSERT_BEFORE m (Ptr e) (Ptr a) = returns m' \<and> inserted h xs a (e # ys) m m' \<and>
      last_val m' = (last_val m)(h \<mapsto> tail_link h (xs @ a # e # ys))"
    using assms payload_live [OF assms(2)] tailq_distinct [OF assms(1)] by (auto simp: tailq_ops inserted_def)
  from tailq_inserted [OF this] assms show ?thesis by simp
qed

lemma tailq_insert_after_ok:
  assumes "tailq_rep m h (xs @ e # ys)" and "payload m a \<noteq> None" "a \<notin> set (xs @ e # ys)"
  shows "\<exists>m'. TAILQ_INSERT_AFTER m h (Ptr e) (Ptr a) = returns m' \<and> tailq_rep m' h (xs @ e # a # ys) \<and>
    spares tailq_rep payload {h} (insert a (set (xs @ e # ys))) m m'"
proof -
  have "\<exists>m'. TAILQ_INSERT_AFTER m h (Ptr e) (Ptr a) = returns m' \<and> inserted h (xs @ [e]) a ys m m' \<and>
      last_val m' = (last_val m)(h \<mapsto> tail_link h ((xs @ [e]) @ a # ys))"
    using assms payload_live [OF assms(2)] tailq_distinct [OF assms(1)] by (cases ys) (auto simp: tailq_ops inserted_def)
  from tailq_inserted [OF this] assms show ?thesis by simp
qed

lemma tailq_insert_tail_ok:
  assumes "tailq_rep m h xs" and "payload m a \<noteq> None" "a \<notin> set xs"
  shows "\<exists>m'. TAILQ_INSERT_TAIL m h (Ptr a) = returns m' \<and> tailq_rep m' h (xs @ [a]) \<and>
    spares tailq_rep payload {h} (insert a (set xs)) m m'"
proof -
  have "live m (tail_link h xs)" using assms(1) by (auto simp: tailq_rep_def linked_def chain_def)
  then have "\<exists>m'. TAILQ_INSERT_TAIL m h (Ptr a) = returns m' \<and> inserted h xs a [] m m' \<and>
      last_val m' = (last_val m)(h \<mapsto> tail_link h (xs @ [a]))"
    using assms payload_live [OF assms(2)] by (auto simp: tailq_ops inserted_def)
  from tailq_inserted [OF this] assms show ?thesis by simp
qed

lemma tailq_remove_ok:
  assumes "tailq_rep m h (xs @ e # ys)"
  shows "\<exists>m'. TAILQ_REMOVE m h (Ptr e) = returns m' \<and> tailq_rep m' h (xs @ ys) \<and>
    spares tailq_rep payload {h} (set (xs @ e # ys)) m m'"
proof -
  have "\<exists>m'. TAILQ_REMOVE m h (Ptr e) = returns m' \<and> removed h xs ys m m' \<and>
      last_val m' = (last_val m)(h \<mapsto> tail_link h (xs @ ys))"
    using assms tailq_distinct [OF assms] by (cases ys) (auto simp: tailq_ops removed_def)
  then obtain m' where m': "TAILQ_REMOVE m h (Ptr e) = returns m'" "removed h xs ys m m'"
    "last_val m' = (last_val m)(h \<mapsto> tail_link h (xs @ ys))" by blast
  then have "tailq_rep m' h (xs @ ys)"
    using linked_remove [of "link_val m" "back_val m" h xs e ys] assms by (simp add: tailq_rep_def removed_def)
  moreover have "spares tailq_rep payload {h} (set (xs @ e # ys)) m m'"
    using outside_more [OF removed_outside [OF m'(2)], of "set (xs @ e # ys)" "{h}"] m'(3) by (intro tailq_spares) auto
  ultimately show ?thesis using m'(1) by blast
qed

lemma tailq_replace_ok:
  assumes "tailq_rep m h (xs @ e # ys)" and "payload m a \<noteq> None" "a \<notin> set (xs @ e # ys)"
  shows "\<exists>m'. TAILQ_REPLACE m h (Ptr e) (Ptr a) = returns m' \<and> tailq_rep m' h (xs @ a # ys) \<and>
    spares tailq_rep payload {h} (insert a (set (xs @ ys))) m m'"
proof -
  have "\<exists>m'. TAILQ_REPLACE m h (Ptr e) (Ptr a) = returns m' \<and> inserted h xs a ys m m' \<and>
      last_val m' = (last_val m)(h \<mapsto> tail_link h (xs @ a # ys))"
    using assms payload_live [OF assms(2)] tailq_distinct [OF assms(1)] by (cases ys) (auto simp: tailq_ops inserted_def)
  then obtain m' where m': "TAILQ_REPLACE m h (Ptr e) (Ptr a) = returns m'" "inserted h xs a ys m m'"
    "last_val m' = (last_val m)(h \<mapsto> tail_link h (xs @ a # ys))" by blast
  then have "tailq_rep m' h (xs @ a # ys)"
    using linked_replace [of "link_val m" "back_val m" h xs e ys a] assms by (simp add: tailq_rep_def inserted_def)
  moreover have "spares tailq_rep payload {h} (insert a (set (xs @ ys))) m m'"
    using inserted_outside [OF m'(2)] m'(3) by (intro tailq_spares) auto
  ultimately show ?thesis using m'(1) by blast
qed

text \<open>Operations on two queues.\<close>

lemma tailq_concat_ok:
  assumes l: "tailq_rep m h xs" "tailq_rep m k ys" and "h \<noteq> k" and d: "set xs \<inter> set ys = {}"
  shows "\<exists>m'. TAILQ_CONCAT m h k = returns m' \<and> tailq_rep m' h (xs @ ys) \<and> tailq_rep m' k [] \<and>
    spares tailq_rep payload {h, k} (set xs \<union> set ys) m m'"
proof (cases ys)
  case Nil
  with l have "TAILQ_CONCAT m h k = returns m" by (simp add: TAILQ_CONCAT_def TAILQ_EMPTY_def tailq_ops)
  with Nil l show ?thesis by (simp add: spares_refl)
next
  case (Cons y zs)
  have t: "live m (tail_link h xs)" using l(1) by (auto simp: tailq_rep_def linked_def chain_def)
  have n: "First_Of k \<noteq> tail_link h xs" using tail_link_cases [of h xs] assms(3) by auto
  have "\<exists>m'. TAILQ_CONCAT m h k = returns m' \<and> payload m' = payload m \<and>
      link_val m' = (link_val m)(tail_link h xs \<mapsto> first_of ys, First_Of k \<mapsto> Null) \<and>
      back_val m' = point_back ys (tail_link h xs) (back_val m) \<and>
      last_val m' = (last_val m)(h \<mapsto> tail_link h (xs @ ys), k \<mapsto> First_Of k)"
    using l t n assms(3) Cons by (auto simp: TAILQ_CONCAT_def TAILQ_EMPTY_def TAILQ_INIT_def tailq_ops)
  then obtain m' where m': "TAILQ_CONCAT m h k = returns m'" "payload m' = payload m"
      "link_val m' = (link_val m)(tail_link h xs \<mapsto> first_of ys, First_Of k \<mapsto> Null)"
      "back_val m' = point_back ys (tail_link h xs) (back_val m)"
      "last_val m' = (last_val m)(h \<mapsto> tail_link h (xs @ ys), k \<mapsto> First_Of k)" by blast
  have "linked ((link_val m)(tail_link h xs \<mapsto> first_of ys)) (back_val m') h (xs @ ys)"
    using l d tailq_distinct [OF l(1)] tailq_distinct [OF l(2)] unfolding m'(4)
    by (intro linked_join [of _ "First_Of k"]) (auto simp: tailq_rep_def linked_def chain_def)
  then have "linked (link_val m') (back_val m') h (xs @ ys)"
    using assms(3) unfolding linked_def m'(3) by (subst chain_other) auto
  then have "tailq_rep m' h (xs @ ys)" "tailq_rep m' k []"
    using m'(3,5) assms(3) by (simp_all add: tailq_rep_def linked_def)
  moreover have "same_outside {h, k} (set xs \<union> set ys) m m'"
    using m' tail_link_cases [of h xs] by (auto simp: same_outside_def point_back_other)
  then have "spares tailq_rep payload {h, k} (set xs \<union> set ys) m m'" using m'(5) by (intro tailq_spares) auto
  ultimately show ?thesis using m'(1) by blast
qed

lemma tailq_swap_ok:
  assumes l: "tailq_rep m h xs" "tailq_rep m k ys" and "h \<noteq> k" and "set xs \<inter> set ys = {}"
  shows "\<exists>m'. TAILQ_SWAP m h k = returns m' \<and> tailq_rep m' h ys \<and> tailq_rep m' k xs \<and>
    spares tailq_rep payload {h, k} (set xs \<union> set ys) m m'"
proof -
  have "\<exists>m'. TAILQ_SWAP m h k = returns m' \<and> payload m' = payload m \<and>
      link_val m' = (link_val m)(First_Of h \<mapsto> first_of ys, First_Of k \<mapsto> first_of xs) \<and>
      back_val m' = point_back xs (First_Of k) (point_back ys (First_Of h) (back_val m)) \<and>
      last_val m' = (last_val m)(h \<mapsto> tail_link h ys, k \<mapsto> tail_link k xs)"
    using assms by (cases xs; cases ys) (auto simp: TAILQ_SWAP_def TAILQ_END_def tailq_rep_def linked_def fun_upd_twist)
  then obtain m' where m': "TAILQ_SWAP m h k = returns m'" "payload m' = payload m"
      "link_val m' = (link_val m)(First_Of h \<mapsto> first_of ys, First_Of k \<mapsto> first_of xs)"
      "back_val m' = point_back xs (First_Of k) (point_back ys (First_Of h) (back_val m))"
      "last_val m' = (last_val m)(h \<mapsto> tail_link h ys, k \<mapsto> tail_link k xs)" by blast
  note linked_swapped = linked_swap [of "link_val m" "back_val m" h xs k ys]
  have "tailq_rep m' h ys" "tailq_rep m' k xs"
    using linked_swapped assms m'(3-5) by (simp_all add: tailq_rep_def)
  moreover have "same_outside {h, k} (set xs \<union> set ys) m m'"
    using m' by (auto simp: same_outside_def point_back_other)
  then have "spares tailq_rep payload {h, k} (set xs \<union> set ys) m m'" using m'(5) by (intro tailq_spares) auto
  ultimately show ?thesis using m'(1) by blast
qed

interpretation tailq: fifo_queue tailq_rep payload "\<lambda>m h a. TAILQ_INSERT_HEAD m h (Ptr a)"
  "\<lambda>m h e a. TAILQ_INSERT_AFTER m h (Ptr e) (Ptr a)" "\<lambda>m h e. TAILQ_REMOVE m h (Ptr e)"
  "\<lambda>m h a. TAILQ_INSERT_TAIL m h (Ptr a)"
proof unfold_locales
  show "tailq_rep m h xs \<Longrightarrow> tailq_rep m h ys \<Longrightarrow> xs = ys" for m :: "'n tailq_mem" and h xs ys
    by (auto simp: tailq_rep_def linked_def dest: chain_unique)
qed (auto intro: tailq_distinct tailq_insert_head_ok tailq_insert_after_ok tailq_insert_tail_ok tailq_remove_ok
    simp del: set_append)

section \<open>Both directions\<close>

lemma tailq_last_ok:
  assumes "tailq_rep m h xs"
  shows "TAILQ_LAST m h = returns (last_of xs)"
proof (cases xs rule: rev_cases)
  case Nil
  then show ?thesis using assms by (simp add: TAILQ_LAST_def as_head_last_def tailq_rep_def linked_def)
next
  case (snoc zs b)
  then show ?thesis using assms by (simp add: TAILQ_LAST_def as_head_last_def tailq_rep_def linked_def)
qed

lemma tailq_prev_ok:
  assumes "tailq_rep m h (xs @ e # ys)"
  shows "TAILQ_PREV m (Ptr e) = returns (last_of xs)"
proof (cases xs rule: rev_cases)
  case Nil
  have "link_val m (end_of (Next_Of e) ys) = Some Null" using assms by (simp add: tailq_rep_def linked_def chain_def)
  then show ?thesis using Nil assms by (simp add: TAILQ_PREV_def as_head_last_def tailq_rep_def linked_def)
next
  case (snoc zs b)
  then show ?thesis using assms by (simp add: TAILQ_PREV_def as_head_last_def tailq_rep_def linked_def)
qed

lemma tailq_leads_back:
  "tailq_rep m h (xs @ ys) \<Longrightarrow> leads (TAILQ_PREV m) (last_of xs) (map Ptr (rev xs)) Null"
proof (induction xs arbitrary: ys rule: rev_induct)
  case (snoc a xs)
  then have "tailq_rep m h (xs @ a # ys)" by simp
  with snoc.IH tailq_prev_ok [OF this] show ?case by auto
qed simp

lemma tailq_foreach_ok:
  assumes "tailq_rep (mem s) h xs" and "\<And>s p s'. body s p = returns s' \<Longrightarrow> mem s' = mem s"
  shows "TAILQ_FOREACH mem h body s = foldC body s (map Ptr xs)"
proof -
  have c: "chain (link_val (mem s)) (First_Of h) xs" using assms(1) by (simp add: tailq_rep_def linked_def)
  have "walk (\<lambda>s. load_next (mem s)) Null body (first_of xs) s = foldC body s (map Ptr xs)"
    by (rule walk_foldC [where P = "\<lambda>t. mem t = mem s", OF _ _ chain_leads [OF c]]) (auto dest: assms(2))
  then show ?thesis using chain_first [OF c] by (simp add: TAILQ_FOREACH_def TAILQ_END_def)
qed

lemma tailq_foreach_reverse_ok:
  assumes "tailq_rep (mem s) h xs" and "\<And>s p s'. body s p = returns s' \<Longrightarrow> mem s' = mem s"
  shows "TAILQ_FOREACH_REVERSE mem h body s = foldC body s (map Ptr (rev xs))"
proof -
  have l: "leads (TAILQ_PREV (mem s)) (last_of xs) (map Ptr (rev xs)) Null"
    using tailq_leads_back [of "mem s" h xs "[]"] assms(1) by simp
  have "walk (\<lambda>s. TAILQ_PREV (mem s)) Null body (last_of xs) s = foldC body s (map Ptr (rev xs))"
    by (rule walk_foldC [where P = "\<lambda>t. mem t = mem s", OF _ _ l]) (auto dest: assms(2))
  then show ?thesis using tailq_last_ok [OF assms(1)] by (simp add: TAILQ_FOREACH_REVERSE_def TAILQ_END_def)
qed

lemma tailq_notes:
  assumes "tailq_rep m h xs"
  shows "TAILQ_FOREACH fst h note_node (m, []) = returns (m, map Ptr xs)"
    and "TAILQ_FOREACH_REVERSE fst h note_node (m, []) = returns (m, map Ptr (rev xs))"
  using assms tailq_foreach_ok [of fst "(m, [])" h xs note_node] tailq_foreach_reverse_ok [of fst "(m, [])" h xs note_node]
  by (simp_all add: note_node_keeps foldC_note_node)

section \<open>Properties\<close>

text \<open>Head 0 with the nodes 1 and 2, head 9 with the node 3, and the node 4 allocated.\<close>

definition two_tailqs :: "unit tailq_mem" where
  "two_tailqs = \<lparr>q_heads = [0 \<mapsto> \<lparr>q_first = Ptr 1, q_last = Next_Of 2\<rparr>, 9 \<mapsto> \<lparr>q_first = Ptr 3, q_last = Next_Of 3\<rparr>],
     q_nodes = [1 \<mapsto> \<lparr>q_next = Ptr 2, q_prev = First_Of 0\<rparr>, 2 \<mapsto> \<lparr>q_next = Null, q_prev = Next_Of 1\<rparr>,
       3 \<mapsto> \<lparr>q_next = Null, q_prev = First_Of 9\<rparr>, 4 \<mapsto> \<lparr>q_next = Null, q_prev = No_Link\<rparr>]\<rparr>"

lemma two_tailqs_rep: "tailq_rep two_tailqs 0 [1, 2]" "tailq_rep two_tailqs 9 [3]"
  by (simp_all add: two_tailqs_def tailq_rep_def linked_def link_val_def back_val_def last_val_def)

text \<open>
  C35: Joining two tail queues takes no loop and leaves a queue that is right in both directions: the
  forward loop visits the nodes of the first, then those of the second, the backward loop, which
  reads nodes through the type of a head, the same nodes in reverse; the second queue is empty.
\<close>

theorem tailq_concat_both_ways:
  assumes "tailq_rep m h xs" and "tailq_rep m k ys" and "h \<noteq> k" and "set xs \<inter> set ys = {}"
  shows "\<exists>m'. TAILQ_CONCAT m h k = returns m' \<and> tailq_rep m' h (xs @ ys) \<and> tailq_rep m' k [] \<and>
    TAILQ_FOREACH fst h note_node (m', []) = returns (m', map Ptr (xs @ ys)) \<and>
    TAILQ_FOREACH_REVERSE fst h note_node (m', []) = returns (m', map Ptr (rev (xs @ ys)))"
proof -
  obtain m' where m': "TAILQ_CONCAT m h k = returns m'" "tailq_rep m' h (xs @ ys)" "tailq_rep m' k []"
    using tailq_concat_ok [OF assms] by blast
  with tailq_notes [of m' h "xs @ ys"] show ?thesis by blast
qed

theorem tailq_concat_both_ways_witness:
  "\<exists>m'. TAILQ_CONCAT two_tailqs 0 9 = returns m' \<and>
    TAILQ_FOREACH_REVERSE fst 0 note_node (m', []) = returns (m', [Ptr 3, Ptr 2, Ptr 1])"
  using tailq_concat_both_ways [OF two_tailqs_rep] by auto

text \<open>
  Replacing an element of a tail queue, the last one included, puts the new element in its place:
  an element added at the end afterwards follows, and the old element is in the queue no more.
\<close>

theorem tailq_replace_then_append:
  assumes "tailq_rep m h (xs @ e # ys)" and "payload m a \<noteq> None" and "payload m b \<noteq> None"
    and "a \<notin> set (xs @ e # ys)" and "b \<notin> set (xs @ ys)" and "a \<noteq> b"
  shows "\<exists>m1 m2. TAILQ_REPLACE m h (Ptr e) (Ptr a) = returns m1 \<and> TAILQ_INSERT_TAIL m1 h (Ptr b) = returns m2 \<and>
    tailq_rep m2 h (xs @ a # ys @ [b]) \<and> TAILQ_LAST m2 h = returns (Ptr b)"
proof -
  obtain m1 where m1: "TAILQ_REPLACE m h (Ptr e) (Ptr a) = returns m1" "tailq_rep m1 h (xs @ a # ys)"
    "spares tailq_rep payload {h} (insert a (set (xs @ ys))) m m1"
    using tailq_replace_ok [OF assms(1,2,4)] by blast
  moreover have "payload m1 b \<noteq> None" using m1(3) assms(3) by (simp add: spares_def)
  ultimately obtain m2 where "TAILQ_INSERT_TAIL m1 h (Ptr b) = returns m2" "tailq_rep m2 h ((xs @ a # ys) @ [b])"
    using tailq_insert_tail_ok [of m1 h "xs @ a # ys" b] assms(5,6) by auto
  with m1(1) tailq_last_ok [OF this(2)] last_of_simps(2) [of "xs @ a # ys" b] show ?thesis by auto
qed

theorem tailq_replace_then_append_witness:
  "\<exists>m1 m2. TAILQ_REPLACE two_tailqs 0 (Ptr 2) (Ptr 4) = returns m1 \<and>
    TAILQ_INSERT_TAIL m1 0 (Ptr 2) = returns m2 \<and> tailq_rep m2 0 [1, 4, 2]"
proof -
  have "tailq_rep two_tailqs 0 ([1] @ 2 # [])" using two_tailqs_rep(1) by simp
  from tailq_replace_then_append [OF this, of 4 2] show ?thesis by (auto simp: payload_def two_tailqs_def)
qed

end
