(* ===== verification/Queue_Circleq.thy ===== *)
theory Queue_Circleq
  imports Queue_Interface
begin

text \<open>
  The \<open>CIRCLEQ_*\<close> macros of \<open>server/queue.h\<close>: doubly-linked queues that close over their head, whose
  address stands for the end of the queue in both directions. \<open>CIRCLEQ_REPLACE\<close> and
  \<open>CIRCLEQ_FOREACH_REVERSE_SAFE\<close> have no model: neither can be expanded to C that compiles (the
  first uses its head both as a structure and as a pointer, the second gives macros with one
  parameter two arguments).
\<close>

section \<open>Heads and entries\<close>

text \<open>A pointer to an element, which may be the head in disguise.\<close>

datatype elem_ptr = No_Elem | Elem nat | The_Head nat

record circleq_head =
  cqh_first :: elem_ptr
  cqh_last :: elem_ptr

record circleq_entry =
  cqe_next :: elem_ptr
  cqe_prev :: elem_ptr

record 'n circleq_mem =
  c_heads :: "nat \<Rightarrow> circleq_head option"
  c_nodes :: "nat \<Rightarrow> 'n circleq_entry_scheme option"

text \<open>What follows and what precedes an element or a head.\<close>

definition after_of :: "'n circleq_mem \<Rightarrow> elem_ptr \<Rightarrow> elem_ptr option" where
  "after_of m p = (case p of
      No_Elem \<Rightarrow> None
    | Elem a \<Rightarrow> map_option cqe_next (c_nodes m a)
    | The_Head h \<Rightarrow> map_option cqh_first (c_heads m h))"

definition before_of :: "'n circleq_mem \<Rightarrow> elem_ptr \<Rightarrow> elem_ptr option" where
  "before_of m p = (case p of
      No_Elem \<Rightarrow> None
    | Elem a \<Rightarrow> map_option cqe_prev (c_nodes m a)
    | The_Head h \<Rightarrow> map_option cqh_last (c_heads m h))"

definition set_after :: "'n circleq_mem \<Rightarrow> elem_ptr \<Rightarrow> elem_ptr \<Rightarrow> 'n circleq_mem" where
  "set_after m p q = (case p of
      No_Elem \<Rightarrow> m
    | Elem a \<Rightarrow> m\<lparr>c_nodes := (c_nodes m)(a := map_option (cqe_next_update (\<lambda>_. q)) (c_nodes m a))\<rparr>
    | The_Head h \<Rightarrow> m\<lparr>c_heads := (c_heads m)(h := map_option (cqh_first_update (\<lambda>_. q)) (c_heads m h))\<rparr>)"

definition set_before :: "'n circleq_mem \<Rightarrow> elem_ptr \<Rightarrow> elem_ptr \<Rightarrow> 'n circleq_mem" where
  "set_before m p q = (case p of
      No_Elem \<Rightarrow> m
    | Elem a \<Rightarrow> m\<lparr>c_nodes := (c_nodes m)(a := map_option (cqe_prev_update (\<lambda>_. q)) (c_nodes m a))\<rparr>
    | The_Head h \<Rightarrow> m\<lparr>c_heads := (c_heads m)(h := map_option (cqh_last_update (\<lambda>_. q)) (c_heads m h))\<rparr>)"

definition there :: "'n circleq_mem \<Rightarrow> elem_ptr \<Rightarrow> bool" where
  "there m p \<longleftrightarrow> after_of m p \<noteq> None"

text \<open>The fields of a head, and those of an element: a head has no such fields.\<close>

definition no_field :: "elem_ptr \<Rightarrow> fault" where
  "no_field p = (case p of No_Elem \<Rightarrow> Null_Deref | Elem a \<Rightarrow> Use_After_Free | The_Head h \<Rightarrow> Out_Of_Bounds)"

definition get_first :: "'n circleq_mem \<Rightarrow> nat \<Rightarrow> elem_ptr comp" where
  "get_first m h = (case after_of m (The_Head h) of None \<Rightarrow> fails Use_After_Free | Some p \<Rightarrow> returns p)"

definition get_last :: "'n circleq_mem \<Rightarrow> nat \<Rightarrow> elem_ptr comp" where
  "get_last m h = (case before_of m (The_Head h) of None \<Rightarrow> fails Use_After_Free | Some p \<Rightarrow> returns p)"

definition put_first :: "'n circleq_mem \<Rightarrow> nat \<Rightarrow> elem_ptr \<Rightarrow> 'n circleq_mem comp" where
  "put_first m h p = (if there m (The_Head h) then returns (set_after m (The_Head h) p) else fails Use_After_Free)"

definition put_last :: "'n circleq_mem \<Rightarrow> nat \<Rightarrow> elem_ptr \<Rightarrow> 'n circleq_mem comp" where
  "put_last m h p = (if there m (The_Head h) then returns (set_before m (The_Head h) p) else fails Use_After_Free)"

definition get_next :: "'n circleq_mem \<Rightarrow> elem_ptr \<Rightarrow> elem_ptr comp" where
  "get_next m p = (case (p, after_of m p) of (Elem a, Some q) \<Rightarrow> returns q | _ \<Rightarrow> fails (no_field p))"

definition get_prev :: "'n circleq_mem \<Rightarrow> elem_ptr \<Rightarrow> elem_ptr comp" where
  "get_prev m p = (case (p, before_of m p) of (Elem a, Some q) \<Rightarrow> returns q | _ \<Rightarrow> fails (no_field p))"

definition put_next :: "'n circleq_mem \<Rightarrow> elem_ptr \<Rightarrow> elem_ptr \<Rightarrow> 'n circleq_mem comp" where
  "put_next m p q = (case (p, there m p) of (Elem a, True) \<Rightarrow> returns (set_after m p q) | _ \<Rightarrow> fails (no_field p))"

definition put_prev :: "'n circleq_mem \<Rightarrow> elem_ptr \<Rightarrow> elem_ptr \<Rightarrow> 'n circleq_mem comp" where
  "put_prev m p q = (case (p, there m p) of (Elem a, True) \<Rightarrow> returns (set_before m p q) | _ \<Rightarrow> fails (no_field p))"

definition c_payload :: "'n circleq_mem \<Rightarrow> nat \<Rightarrow> 'n option" where
  "c_payload m a = map_option circleq_entry.more (c_nodes m a)"

section \<open>The macros\<close>

definition CIRCLEQ_END :: "nat \<Rightarrow> elem_ptr" where
  "CIRCLEQ_END head = The_Head head"

definition CIRCLEQ_FIRST :: "'n circleq_mem \<Rightarrow> nat \<Rightarrow> elem_ptr comp" where
  "CIRCLEQ_FIRST m head = get_first m head"

definition CIRCLEQ_LAST :: "'n circleq_mem \<Rightarrow> nat \<Rightarrow> elem_ptr comp" where
  "CIRCLEQ_LAST m head = get_last m head"

definition CIRCLEQ_NEXT :: "'n circleq_mem \<Rightarrow> elem_ptr \<Rightarrow> elem_ptr comp" where
  "CIRCLEQ_NEXT m elm = get_next m elm"

definition CIRCLEQ_PREV :: "'n circleq_mem \<Rightarrow> elem_ptr \<Rightarrow> elem_ptr comp" where
  "CIRCLEQ_PREV m elm = get_prev m elm"

definition CIRCLEQ_EMPTY :: "'n circleq_mem \<Rightarrow> nat \<Rightarrow> bool comp" where
  "CIRCLEQ_EMPTY m head = bindC (CIRCLEQ_FIRST m head) (\<lambda>f. returns (f = CIRCLEQ_END head))"

definition CIRCLEQ_INIT :: "'n circleq_mem \<Rightarrow> nat \<Rightarrow> 'n circleq_mem comp" where
  "CIRCLEQ_INIT m head =
     bindC (put_first m head (The_Head head)) (\<lambda>m. put_last m head (The_Head head))"

definition CIRCLEQ_INSERT_HEAD :: "'n circleq_mem \<Rightarrow> nat \<Rightarrow> elem_ptr \<Rightarrow> 'n circleq_mem comp" where
  "CIRCLEQ_INSERT_HEAD m head elm =
     bindC (get_first m head) (\<lambda>f.
     bindC (put_next m elm f) (\<lambda>m.
     bindC (put_prev m elm (The_Head head)) (\<lambda>m.
     bindC (get_last m head) (\<lambda>l.
     bindC (if l = The_Head head then put_last m head elm
            else bindC (get_first m head) (\<lambda>f'. put_prev m f' elm)) (\<lambda>m.
     put_first m head elm)))))"

definition CIRCLEQ_INSERT_BEFORE :: "'n circleq_mem \<Rightarrow> nat \<Rightarrow> elem_ptr \<Rightarrow> elem_ptr \<Rightarrow> 'n circleq_mem comp" where
  "CIRCLEQ_INSERT_BEFORE m head listelm elm =
     bindC (put_next m elm listelm) (\<lambda>m.
     bindC (get_prev m listelm) (\<lambda>p.
     bindC (put_prev m elm p) (\<lambda>m.
     bindC (get_prev m listelm) (\<lambda>p'.
     bindC (if p' = The_Head head then put_first m head elm else put_next m p' elm) (\<lambda>m.
     put_prev m listelm elm)))))"

definition CIRCLEQ_INSERT_AFTER :: "'n circleq_mem \<Rightarrow> nat \<Rightarrow> elem_ptr \<Rightarrow> elem_ptr \<Rightarrow> 'n circleq_mem comp" where
  "CIRCLEQ_INSERT_AFTER m head listelm elm =
     bindC (get_next m listelm) (\<lambda>n.
     bindC (put_next m elm n) (\<lambda>m.
     bindC (put_prev m elm listelm) (\<lambda>m.
     bindC (get_next m listelm) (\<lambda>n'.
     bindC (if n' = The_Head head then put_last m head elm else put_prev m n' elm) (\<lambda>m.
     put_next m listelm elm)))))"

definition CIRCLEQ_INSERT_TAIL :: "'n circleq_mem \<Rightarrow> nat \<Rightarrow> elem_ptr \<Rightarrow> 'n circleq_mem comp" where
  "CIRCLEQ_INSERT_TAIL m head elm =
     bindC (put_next m elm (The_Head head)) (\<lambda>m.
     bindC (get_last m head) (\<lambda>l.
     bindC (put_prev m elm l) (\<lambda>m.
     bindC (get_first m head) (\<lambda>f.
     bindC (if f = The_Head head then put_first m head elm
            else bindC (get_last m head) (\<lambda>l'. put_next m l' elm)) (\<lambda>m.
     put_last m head elm)))))"

definition CIRCLEQ_REMOVE :: "'n circleq_mem \<Rightarrow> nat \<Rightarrow> elem_ptr \<Rightarrow> 'n circleq_mem comp" where
  "CIRCLEQ_REMOVE m head elm =
     bindC (get_next m elm) (\<lambda>n.
     bindC (get_prev m elm) (\<lambda>p.
     bindC (if n = The_Head head then put_last m head p else put_prev m n p) (\<lambda>m.
     bindC (get_prev m elm) (\<lambda>p'.
     bindC (get_next m elm) (\<lambda>n'.
     if p' = The_Head head then put_first m head n' else put_next m p' n')))))"

definition CIRCLEQ_FOREACH :: "('s \<Rightarrow> 'n circleq_mem) \<Rightarrow> nat \<Rightarrow> ('s \<Rightarrow> elem_ptr \<Rightarrow> 's comp) \<Rightarrow> 's \<Rightarrow> 's comp" where
  "CIRCLEQ_FOREACH mem head body s =
     bindC (CIRCLEQ_FIRST (mem s) head) (\<lambda>f. walk (\<lambda>s. CIRCLEQ_NEXT (mem s)) (CIRCLEQ_END head) body f s)"

definition CIRCLEQ_FOREACH_SAFE :: "('s \<Rightarrow> 'n circleq_mem) \<Rightarrow> nat \<Rightarrow> ('s \<Rightarrow> elem_ptr \<Rightarrow> 's comp) \<Rightarrow> 's \<Rightarrow> 's comp" where
  "CIRCLEQ_FOREACH_SAFE mem head body s =
     bindC (CIRCLEQ_FIRST (mem s) head) (\<lambda>f. walk_safe (\<lambda>s. CIRCLEQ_NEXT (mem s)) (CIRCLEQ_END head) body f s)"

definition CIRCLEQ_FOREACH_REVERSE :: "('s \<Rightarrow> 'n circleq_mem) \<Rightarrow> nat \<Rightarrow> ('s \<Rightarrow> elem_ptr \<Rightarrow> 's comp) \<Rightarrow> 's \<Rightarrow> 's comp" where
  "CIRCLEQ_FOREACH_REVERSE mem head body s =
     bindC (CIRCLEQ_LAST (mem s) head) (\<lambda>f. walk (\<lambda>s. CIRCLEQ_PREV (mem s)) (CIRCLEQ_END head) body f s)"

definition CIRCLEQ_LOOP_NEXT :: "'n circleq_mem \<Rightarrow> nat \<Rightarrow> elem_ptr \<Rightarrow> elem_ptr comp" where
  "CIRCLEQ_LOOP_NEXT m head elm =
     bindC (get_next m elm) (\<lambda>n. if n = The_Head head then get_first m head else get_next m elm)"

definition CIRCLEQ_LOOP_PREV :: "'n circleq_mem \<Rightarrow> nat \<Rightarrow> elem_ptr \<Rightarrow> elem_ptr comp" where
  "CIRCLEQ_LOOP_PREV m head elm =
     bindC (get_prev m elm) (\<lambda>p. if p = The_Head head then get_last m head else get_prev m elm)"

section \<open>How the accesses compute\<close>

lemmas c_mem_defs = after_of_def before_of_def set_after_def set_before_def there_def c_payload_def

lemma there_set [simp]: "there (set_after m p q) x = there m x" "there (set_before m p q) x = there m x"
  by (auto simp: c_mem_defs option.map_comp comp_def split: elem_ptr.splits)

lemma after_set [simp]:
  "there m p \<Longrightarrow> after_of (set_after m p q) = (after_of m)(p \<mapsto> q)" "after_of (set_before m p q) = after_of m"
  by (auto simp: c_mem_defs fun_eq_iff option.map_comp comp_def split: elem_ptr.splits)

lemma before_set [simp]:
  "there m p \<Longrightarrow> before_of (set_before m p q) = (before_of m)(p \<mapsto> q)" "before_of (set_after m p q) = before_of m"
  by (auto simp: c_mem_defs fun_eq_iff option.map_comp comp_def split: elem_ptr.splits)

lemma c_payload_set [simp]:
  "c_payload (set_after m p q) = c_payload m" "c_payload (set_before m p q) = c_payload m"
  by (auto simp: c_mem_defs fun_eq_iff option.map_comp comp_def split: elem_ptr.splits)

lemma thereI [simp]: "after_of m p = Some q \<Longrightarrow> there m p" "before_of m p = Some q \<Longrightarrow> there m p"
  by (auto simp: c_mem_defs split: elem_ptr.splits)

lemma c_payload_there: "c_payload m a \<noteq> None \<Longrightarrow> there m (Elem a)"
  by (auto simp: c_mem_defs)

lemma c_access [simp]:
  "after_of m (The_Head h) = Some p \<Longrightarrow> get_first m h = returns p"
  "before_of m (The_Head h) = Some p \<Longrightarrow> get_last m h = returns p"
  "after_of m (Elem a) = Some p \<Longrightarrow> get_next m (Elem a) = returns p"
  "before_of m (Elem a) = Some p \<Longrightarrow> get_prev m (Elem a) = returns p"
  "there m (The_Head h) \<Longrightarrow> put_first m h p = returns (set_after m (The_Head h) p)"
  "there m (The_Head h) \<Longrightarrow> put_last m h p = returns (set_before m (The_Head h) p)"
  "there m (Elem a) \<Longrightarrow> put_next m (Elem a) p = returns (set_after m (Elem a) p)"
  "there m (Elem a) \<Longrightarrow> put_prev m (Elem a) p = returns (set_before m (Elem a) p)"
  by (simp_all add: get_first_def get_last_def get_next_def get_prev_def put_first_def put_last_def put_next_def put_prev_def)

section \<open>Rings\<close>

text \<open>The last position of \<open>xs\<close> behind \<open>p\<close>, the first before \<open>q\<close>.\<close>

definition last_pos :: "elem_ptr \<Rightarrow> nat list \<Rightarrow> elem_ptr" where
  "last_pos p xs = (if xs = [] then p else Elem (last xs))"

definition first_pos :: "nat list \<Rightarrow> elem_ptr \<Rightarrow> elem_ptr" where
  "first_pos xs q = (case xs of [] \<Rightarrow> q | a # _ \<Rightarrow> Elem a)"

lemma pos_simps [simp]:
  "last_pos p [] = p" "last_pos p (xs @ [a]) = Elem a" "last_pos p (a # xs) = last_pos (Elem a) xs"
  "first_pos [] q = q" "first_pos (a # xs) q = Elem a"
  by (simp_all add: last_pos_def first_pos_def)

text \<open>\<open>seg\<close>: from \<open>p\<close> on, the elements \<open>xs\<close> are linked both ways; \<open>ring\<close>: and then comes \<open>q\<close>.\<close>

fun seg :: "(elem_ptr \<Rightarrow> elem_ptr option) \<Rightarrow> (elem_ptr \<Rightarrow> elem_ptr option) \<Rightarrow> elem_ptr \<Rightarrow> nat list \<Rightarrow> bool" where
  "seg nx pv p [] \<longleftrightarrow> True"
| "seg nx pv p (a # as) \<longleftrightarrow> nx p = Some (Elem a) \<and> pv (Elem a) = Some p \<and> seg nx pv (Elem a) as"

definition ring ::
  "(elem_ptr \<Rightarrow> elem_ptr option) \<Rightarrow> (elem_ptr \<Rightarrow> elem_ptr option) \<Rightarrow> elem_ptr \<Rightarrow> nat list \<Rightarrow> elem_ptr \<Rightarrow> bool" where
  "ring nx pv p xs q \<longleftrightarrow> seg nx pv p xs \<and> nx (last_pos p xs) = Some q \<and> pv q = Some (last_pos p xs)"

lemma ring_simps [simp]:
  "ring nx pv p [] q \<longleftrightarrow> nx p = Some q \<and> pv q = Some p"
  "ring nx pv p (a # as) q \<longleftrightarrow> nx p = Some (Elem a) \<and> pv (Elem a) = Some p \<and> ring nx pv (Elem a) as q"
  by (auto simp: ring_def)

lemma ring_append [simp]: "ring nx pv p (xs @ ys) q \<longleftrightarrow> seg nx pv p xs \<and> ring nx pv (last_pos p xs) ys q"
  by (induction xs arbitrary: p) simp_all

lemma last_pos_in: "xs = [] \<and> last_pos p xs = p \<or> last_pos p xs \<in> Elem ` set xs"
  by (simp add: last_pos_def)

lemma Elem_image [simp]: "Elem a \<in> Elem ` A \<longleftrightarrow> a \<in> A" "The_Head h \<notin> Elem ` A"
  by auto

lemma seg_cong:
  "(\<And>x. x = p \<or> x \<in> Elem ` set xs \<Longrightarrow> nx x = nx' x) \<Longrightarrow> (\<And>x. x \<in> Elem ` set xs \<Longrightarrow> pv x = pv' x) \<Longrightarrow>
   seg nx pv p xs = seg nx' pv' p xs"
  by (induction xs arbitrary: p) auto

lemma ring_cong:
  assumes "\<And>x. x = p \<or> x \<in> Elem ` set xs \<Longrightarrow> nx x = nx' x" and "\<And>x. x = q \<or> x \<in> Elem ` set xs \<Longrightarrow> pv x = pv' x"
  shows "ring nx pv p xs q = ring nx' pv' p xs q"
proof -
  have "seg nx pv p xs = seg nx' pv' p xs" using assms by (intro seg_cong) auto
  moreover have "nx (last_pos p xs) = nx' (last_pos p xs)" using assms(1) last_pos_in [of xs p] by metis
  ultimately show ?thesis using assms(2) by (simp add: ring_def)
qed

text \<open>Changing what follows the last element of a segment keeps the segment.\<close>

lemma seg_end:
  "distinct xs \<Longrightarrow> p \<notin> Elem ` set xs \<Longrightarrow> q \<notin> Elem ` set xs \<Longrightarrow>
   seg (nx(last_pos p xs := v)) (pv(q := w)) p xs = seg nx pv p xs"
proof (induction xs arbitrary: p)
  case (Cons a as)
  have n: "last_pos (Elem a) as \<noteq> p" using last_pos_in [of as "Elem a"] Cons.prems by auto
  have "seg (nx(last_pos (Elem a) as := v)) (pv(q := w)) (Elem a) as = seg nx pv (Elem a) as"
    using Cons.prems by (intro Cons.IH) auto
  moreover have "q \<noteq> Elem a" using Cons.prems by auto
  ultimately show ?case using n by (simp del: fun_upd_apply add: fun_upd_other)
qed simp

lemma seg_other:
  "x \<noteq> p \<Longrightarrow> x \<notin> Elem ` set xs \<Longrightarrow> y \<notin> Elem ` set xs \<Longrightarrow> seg (nx(x := v)) (pv(y := w)) p xs = seg nx pv p xs"
  by (rule seg_cong) auto

lemma ring_unique: "ring nx pv p xs (The_Head h) \<Longrightarrow> ring nx pv p ys (The_Head h) \<Longrightarrow> xs = ys"
proof (induction xs arbitrary: p ys)
  case Nil
  then show ?case by (cases ys) auto
next
  case (Cons a xs)
  then show ?case by (cases ys) auto
qed

lemma ring_distinct: "ring nx pv p xs (The_Head h) \<Longrightarrow> distinct xs"
proof (induction xs arbitrary: p)
  case (Cons a xs)
  have "a \<notin> set xs"
  proof
    assume "a \<in> set xs"
    then obtain ys zs where xs: "xs = ys @ a # zs" by (meson split_list)
    then have "ring nx pv (Elem a) zs (The_Head h)" "ring nx pv (Elem a) (ys @ a # zs) (The_Head h)"
      using Cons.prems by auto
    then have "zs = ys @ a # zs" by (rule ring_unique)
    then show False by simp
  qed
  moreover have "distinct xs" using Cons.prems Cons.IH [of "Elem a"] by simp
  ultimately show ?case by simp
qed simp

text \<open>Joining two parts of a ring, and putting an element between them.\<close>

lemma ring_join:
  assumes "ring nx pv r ys (The_Head h)" and "seg nx pv (The_Head h) xs" and "distinct (xs @ ys)"
  shows "ring (nx(last_pos (The_Head h) xs \<mapsto> first_pos ys (The_Head h))) (pv(first_pos ys (The_Head h) \<mapsto> last_pos (The_Head h) xs))
    (The_Head h) (xs @ ys) (The_Head h)"
proof -
  let ?p = "last_pos (The_Head h) xs" and ?q = "first_pos ys (The_Head h)"
  have "seg (nx(?p \<mapsto> ?q)) (pv(?q \<mapsto> ?p)) (The_Head h) xs"
    using assms(2,3) by (subst seg_end) (cases ys, auto)+
  moreover have "ring (nx(?p \<mapsto> ?q)) (pv(?q \<mapsto> ?p)) ?p ys (The_Head h)"
  proof (cases ys)
    case (Cons y zs)
    have "?p \<notin> Elem ` set (y # zs)" using last_pos_in [of xs "The_Head h"] assms(3) Cons by auto
    then have "ring (nx(?p \<mapsto> ?q)) (pv(?q \<mapsto> ?p)) (Elem y) zs (The_Head h) = ring nx pv (Elem y) zs (The_Head h)"
      using assms(3) Cons by (intro ring_cong) auto
    with assms(1) Cons show ?thesis by simp
  qed simp
  ultimately show ?thesis by simp
qed

lemma ring_insert:
  assumes l: "ring nx pv (The_Head h) (xs @ ys) (The_Head h)" and a: "a \<notin> set (xs @ ys)"
  shows "ring (nx(Elem a \<mapsto> first_pos ys (The_Head h), last_pos (The_Head h) xs \<mapsto> Elem a))
    (pv(first_pos ys (The_Head h) \<mapsto> Elem a, Elem a \<mapsto> last_pos (The_Head h) xs)) (The_Head h) (xs @ a # ys) (The_Head h)"
proof -
  let ?p = "last_pos (The_Head h) xs" and ?q = "first_pos ys (The_Head h)"
  have d: "distinct (xs @ ys)" using l by (rule ring_distinct)
  let ?nx = "nx(Elem a \<mapsto> ?q)" and ?pv = "pv(?q \<mapsto> Elem a)"
  have "ring ?nx ?pv (Elem a) ys (The_Head h)"
  proof (cases ys)
    case (Cons y zs)
    have "ring ?nx ?pv (Elem y) zs (The_Head h) = ring nx pv (Elem y) zs (The_Head h)"
      using d a Cons by (intro ring_cong) auto
    with l Cons show ?thesis by simp
  qed simp
  moreover have "seg ?nx ?pv (The_Head h) xs"
    using l d a by (subst seg_other) (cases ys, auto)+
  moreover have "ring (?nx(?p \<mapsto> Elem a)) (?pv(Elem a \<mapsto> ?p)) (Elem a) ys (The_Head h) = ring ?nx ?pv (Elem a) ys (The_Head h)"
    using d a last_pos_in [of xs "The_Head h"] by (intro ring_cong) auto
  moreover have "seg (?nx(?p \<mapsto> Elem a)) (?pv(Elem a \<mapsto> ?p)) (The_Head h) xs = seg ?nx ?pv (The_Head h) xs"
    using d a by (intro seg_end) auto
  ultimately show ?thesis by simp
qed

section \<open>What the macros do to a ring\<close>

definition circleq_rep :: "'n circleq_mem \<Rightarrow> nat \<Rightarrow> nat list \<Rightarrow> bool" where
  "circleq_rep m h xs \<longleftrightarrow> ring (after_of m) (before_of m) (The_Head h) xs (The_Head h)"

lemma circleq_distinct: "circleq_rep m h xs \<Longrightarrow> distinct xs"
  by (auto simp: circleq_rep_def dest: ring_distinct)

lemma circleq_spares:
  assumes "\<And>x. x \<notin> The_Head ` H \<Longrightarrow> x \<notin> Elem ` A \<Longrightarrow> after_of m' x = after_of m x"
    and "\<And>x. x \<notin> The_Head ` H \<Longrightarrow> x \<notin> Elem ` A \<Longrightarrow> before_of m' x = before_of m x" and "c_payload m' = c_payload m"
  shows "spares circleq_rep c_payload H A m m'"
proof -
  have "circleq_rep m' h ys" if "h \<notin> H" "set ys \<inter> A = {}" "circleq_rep m h ys" for h ys
  proof -
    have "after_of m' x = after_of m x \<and> before_of m' x = before_of m x"
      if "x = The_Head h \<or> x \<in> Elem ` set ys" for x
    proof -
      have "x \<notin> The_Head ` H" using that \<open>h \<notin> H\<close> by auto
      moreover have "x \<notin> Elem ` A" using that \<open>set ys \<inter> A = {}\<close> by auto
      ultimately show ?thesis using assms(1,2) by simp
    qed
    then have "ring (after_of m') (before_of m') (The_Head h) ys (The_Head h) =
        ring (after_of m) (before_of m) (The_Head h) ys (The_Head h)"
      by (intro ring_cong) metis+
    with that(3) show ?thesis by (simp add: circleq_rep_def)
  qed
  with assms(3) show ?thesis by (auto simp: spares_def)
qed

abbreviation left_pos :: "nat \<Rightarrow> nat list \<Rightarrow> elem_ptr" where
  "left_pos h xs \<equiv> last_pos (The_Head h) xs"

abbreviation right_pos :: "nat \<Rightarrow> nat list \<Rightarrow> elem_ptr" where
  "right_pos h ys \<equiv> first_pos ys (The_Head h)"

definition ring_put :: "nat \<Rightarrow> nat list \<Rightarrow> nat \<Rightarrow> nat list \<Rightarrow> 'n circleq_mem \<Rightarrow> 'n circleq_mem \<Rightarrow> bool" where
  "ring_put h xs a ys m m' \<longleftrightarrow> c_payload m' = c_payload m \<and>
     after_of m' = (after_of m)(Elem a \<mapsto> right_pos h ys, left_pos h xs \<mapsto> Elem a) \<and>
     before_of m' = (before_of m)(right_pos h ys \<mapsto> Elem a, Elem a \<mapsto> left_pos h xs)"

definition ring_cut :: "nat \<Rightarrow> nat list \<Rightarrow> nat list \<Rightarrow> 'n circleq_mem \<Rightarrow> 'n circleq_mem \<Rightarrow> bool" where
  "ring_cut h xs ys m m' \<longleftrightarrow> c_payload m' = c_payload m \<and>
     after_of m' = (after_of m)(left_pos h xs \<mapsto> right_pos h ys) \<and>
     before_of m' = (before_of m)(right_pos h ys \<mapsto> left_pos h xs)"

lemma left_pos_cases: "left_pos h xs = The_Head h \<or> left_pos h xs \<in> Elem ` set xs"
  using last_pos_in [of xs "The_Head h"] by auto

lemma right_pos_cases: "right_pos h xs = The_Head h \<or> right_pos h xs \<in> Elem ` set xs"
  by (cases xs) auto

lemma circleq_inserted:
  assumes "\<exists>m'. c = returns m' \<and> ring_put h xs a ys m m'" and "circleq_rep m h (xs @ ys)" and "a \<notin> set (xs @ ys)"
  shows "\<exists>m'. c = returns m' \<and> circleq_rep m' h (xs @ a # ys) \<and> spares circleq_rep c_payload {h} (insert a (set (xs @ ys))) m m'"
proof -
  from assms(1) obtain m' where m': "c = returns m'" "ring_put h xs a ys m m'" by blast
  then have "circleq_rep m' h (xs @ a # ys)"
    using ring_insert [of "after_of m" "before_of m" h xs ys a] assms(2,3) by (simp add: circleq_rep_def ring_put_def)
  moreover have "spares circleq_rep c_payload {h} (insert a (set (xs @ ys))) m m'"
    using m'(2) left_pos_cases [of h xs] right_pos_cases [of ys h] by (intro circleq_spares) (auto simp: ring_put_def)
  ultimately show ?thesis using m'(1) by blast
qed

lemma circleq_removed:
  assumes "\<exists>m'. c = returns m' \<and> ring_cut h xs ys m m'" and "circleq_rep m h (xs @ e # ys)"
  shows "\<exists>m'. c = returns m' \<and> circleq_rep m' h (xs @ ys) \<and> spares circleq_rep c_payload {h} (set (xs @ e # ys)) m m'"
proof -
  from assms(1) obtain m' where m': "c = returns m'" "ring_cut h xs ys m m'" by blast
  then have "circleq_rep m' h (xs @ ys)"
    using ring_join [of "after_of m" "before_of m" "Elem e" ys h xs] assms(2) circleq_distinct [OF assms(2)]
    by (simp add: circleq_rep_def ring_cut_def)
  moreover have "spares circleq_rep c_payload {h} (set (xs @ e # ys)) m m'"
    using m'(2) left_pos_cases [of h xs] right_pos_cases [of ys h] by (intro circleq_spares) (auto simp: ring_cut_def)
  ultimately show ?thesis using m'(1) by blast
qed

lemmas circleq_ops = circleq_rep_def ring_put_def ring_cut_def CIRCLEQ_INSERT_HEAD_def CIRCLEQ_INSERT_BEFORE_def
  CIRCLEQ_INSERT_AFTER_def CIRCLEQ_INSERT_TAIL_def CIRCLEQ_REMOVE_def

lemma circleq_insert_head_ok:
  assumes "circleq_rep m h xs" and "c_payload m a \<noteq> None" "a \<notin> set xs"
  shows "\<exists>m'. CIRCLEQ_INSERT_HEAD m h (Elem a) = returns m' \<and> circleq_rep m' h (a # xs) \<and>
    spares circleq_rep c_payload {h} (insert a (set xs)) m m'"
proof -
  have "\<exists>m'. CIRCLEQ_INSERT_HEAD m h (Elem a) = returns m' \<and> ring_put h [] a xs m m'"
  proof (cases xs)
    case Nil
    with assms c_payload_there [OF assms(2)] show ?thesis by (auto simp: circleq_ops fun_upd_twist)
  next
    case (Cons x ys)
    have "before_of m (The_Head h) = Some (Elem (last xs))" using assms(1) Cons by (auto simp: circleq_rep_def ring_def last_pos_def)
    with Cons assms c_payload_there [OF assms(2)] show ?thesis by (auto simp: circleq_ops fun_upd_twist)
  qed
  from circleq_inserted [OF this] assms show ?thesis by simp
qed

lemma circleq_insert_tail_ok:
  assumes "circleq_rep m h xs" and "c_payload m a \<noteq> None" "a \<notin> set xs"
  shows "\<exists>m'. CIRCLEQ_INSERT_TAIL m h (Elem a) = returns m' \<and> circleq_rep m' h (xs @ [a]) \<and>
    spares circleq_rep c_payload {h} (insert a (set xs)) m m'"
proof -
  have "\<exists>m'. CIRCLEQ_INSERT_TAIL m h (Elem a) = returns m' \<and> ring_put h xs a [] m m'"
  proof (cases xs rule: rev_cases)
    case Nil
    with assms c_payload_there [OF assms(2)] show ?thesis by (auto simp: circleq_ops fun_upd_twist)
  next
    case (snoc ys x)
    obtain z zs where xs: "xs = z # zs" using snoc by (meson append_is_Nil_conv neq_Nil_conv)
    have "after_of m (The_Head h) = Some (Elem z)" using assms(1) xs by (auto simp: circleq_rep_def)
    with snoc assms c_payload_there [OF assms(2)] show ?thesis by (auto simp: circleq_ops fun_upd_twist)
  qed
  from circleq_inserted [OF this] assms show ?thesis by simp
qed

lemma circleq_insert_before_ok:
  assumes "circleq_rep m h (xs @ e # ys)" and "c_payload m a \<noteq> None" "a \<notin> set (xs @ e # ys)"
  shows "\<exists>m'. CIRCLEQ_INSERT_BEFORE m h (Elem e) (Elem a) = returns m' \<and> circleq_rep m' h (xs @ a # e # ys) \<and>
    spares circleq_rep c_payload {h} (insert a (set (xs @ e # ys))) m m'"
proof -
  have "\<exists>m'. CIRCLEQ_INSERT_BEFORE m h (Elem e) (Elem a) = returns m' \<and> ring_put h xs a (e # ys) m m'"
    using assms c_payload_there [OF assms(2)] by (cases xs rule: rev_cases) (auto simp: circleq_ops fun_upd_twist)
  from circleq_inserted [OF this] assms show ?thesis by simp
qed

lemma circleq_insert_after_ok:
  assumes "circleq_rep m h (xs @ e # ys)" and "c_payload m a \<noteq> None" "a \<notin> set (xs @ e # ys)"
  shows "\<exists>m'. CIRCLEQ_INSERT_AFTER m h (Elem e) (Elem a) = returns m' \<and> circleq_rep m' h (xs @ e # a # ys) \<and>
    spares circleq_rep c_payload {h} (insert a (set (xs @ e # ys))) m m'"
proof -
  have "\<exists>m'. CIRCLEQ_INSERT_AFTER m h (Elem e) (Elem a) = returns m' \<and> ring_put h (xs @ [e]) a ys m m'"
    using assms c_payload_there [OF assms(2)] by (cases ys) (auto simp: circleq_ops fun_upd_twist)
  from circleq_inserted [OF this] assms show ?thesis by simp
qed

lemma circleq_remove_ok:
  assumes "circleq_rep m h (xs @ e # ys)"
  shows "\<exists>m'. CIRCLEQ_REMOVE m h (Elem e) = returns m' \<and> circleq_rep m' h (xs @ ys) \<and>
    spares circleq_rep c_payload {h} (set (xs @ e # ys)) m m'"
proof -
  have "\<exists>m'. CIRCLEQ_REMOVE m h (Elem e) = returns m' \<and> ring_cut h xs ys m m'"
    using assms circleq_distinct [OF assms] by (cases xs rule: rev_cases; cases ys) (auto simp: circleq_ops)
  from circleq_removed [OF this assms] show ?thesis .
qed

interpretation circleq: fifo_queue circleq_rep c_payload "\<lambda>m h a. CIRCLEQ_INSERT_HEAD m h (Elem a)"
  "\<lambda>m h e a. CIRCLEQ_INSERT_AFTER m h (Elem e) (Elem a)" "\<lambda>m h e. CIRCLEQ_REMOVE m h (Elem e)"
  "\<lambda>m h a. CIRCLEQ_INSERT_TAIL m h (Elem a)"
proof unfold_locales
  show "circleq_rep m h xs \<Longrightarrow> circleq_rep m h ys \<Longrightarrow> xs = ys" for m :: "'n circleq_mem" and h xs ys
    by (auto simp: circleq_rep_def dest: ring_unique)
qed (auto intro: circleq_distinct circleq_insert_head_ok circleq_insert_after_ok circleq_insert_tail_ok circleq_remove_ok
    simp del: set_append)

section \<open>The loops\<close>

lemma ring_leads:
  "ring (after_of m) (before_of m) p ys (The_Head h) \<Longrightarrow>
   leads (get_next m) (right_pos h ys) (map Elem ys) (The_Head h)"
proof (induction ys arbitrary: p)
  case (Cons a ys)
  then have "leads (get_next m) (right_pos h ys) (map Elem ys) (The_Head h)" by auto
  moreover have "after_of m (Elem a) = Some (right_pos h ys)" using Cons.prems by (cases ys) auto
  ultimately show ?case by auto
qed simp

lemma ring_leads_back:
  "circleq_rep m h (xs @ ys) \<Longrightarrow> leads (get_prev m) (left_pos h xs) (map Elem (rev xs)) (The_Head h)"
proof (induction xs arbitrary: ys rule: rev_induct)
  case (snoc a xs)
  then have "circleq_rep m h (xs @ a # ys)" by simp
  with snoc.IH [OF this] show ?case by (auto simp: circleq_rep_def)
qed simp

lemma circleq_foreach_ok:
  assumes "circleq_rep (mem s) h xs" and "\<And>s p s'. body s p = returns s' \<Longrightarrow> mem s' = mem s"
  shows "CIRCLEQ_FOREACH mem h body s = foldC body s (map Elem xs)"
proof -
  have r: "ring (after_of (mem s)) (before_of (mem s)) (The_Head h) xs (The_Head h)"
    using assms(1) by (simp add: circleq_rep_def)
  have "walk (\<lambda>s. get_next (mem s)) (The_Head h) body (right_pos h xs) s = foldC body s (map Elem xs)"
    by (rule walk_foldC [where P = "\<lambda>t. mem t = mem s", OF _ _ ring_leads [OF r]]) (auto dest: assms(2))
  moreover have "get_first (mem s) h = returns (right_pos h xs)" using r by (cases xs) auto
  ultimately show ?thesis
    by (simp add: CIRCLEQ_FOREACH_def CIRCLEQ_FIRST_def CIRCLEQ_NEXT_def [abs_def] CIRCLEQ_END_def)
qed

lemma circleq_foreach_reverse_ok:
  assumes "circleq_rep (mem s) h xs" and "\<And>s p s'. body s p = returns s' \<Longrightarrow> mem s' = mem s"
  shows "CIRCLEQ_FOREACH_REVERSE mem h body s = foldC body s (map Elem (rev xs))"
proof -
  have l: "leads (get_prev (mem s)) (left_pos h xs) (map Elem (rev xs)) (The_Head h)"
    using ring_leads_back [of "mem s" h xs "[]"] assms(1) by simp
  have "walk (\<lambda>s. get_prev (mem s)) (The_Head h) body (left_pos h xs) s = foldC body s (map Elem (rev xs))"
    by (rule walk_foldC [where P = "\<lambda>t. mem t = mem s", OF _ _ l]) (auto dest: assms(2))
  moreover have "get_last (mem s) h = returns (left_pos h xs)" using assms(1) by (simp add: circleq_rep_def ring_def)
  ultimately show ?thesis
    by (simp add: CIRCLEQ_FOREACH_REVERSE_def CIRCLEQ_LAST_def CIRCLEQ_PREV_def [abs_def] CIRCLEQ_END_def)
qed

lemma circleq_notes:
  assumes "circleq_rep m h xs"
  shows "CIRCLEQ_FOREACH fst h note_node (m, []) = returns (m, map Elem xs)"
    and "CIRCLEQ_FOREACH_REVERSE fst h note_node (m, []) = returns (m, map Elem (rev xs))"
  using assms circleq_foreach_ok [of fst "(m, [])" h xs note_node] circleq_foreach_reverse_ok [of fst "(m, [])" h xs note_node]
  by (simp_all add: note_node_keeps foldC_note_node)

lemma loop_next_ok:
  assumes "circleq_rep m h (xs @ e # ys)"
  shows "CIRCLEQ_LOOP_NEXT m h (Elem e) = returns (Elem (hd (ys @ xs @ [e])))"
proof (cases ys)
  case Nil
  have "after_of m (The_Head h) = Some (Elem (hd (xs @ [e])))" using assms by (cases xs) (auto simp: circleq_rep_def)
  with Nil assms show ?thesis by (simp add: CIRCLEQ_LOOP_NEXT_def circleq_rep_def)
next
  case (Cons y zs)
  with assms show ?thesis by (simp add: CIRCLEQ_LOOP_NEXT_def circleq_rep_def)
qed

lemma loop_prev_ok:
  assumes "circleq_rep m h (xs @ e # ys)"
  shows "CIRCLEQ_LOOP_PREV m h (Elem e) = returns (Elem (last (e # ys @ xs)))"
proof (cases xs rule: rev_cases)
  case Nil
  have "before_of m (The_Head h) = Some (Elem (last (e # ys)))"
    using assms by (auto simp: circleq_rep_def ring_def last_pos_def)
  with Nil assms show ?thesis by (simp add: CIRCLEQ_LOOP_PREV_def circleq_rep_def)
next
  case (snoc zs x)
  with assms show ?thesis by (simp add: CIRCLEQ_LOOP_PREV_def circleq_rep_def)
qed

section \<open>Properties\<close>

text \<open>The nodes 1, 2 and 3 in the ring of head 0.\<close>

definition one_circleq :: "unit circleq_mem" where
  "one_circleq = \<lparr>c_heads = [0 \<mapsto> \<lparr>cqh_first = Elem 1, cqh_last = Elem 3\<rparr>],
     c_nodes = [1 \<mapsto> \<lparr>cqe_next = Elem 2, cqe_prev = The_Head 0\<rparr>, 2 \<mapsto> \<lparr>cqe_next = Elem 3, cqe_prev = Elem 1\<rparr>,
       3 \<mapsto> \<lparr>cqe_next = The_Head 0, cqe_prev = Elem 2\<rparr>]\<rparr>"

lemma one_circleq_rep: "circleq_rep one_circleq 0 [1, 2, 3]"
  by (simp add: one_circleq_def circleq_rep_def after_of_def before_of_def)

text \<open>
  Going round a circular queue never ends at the head: from every element the next one is an
  element, the first behind the last, and going back from there leads to where one started.
\<close>

theorem circleq_round_trip:
  assumes "circleq_rep m h xs" and "e \<in> set xs"
  shows "\<exists>n \<in> set xs. CIRCLEQ_LOOP_NEXT m h (Elem e) = returns (Elem n) \<and> CIRCLEQ_LOOP_PREV m h (Elem n) = returns (Elem e)"
proof -
  obtain as bs where xs: "xs = as @ e # bs" using assms(2) by (meson split_list)
  show ?thesis
  proof (cases bs)
    case Nil
    obtain z zs where z: "as @ [e] = z # zs" by (meson append_is_Nil_conv neq_Nil_conv not_Cons_self2)
    then have "circleq_rep m h ([] @ z # zs)" using assms(1) xs Nil by simp
    moreover have "hd (bs @ as @ [e]) = z" using Nil z by (metis append_Nil list.sel(1))
    moreover have "last (z # zs @ []) = e" using z by (metis append_Nil2 last_snoc)
    moreover have "z \<in> set xs" using z xs Nil by (metis list.set_intros(1))
    ultimately show ?thesis using loop_prev_ok [of m h "[]" z zs] loop_next_ok [of m h as e bs] assms(1) xs by metis
  next
    case (Cons y zs)
    then have "circleq_rep m h ((as @ [e]) @ y # zs)" using assms(1) xs by simp
    with loop_prev_ok [OF this] loop_next_ok [of m h as e bs] assms(1) xs Cons show ?thesis by auto
  qed
qed

theorem circleq_round_trip_witness:
  "CIRCLEQ_LOOP_NEXT one_circleq 0 (Elem 3) = returns (Elem 1) \<and> CIRCLEQ_LOOP_PREV one_circleq 0 (Elem 1) = returns (Elem 3)"
proof -
  have "CIRCLEQ_LOOP_NEXT one_circleq 0 (Elem 3) = returns (Elem 1)"
    using loop_next_ok [of one_circleq 0 "[1, 2]" 3 "[]"] one_circleq_rep by simp
  with circleq_round_trip [OF one_circleq_rep, of 3] show ?thesis by auto
qed

end
