(* ===== verification/Systemcalls.thy ===== *)
theory Systemcalls
  imports Prelude
begin

text \<open>
  \<open>examples/systemcalls/systemcalls.c\<close>: running a command through \<open>system\<close>, through
  \<open>fork\<close>, \<open>execv\<close> and \<open>waitpid\<close>, and the same with standard output redirected to a file. A
  call that forks has two ends: what the calling process gets back, and what becomes of the child,
  which either turns into the program or, when \<open>execv\<close> fails, returns from the function like its
  parent. The answers of the operating system are arguments, collected in \<open>process_env\<close>.
\<close>

unbundle bit_operations_syntax

section \<open>The operating system's answers\<close>

text \<open>
  A descriptor table maps a descriptor to the file it writes to. \<open>execv_works\<close> says whether
  \<open>execv\<close> replaces the process for a given path and argument vector (\<open>None\<close> is \<open>NULL\<close>);
  \<open>wait_status\<close> is the status that \<open>waitpid\<close> stores.
\<close>

type_synonym fd_table = "i32 \<Rightarrow> string option"

record process_env =
  open_answer :: i32
  fork_answer :: i32
  dup2_answer :: i32
  execv_works :: "string \<Rightarrow> string option list \<Rightarrow> bool"
  waitpid_answer :: i32
  wait_status :: i32

datatype child_end =
    Runs string "string option list" fd_table   \<comment> \<open>the program took the process over\<close>
  | Returned bool fd_table                       \<comment> \<open>the function returned, in the child\<close>

text \<open>The status macros of \<open>sys/wait.h\<close>.\<close>

definition WIFEXITED :: "i32 \<Rightarrow> bool" where
  "WIFEXITED status \<longleftrightarrow> status AND 0x7F = 0"

definition WEXITSTATUS :: "i32 \<Rightarrow> i32" where
  "WEXITSTATUS status = drop_bit 8 (status AND 0xFF00)"

definition close_fd :: "fd_table \<Rightarrow> i32 \<Rightarrow> fd_table" where
  "close_fd fds fd = fds(fd := None)"

section \<open>The functions\<close>

definition do_system :: "(string option \<Rightarrow> i32) \<Rightarrow> string option \<Rightarrow> bool" where
  "do_system system cmd = (let sys_ret = system cmd in if sys_ret = - 1 then False else True)"

text \<open>
  The loop that moves the variable arguments into the array \<open>command\<close>, which both functions
  share. Asking for more arguments than were passed is undefined. The array has \<open>count + 1\<close>
  slots, all written before they are read.
\<close>

function collect_args :: "string option list \<Rightarrow> nat \<Rightarrow> nat \<Rightarrow> string option list \<Rightarrow> string option list comp" where
  "collect_args args cnt i command =
     (if i < cnt
      then bindC (arr_get args i) (\<lambda>a.
           bindC (arr_set command i a) (\<lambda>command'. collect_args args cnt (Suc i) command'))
      else arr_set command cnt None)"
  by pat_completeness auto
termination
  by (relation "measure (\<lambda>(args, cnt, i, command). cnt - i)") auto

declare collect_args.simps [simp del]

text \<open>The character at \<open>command[0][0]\<close>: the terminating zero if the string is empty.\<close>

definition first_char :: "string \<Rightarrow> char" where
  "first_char s = (case s of [] \<Rightarrow> nul | c # cs \<Rightarrow> c)"

text \<open>
  The result is the value returned to the caller and, if a child was created, its end. \<open>fds\<close> is
  the caller's descriptor table, which the child inherits.
\<close>

definition do_exec ::
  "process_env \<Rightarrow> fd_table \<Rightarrow> int \<Rightarrow> string option list \<Rightarrow> (bool \<times> child_end option) comp" where
  "do_exec env fds cnt args =
     (if cnt < 0 then fails Out_Of_Bounds
      else bindC (collect_args args (nat cnt) 0 (replicate (Suc (nat cnt)) None)) (\<lambda>command.
        case command ! 0 of
          None \<Rightarrow> fails Null_Deref
        | Some path \<Rightarrow>
            if first_char path \<noteq> CHR ''/'' then returns (False, None)
            else if fork_answer env = - 1 then returns (False, None)
            else let child = (if execv_works env path command then Runs path command fds
                              else Returned False fds)
            in if waitpid_answer env = - 1 then returns (False, Some child)
            else if WIFEXITED (wait_status env) \<and> WEXITSTATUS (wait_status env) \<noteq> 0
            then returns (False, Some child)
            else returns (True, Some child)))"

text \<open>
  With a redirection the caller's descriptor table is part of the result. \<open>open\<close> enters the file
  in the table; \<open>fork\<close> copies the table; \<open>dup2(fd, 1)\<close> makes descriptor 1 the same file.
\<close>

definition do_exec_redirect ::
  "process_env \<Rightarrow> fd_table \<Rightarrow> string \<Rightarrow> int \<Rightarrow> string option list \<Rightarrow>
   (bool \<times> fd_table \<times> child_end option) comp" where
  "do_exec_redirect env fds outputfile cnt args =
     (if cnt < 0 then fails Out_Of_Bounds
      else bindC (collect_args args (nat cnt) 0 (replicate (Suc (nat cnt)) None)) (\<lambda>command.
        case command ! 0 of
          None \<Rightarrow> fails Null_Deref
        | Some path \<Rightarrow>
            if first_char path \<noteq> CHR ''/'' then returns (False, fds, None)
            else let fd = open_answer env
            in if sint fd < 0 then returns (False, fds, None)
            else let fds1 = fds(fd \<mapsto> outputfile)
            in if fork_answer env = - 1 then returns (False, close_fd fds1 fd, None)
            else let child =
                   (if sint (dup2_answer env) < 0 then Returned False (close_fd fds1 fd)
                    else let fds2 = fds1(1 \<mapsto> outputfile)
                         in if execv_works env path command then Runs path command fds2
                            else Returned False (close_fd fds2 fd))
            in if waitpid_answer env = - 1 then returns (False, close_fd fds1 fd, Some child)
            else if WIFEXITED (wait_status env) \<and> WEXITSTATUS (wait_status env) \<noteq> 0
            then returns (False, close_fd fds1 fd, Some child)
            else returns (True, close_fd fds1 fd, Some child)))"

section \<open>Collecting the arguments\<close>

lemma collect_args_from:
  "cnt \<le> length args \<Longrightarrow> length command = Suc cnt \<Longrightarrow> i \<le> cnt \<Longrightarrow> take i command = take i args \<Longrightarrow>
   collect_args args cnt i command = returns (take cnt args @ [None])"
proof (induction args cnt i command rule: collect_args.induct)
  case (1 args cnt i command)
  show ?case
  proof (cases "i < cnt")
    case True
    then have "take (Suc i) (command[i := args ! i]) = take (Suc i) args"
      using 1(2-5) by (simp add: take_Suc_update) (simp add: take_Suc_conv_app_nth)
    with True 1 show ?thesis by (subst collect_args.simps) simp
  next
    case False
    with 1(4) have "i = cnt" by simp
    moreover from this have "command[cnt := None] = take cnt args @ [None]"
      using 1(3,5) upd_conv_take_nth_drop [of cnt command None] by simp
    ultimately show ?thesis using 1(3) by (subst collect_args.simps) simp
  qed
qed

lemma collect_args_all:
  "collect_args args (length args) 0 (None # replicate (length args) None) = returns (args @ [None])"
  by (simp add: collect_args_from)

text \<open>How the wait ended: the child was waited for and did not exit with a non-zero status.\<close>

definition ended_well :: "process_env \<Rightarrow> bool" where
  "ended_well env \<longleftrightarrow> waitpid_answer env \<noteq> - 1 \<and>
     (WIFEXITED (wait_status env) \<longrightarrow> WEXITSTATUS (wait_status env) = 0)"

text \<open>Both functions on a full argument list that starts with a string.\<close>

lemma do_exec_run:
  assumes "args = Some path # rest"
  shows "do_exec env fds (int (length args)) args =
    returns (if first_char path \<noteq> CHR ''/'' \<or> fork_answer env = - 1 then (False, None)
             else (ended_well env, Some (if execv_works env path (args @ [None]) then Runs path (args @ [None]) fds
                                         else Returned False fds)))"
proof -
  have "(args @ [None]) ! 0 = Some path" using assms by simp
  then show ?thesis by (simp add: do_exec_def collect_args_all ended_well_def Let_def)
qed

lemma do_exec_redirect_run:
  assumes "args = Some path # rest" and "fds (open_answer env) = None"
  shows "do_exec_redirect env fds out (int (length args)) args =
    returns (if first_char path \<noteq> CHR ''/'' \<or> sint (open_answer env) < 0 \<or> fork_answer env = - 1 then (False, fds, None)
             else (ended_well env, fds, Some
               (if 0 \<le> sint (dup2_answer env) \<and> execv_works env path (args @ [None])
                then Runs path (args @ [None]) (fds(open_answer env \<mapsto> out, 1 \<mapsto> out))
                else Returned False (close_fd (if 0 \<le> sint (dup2_answer env)
                       then fds(open_answer env \<mapsto> out, 1 \<mapsto> out) else fds) (open_answer env)))))"
proof -
  have "(args @ [None]) ! 0 = Some path" using assms by simp
  moreover have "close_fd (fds(open_answer env \<mapsto> out)) (open_answer env) = fds"
    using assms(2) by (simp add: close_fd_def fun_upd_idem)
  ultimately show ?thesis
    using assms(2) by (simp add: do_exec_redirect_def collect_args_all ended_well_def Let_def not_less
      close_fd_def fun_upd_idem)
qed

section \<open>Properties\<close>

text \<open>
  Given an absolute path and a \<open>fork\<close> that succeeds, \<open>do_exec\<close> creates one child, which
  runs exactly the given path with the given arguments, terminated by \<open>NULL\<close>, and it answers
  whether the child was waited for and did not exit with a non-zero status; a child killed by a
  signal counts as success.
\<close>

theorem do_exec_runs_command:
  assumes "first_char path = CHR ''/''" and "fork_answer env \<noteq> - 1"
    and "execv_works env path (Some path # rest @ [None])"
  shows "do_exec env fds (int (length (Some path # rest))) (Some path # rest) =
    returns (ended_well env, Some (Runs path (Some path # rest @ [None]) fds))"
  using assms do_exec_run [OF refl, of env fds path rest] by simp

text \<open>An operating system where everything works and the child is killed by signal 9.\<close>

definition killing_env :: process_env where
  "killing_env = \<lparr>open_answer = 3, fork_answer = 100, dup2_answer = 1, execv_works = \<lambda>p a. True,
     waitpid_answer = 100, wait_status = 9\<rparr>"

theorem do_exec_runs_command_witness:
  "do_exec killing_env Map.empty 2 [Some ''/bin/ls'', Some ''-l''] =
     returns (True, Some (Runs ''/bin/ls'' [Some ''/bin/ls'', Some ''-l'', None] Map.empty))"
proof -
  have "ended_well killing_env" by (simp add: ended_well_def killing_env_def WIFEXITED_def)
  then show ?thesis
    using do_exec_runs_command [of "''/bin/ls''" killing_env "[Some ''-l'']" Map.empty]
    by (simp add: first_char_def killing_env_def)
qed

text \<open>
  Without an absolute path, or when \<open>fork\<close> fails, neither function creates a process or
  leaves a descriptor open; both answer false.
\<close>

theorem exec_refuses_cleanly:
  assumes "first_char path \<noteq> CHR ''/'' \<or> fork_answer env = - 1" and "fds (open_answer env) = None"
  shows "do_exec env fds (int (length (Some path # rest))) (Some path # rest) = returns (False, None) \<and>
    do_exec_redirect env fds out (int (length (Some path # rest))) (Some path # rest) = returns (False, fds, None)"
  using assms do_exec_run [OF refl, of env fds path rest] do_exec_redirect_run [OF refl [of "Some path # rest"], of fds env out] assms(2)
  by auto

theorem exec_refuses_cleanly_witness:
  "do_exec killing_env Map.empty 1 [Some ''ls''] = returns (False, None) \<and>
   do_exec_redirect killing_env Map.empty ''/tmp/out'' 1 [Some ''ls''] = returns (False, Map.empty, None)"
  using exec_refuses_cleanly [of "''ls''" killing_env Map.empty "[]" "''/tmp/out''"]
  by (simp add: first_char_def)

text \<open>
  When \<open>execv\<close> fails, \<open>do_exec\<close> returns twice: in the parent, and with the answer false in
  the child, which then goes on executing the caller's code as a second copy of the program instead
  of ending.
\<close>

theorem failed_execv_returns_in_child:
  assumes "first_char path = CHR ''/''" and "fork_answer env \<noteq> - 1"
    and "\<not> execv_works env path (Some path # rest @ [None])"
  shows "do_exec env fds (int (length (Some path # rest))) (Some path # rest) =
    returns (ended_well env, Some (Returned False fds))"
  using assms do_exec_run [OF refl, of env fds path rest] by simp

theorem failed_execv_returns_in_child_witness:
  "do_exec (killing_env\<lparr>execv_works := \<lambda>p a. False, wait_status := 256\<rparr>) Map.empty 1 [Some ''/nowhere''] =
     returns (False, Some (Returned False Map.empty))"
proof -
  let ?env = "killing_env\<lparr>execv_works := \<lambda>p a. False, wait_status := 256\<rparr>"
  have "\<not> ended_well ?env" by code_simp
  then show ?thesis
    using failed_execv_returns_in_child [of "''/nowhere''" ?env "[]" Map.empty]
    by (simp add: first_char_def killing_env_def)
qed

text \<open>
  C36: On every path \<open>do_exec_redirect\<close> gives its caller back the descriptor table it had, so the
  output file is always closed; it answers like \<open>do_exec\<close>, and a child that runs the program runs
  it with its standard output on the output file.
\<close>

theorem redirect_restores_descriptors:
  fixes rest :: "string option list"
  assumes "first_char path = CHR ''/''" and "fork_answer env \<noteq> - 1" and "0 \<le> sint (open_answer env)"
    and "fds (open_answer env) = None"
  defines "runs \<equiv> 0 \<le> sint (dup2_answer env) \<and> execv_works env path (Some path # rest @ [None])"
  shows "\<exists>fds'. do_exec_redirect env fds out (int (length (Some path # rest))) (Some path # rest) =
      returns (ended_well env, fds,
        Some (if runs then Runs path (Some path # rest @ [None]) fds' else Returned False fds')) \<and>
    (if runs then fds' 1 = Some out \<and> (\<forall>fd. fd \<noteq> 1 \<longrightarrow> fd \<noteq> open_answer env \<longrightarrow> fds' fd = fds fd)
     else fds' (open_answer env) = None)"
  using assms do_exec_redirect_run [OF refl [of "Some path # rest"], of fds env out] assms(4)
  by (simp add: close_fd_def)

theorem redirect_restores_descriptors_witness:
  "\<exists>argv fds'. do_exec_redirect killing_env [1 \<mapsto> ''/dev/tty''] ''/tmp/out'' 1 [Some ''/bin/ls''] =
     returns (True, [1 \<mapsto> ''/dev/tty''], Some (Runs ''/bin/ls'' argv fds')) \<and> fds' 1 = Some ''/tmp/out''"
proof -
  have "ended_well killing_env" by (simp add: ended_well_def killing_env_def WIFEXITED_def)
  then show ?thesis
    using redirect_restores_descriptors [of "''/bin/ls''" killing_env "[1 \<mapsto> ''/dev/tty'']" "''/tmp/out''" "[]"]
    by (auto simp: first_char_def killing_env_def)
qed

text \<open>
  \<open>do_system\<close> answers true for every command that \<open>system\<close> managed to start, also when the
  command's own exit status reports a failure.
\<close>

theorem do_system_ignores_exit_status:
  assumes "system cmd \<noteq> - 1"
  shows "do_system system cmd"
  using assms by (simp add: do_system_def)

theorem do_system_ignores_exit_status_witness:
  "do_system (\<lambda>cmd. 256) (Some ''false'') \<and> WIFEXITED 256 \<and> WEXITSTATUS 256 = 1"
proof -
  have "WIFEXITED 256" "WEXITSTATUS 256 = 1" by code_simp+
  with do_system_ignores_exit_status [of "\<lambda>cmd. 256" "Some ''false''"] show ?thesis by simp
qed

end
