(* ===== verification/Threading.thy ===== *)
theory Threading
  imports Prelude "HOL-Library.Signed_Division"
begin

text \<open>
  \<open>examples/threading\<close>: threads that sleep, take a mutex, sleep again and release it. The thread
  function is a machine with one step per point where other threads can intervene; starting a
  thread, running a step of any thread, and the joiner's \<open>free\<close> of a finished thread's structure
  are the steps of a transition system over the allocated structures, the mutex owners and the
  threads. The answers of \<open>malloc\<close>, \<open>pthread_create\<close>, \<open>pthread_mutex_lock\<close> and
  \<open>pthread_mutex_unlock\<close> are arguments.
\<close>

section \<open>Data\<close>

record thread_data =
  thread_complete_success :: bool
  wait_to_obtain_ms :: i32
  wait_to_release_ms :: i32
  mutex :: nat

text \<open>Where a thread is in \<open>threadfunc\<close>; its parameter, its two local variables, and how long it has slept.\<close>

datatype control = At_Start | At_Sleep | At_Lock | At_Hold | At_Unlock | At_Success | Done

record thread =
  pc :: control
  thread_param :: ptr
  sec_to_wait_to_obtain :: i32
  sec_to_wait_to_release :: i32
  slept :: nat

text \<open>The allocated structures, the thread that owns each mutex, and the threads by their number.\<close>

record tworld =
  structs :: "nat \<Rightarrow> thread_data option"
  mutex_owner :: "nat \<Rightarrow> nat option"
  threads :: "nat \<Rightarrow> thread option"

section \<open>The functions\<close>

text \<open>Signed division truncates; \<open>sleep\<close> takes its argument as an unsigned number.\<close>

definition ms_to_sec :: "i32 \<Rightarrow> i32" where
  "ms_to_sec ms = word_of_int (sint ms sdiv 1000)"

definition deref :: "(nat \<Rightarrow> 'a option) \<Rightarrow> ptr \<Rightarrow> (nat \<times> 'a) comp" where
  "deref h p = (case p of
      Ptr a \<Rightarrow> (case h a of None \<Rightarrow> fails Use_After_Free | Some d \<Rightarrow> returns (a, d))
    | _ \<Rightarrow> fails Null_Deref)"

definition set_thread :: "nat \<Rightarrow> thread \<Rightarrow> tworld \<Rightarrow> tworld" where
  "set_thread t th w = w\<lparr>threads := (threads w)(t \<mapsto> th)\<rparr>"

text \<open>
  One step of thread \<open>t\<close>. \<open>err\<close> is whether the mutex call of the step, if it has one, answers an
  error. The result is \<open>None\<close> when the thread cannot run: it waits for the mutex or has returned.
  Unlocking a mutex that the thread does not own is undefined.
\<close>

definition threadfunc_step :: "bool \<Rightarrow> nat \<Rightarrow> tworld \<Rightarrow> tworld option comp" where
  "threadfunc_step err t w =
     (case threads w t of
        None \<Rightarrow> returns None
      | Some th \<Rightarrow>
          (case pc th of
             At_Start \<Rightarrow> bindC (deref (structs w) (thread_param th)) (\<lambda>(a, d).
               returns (Some (set_thread t (th\<lparr>pc := At_Sleep,
                 sec_to_wait_to_obtain := ms_to_sec (wait_to_obtain_ms d),
                 sec_to_wait_to_release := ms_to_sec (wait_to_release_ms d)\<rparr>) w)))
           | At_Sleep \<Rightarrow>
               returns (Some (set_thread t (th\<lparr>pc := At_Lock,
                 slept := slept th + unat (sec_to_wait_to_obtain th)\<rparr>) w))
           | At_Lock \<Rightarrow> bindC (deref (structs w) (thread_param th)) (\<lambda>(a, d).
               if err then returns (Some (set_thread t (th\<lparr>pc := Done\<rparr>) w))
               else if mutex_owner w (mutex d) \<noteq> None then returns None
               else returns (Some (set_thread t (th\<lparr>pc := At_Hold\<rparr>)
                      (w\<lparr>mutex_owner := (mutex_owner w)(mutex d \<mapsto> t)\<rparr>))))
           | At_Hold \<Rightarrow>
               returns (Some (set_thread t (th\<lparr>pc := At_Unlock,
                 slept := slept th + unat (sec_to_wait_to_release th)\<rparr>) w))
           | At_Unlock \<Rightarrow> bindC (deref (structs w) (thread_param th)) (\<lambda>(a, d).
               if err then returns (Some (set_thread t (th\<lparr>pc := Done\<rparr>) w))
               else if mutex_owner w (mutex d) \<noteq> Some t then fails Not_Locked
               else returns (Some (set_thread t (th\<lparr>pc := At_Success\<rparr>)
                      (w\<lparr>mutex_owner := (mutex_owner w)(mutex d := None)\<rparr>))))
           | At_Success \<Rightarrow> bindC (deref (structs w) (thread_param th)) (\<lambda>(a, d).
               returns (Some (set_thread t (th\<lparr>pc := Done\<rparr>)
                 (w\<lparr>structs := (structs w)(a \<mapsto> d\<lparr>thread_complete_success := True\<rparr>)\<rparr>))))
           | Done \<Rightarrow> returns None))"

text \<open>
  \<open>p\<close> is the answer of \<open>malloc\<close>, which the code does not test; \<open>create_err\<close> is whether
  \<open>pthread_create\<close> fails and \<open>t\<close> the number of the thread it starts otherwise.
\<close>

definition start_thread_obtaining_mutex ::
  "ptr \<Rightarrow> bool \<Rightarrow> nat \<Rightarrow> nat \<Rightarrow> i32 \<Rightarrow> i32 \<Rightarrow> tworld \<Rightarrow> (bool \<times> tworld) comp" where
  "start_thread_obtaining_mutex p create_err t m obtain_ms release_ms w =
     (case p of
        Ptr a \<Rightarrow>
          let w1 = w\<lparr>structs := (structs w)(a \<mapsto>
                \<lparr>thread_complete_success = False, wait_to_obtain_ms = obtain_ms,
                 wait_to_release_ms = release_ms, mutex = m\<rparr>)\<rparr>
          in if create_err then returns (False, w1)
             else returns (True, set_thread t \<lparr>pc = At_Start, thread_param = Ptr a,
                    sec_to_wait_to_obtain = 0, sec_to_wait_to_release = 0, slept = 0\<rparr> w1)
      | _ \<Rightarrow> fails Null_Deref)"

section \<open>The transition system\<close>

inductive tstep :: "tworld \<Rightarrow> tworld \<Rightarrow> bool" where
  t_start: "structs w a = None \<Longrightarrow> threads w t = None \<Longrightarrow>
    start_thread_obtaining_mutex (Ptr a) create_err t m obtain_ms release_ms w = returns (r, w') \<Longrightarrow>
    tstep w w'"
| t_run: "threadfunc_step err t w = returns (Some w') \<Longrightarrow> tstep w w'"
| t_join: "threads w t = Some th \<Longrightarrow> pc th = Done \<Longrightarrow> thread_param th = Ptr a \<Longrightarrow>
    tstep w (w\<lparr>structs := (structs w)(a := None), threads := (threads w)(t := None)\<rparr>)"

inductive treachable :: "tworld \<Rightarrow> bool" where
  t_init: "treachable \<lparr>structs = s, mutex_owner = \<lambda>m. None, threads = \<lambda>t. None\<rparr>"
| t_step: "treachable w \<Longrightarrow> tstep w w' \<Longrightarrow> treachable w'"

definition holding :: "thread \<Rightarrow> bool" where
  "holding th \<longleftrightarrow> pc th = At_Hold \<or> pc th = At_Unlock"

text \<open>
  Every thread has a structure of its own, marked successful only once the thread has returned,
  and a thread between lock and unlock owns its mutex.
\<close>

definition threads_inv :: "tworld \<Rightarrow> bool" where
  "threads_inv w \<longleftrightarrow>
     (\<forall>t th. threads w t = Some th \<longrightarrow>
        (\<exists>a d. thread_param th = Ptr a \<and> structs w a = Some d \<and>
               (holding th \<longrightarrow> mutex_owner w (mutex d) = Some t) \<and>
               (thread_complete_success d \<longrightarrow> pc th = Done))) \<and>
     (\<forall>t t' th th'. threads w t = Some th \<longrightarrow> threads w t' = Some th' \<longrightarrow>
        thread_param th = thread_param th' \<longrightarrow> t = t')"

lemma threads_invD:
  assumes "threads_inv w" and "threads w t = Some th"
  obtains a d where "thread_param th = Ptr a" and "structs w a = Some d"
    and "deref (structs w) (thread_param th) = returns (a, d)"
    and "holding th \<Longrightarrow> mutex_owner w (mutex d) = Some t"
    and "thread_complete_success d \<Longrightarrow> pc th = Done"
  using assms by (fastforce simp: threads_inv_def deref_def)

text \<open>What a step of one thread may do without disturbing the invariant of the others.\<close>

lemma threads_inv_update:
  assumes inv: "threads_inv w" and th: "threads w t = Some th" and p: "thread_param th' = thread_param th"
    and a: "thread_param th = Ptr a" "structs w a = Some d"
    and s: "structs w' = (structs w)(a \<mapsto> d')" "mutex d' = mutex d"
    and ts: "threads w' = threads w"
    and own: "\<And>m t'. t' \<noteq> t \<Longrightarrow> mutex_owner w m = Some t' \<Longrightarrow> mutex_owner w' m = Some t'"
    and hold: "holding th' \<Longrightarrow> mutex_owner w' (mutex d) = Some t"
    and succ: "thread_complete_success d' \<Longrightarrow> pc th' = Done"
  shows "threads_inv (set_thread t th' w')"
proof -
  have other: "\<exists>b e. thread_param u = Ptr b \<and> structs w' b = Some e \<and>
      (holding u \<longrightarrow> mutex_owner w' (mutex e) = Some t') \<and> (thread_complete_success e \<longrightarrow> pc u = Done)"
    if ne: "t' \<noteq> t" and u: "threads w t' = Some u" for t' u
  proof -
    obtain b e where "thread_param u = Ptr b" "structs w b = Some e"
      "holding u \<Longrightarrow> mutex_owner w (mutex e) = Some t'" "thread_complete_success e \<Longrightarrow> pc u = Done"
      using threads_invD [OF inv u] by metis
    moreover from this ne u have "b \<noteq> a" using inv th a(1) unfolding threads_inv_def by metis
    ultimately show ?thesis using own ne s(1) by auto
  qed
  show ?thesis
    unfolding threads_inv_def set_thread_def ts
  proof (intro conjI allI impI)
    fix t' u
    assume "threads (w'\<lparr>threads := (threads w)(t \<mapsto> th')\<rparr>) t' = Some u"
    then show "\<exists>b e. thread_param u = Ptr b \<and> structs (w'\<lparr>threads := (threads w)(t \<mapsto> th')\<rparr>) b = Some e \<and>
      (holding u \<longrightarrow> mutex_owner (w'\<lparr>threads := (threads w)(t \<mapsto> th')\<rparr>) (mutex e) = Some t') \<and>
      (thread_complete_success e \<longrightarrow> pc u = Done)"
      using other p a s hold succ by (cases "t' = t") auto
  next
    fix t1 t2 u1 u2
    assume "threads (w'\<lparr>threads := (threads w)(t \<mapsto> th')\<rparr>) t1 = Some u1"
      "threads (w'\<lparr>threads := (threads w)(t \<mapsto> th')\<rparr>) t2 = Some u2"
      "thread_param u1 = thread_param u2"
    then show "t1 = t2"
      using inv th p unfolding threads_inv_def by (auto split: if_splits)
  qed
qed

lemma step_cases:
  assumes inv: "threads_inv w"
  shows "\<exists>r. threadfunc_step err t w = returns r \<and> (\<forall>w'. r = Some w' \<longrightarrow> threads_inv w')"
proof (cases "threads w t")
  case None
  then show ?thesis by (simp add: threadfunc_step_def)
next
  case (Some th)
  obtain a d where a: "thread_param th = Ptr a" "structs w a = Some d"
    and dr: "deref (structs w) (thread_param th) = returns (a, d)"
    and h: "holding th \<Longrightarrow> mutex_owner w (mutex d) = Some t"
    and su: "thread_complete_success d \<Longrightarrow> pc th = Done"
    using inv Some by (rule threads_invD) blast
  note upd = threads_inv_update [OF inv Some _ a]
  show ?thesis
  proof (cases "pc th")
    case At_Success
    then show ?thesis
      by (auto simp: threadfunc_step_def Some dr holding_def
          intro!: upd [where d' = "d\<lparr>thread_complete_success := True\<rparr>"])
  qed (use dr h su in \<open>auto simp: threadfunc_step_def Some holding_def
         fun_upd_idem [of "structs w", OF a(2)] intro!: upd [where d' = d]\<close>)
qed

lemma start_keeps_inv:
  assumes inv: "threads_inv w" and fresh: "structs w a = None" "threads w t = None"
    and run: "start_thread_obtaining_mutex (Ptr a) create_err t m ob re w = returns (r, w')"
  shows "threads_inv w'"
proof -
  let ?d = "\<lparr>thread_complete_success = False, wait_to_obtain_ms = ob, wait_to_release_ms = re, mutex = m\<rparr>"
  have old: "\<exists>b e. thread_param u = Ptr b \<and> b \<noteq> a \<and> structs w b = Some e \<and>
      (holding u \<longrightarrow> mutex_owner w (mutex e) = Some t') \<and> (thread_complete_success e \<longrightarrow> pc u = Done)"
    if "threads w t' = Some u" for t' u
    using threads_invD [OF inv that] fresh(1) by (metis option.distinct(1))
  have uniq: "threads w t1 = Some u1 \<Longrightarrow> threads w t2 = Some u2 \<Longrightarrow> thread_param u1 = thread_param u2 \<Longrightarrow> t1 = t2"
    for t1 t2 u1 u2
    using inv unfolding threads_inv_def by blast
  show ?thesis
    using run old uniq
    by (auto simp: start_thread_obtaining_mutex_def threads_inv_def set_thread_def holding_def Let_def
        split: if_splits) (metis ptr.inject)+
qed

lemma join_keeps_inv:
  assumes inv: "threads_inv w" and th: "threads w t = Some th" and p: "thread_param th = Ptr a"
  shows "threads_inv (w\<lparr>structs := (structs w)(a := None), threads := (threads w)(t := None)\<rparr>)"
proof -
  have other: "\<exists>b e. thread_param u = Ptr b \<and> b \<noteq> a \<and> structs w b = Some e \<and>
      (holding u \<longrightarrow> mutex_owner w (mutex e) = Some t') \<and> (thread_complete_success e \<longrightarrow> pc u = Done)"
    if ne: "t' \<noteq> t" and u: "threads w t' = Some u" for t' u
  proof -
    have "thread_param u \<noteq> Ptr a" using inv th p ne u unfolding threads_inv_def by metis
    with threads_invD [OF inv u] show ?thesis by metis
  qed
  have uniq: "threads w t1 = Some u1 \<Longrightarrow> threads w t2 = Some u2 \<Longrightarrow> thread_param u1 = thread_param u2 \<Longrightarrow> t1 = t2"
    for t1 t2 u1 u2
    using inv unfolding threads_inv_def by blast
  show ?thesis
    unfolding threads_inv_def
  proof (intro conjI allI impI, goal_cases)
    case (1 t' u)
    then have "t' \<noteq> t" "threads w t' = Some u" by (auto split: if_splits)
    from other [OF this] show ?case by auto
  next
    case (2 t1 t2 u1 u2)
    then have "threads w t1 = Some u1" "threads w t2 = Some u2" by (auto split: if_splits)
    then show ?case using 2(3) by (rule uniq)
  qed
qed

lemma treachable_inv: "treachable w \<Longrightarrow> threads_inv w"
proof (induction rule: treachable.induct)
  case (t_init s)
  then show ?case by (simp add: threads_inv_def)
next
  case (t_step w w')
  from t_step.hyps(2) t_step.IH show ?case
  proof cases
    case (t_run err t)
    with step_cases [OF t_step.IH, of err t] show ?thesis by auto
  qed (auto intro: start_keeps_inv join_keeps_inv)
qed

section \<open>Waiting times\<close>

lemma sint_i32_bounds: "- (2 ^ 31) \<le> sint (ms :: i32)" "sint ms < 2 ^ 31"
  using sint_ge [of ms] sint_lt [of ms] by simp_all

lemma unat_word_of_int_i32: "unat (word_of_int x :: i32) = nat (x mod 2 ^ 32)"
  by (simp add: unsigned_of_int take_bit_eq_mod)

section \<open>Properties\<close>

text \<open>Two threads with numbers 0 and 1 on mutex 7, the first of which holds it.\<close>

definition started :: "nat \<Rightarrow> nat \<Rightarrow> i32 \<Rightarrow> i32 \<Rightarrow> tworld \<Rightarrow> tworld" where
  "started t a ob re w = (case start_thread_obtaining_mutex (Ptr a) False t 7 ob re w of
     Some (Inr (r, w')) \<Rightarrow> w' | _ \<Rightarrow> w)"

definition stepped :: "nat \<Rightarrow> tworld \<Rightarrow> tworld" where
  "stepped t w = (case threadfunc_step False t w of Some (Inr (Some w')) \<Rightarrow> w' | _ \<Rightarrow> w)"

definition no_threads :: tworld where
  "no_threads = \<lparr>structs = \<lambda>a. None, mutex_owner = \<lambda>m. None, threads = \<lambda>t. None\<rparr>"

definition one_holding :: tworld where
  "one_holding = stepped 0 (stepped 0 (stepped 0 (started 1 2 0 0 (started 0 1 1500 2500 no_threads))))"

lemma started_reachable:
  assumes "treachable w" and "structs w a = None" and "threads w t = None"
  shows "treachable (started t a ob re w)"
proof -
  have "start_thread_obtaining_mutex (Ptr a) False t 7 ob re w = returns (True, started t a ob re w)"
    by (simp add: started_def start_thread_obtaining_mutex_def Let_def)
  then have "tstep w (started t a ob re w)" by (rule t_start [OF assms(2,3)])
  with assms(1) show ?thesis by (rule t_step)
qed

lemma stepped_reachable: "treachable w \<Longrightarrow> treachable (stepped t w)"
  by (auto simp: stepped_def split: option.splits sum.splits intro: t_step t_run)

lemma one_holding_reachable: "treachable one_holding"
  unfolding one_holding_def
  by (intro stepped_reachable started_reachable)
    (simp_all add: no_threads_def t_init started_def start_thread_obtaining_mutex_def set_thread_def Let_def)

lemma one_holding_eval:
  "map_option pc (threads one_holding 0) = Some At_Hold" "map_option pc (threads one_holding 1) = Some At_Start"
  "map_option (\<lambda>th. sec_to_wait_to_release th) (threads one_holding 0) = Some 2"
  "map_option (\<lambda>th. slept th) (threads one_holding 0) = Some 1"
  "map_option (\<lambda>d. mutex d) (structs one_holding 1) = Some 7"
  "map_option (\<lambda>th. thread_param th) (threads one_holding 0) = Some (Ptr 1)"
  by code_simp+

text \<open>
  C25: However the threads interleave, two threads that are both between taking and releasing
  the same mutex are the same thread.
\<close>

theorem threads_exclude_each_other:
  assumes "treachable w"
    and "threads w t1 = Some th1" and "holding th1" and "thread_param th1 = Ptr a1" and "structs w a1 = Some d1"
    and "threads w t2 = Some th2" and "holding th2" and "thread_param th2 = Ptr a2" and "structs w a2 = Some d2"
    and "mutex d1 = mutex d2"
  shows "t1 = t2"
proof -
  note inv = treachable_inv [OF assms(1)]
  have "mutex_owner w (mutex d1) = Some t1" "mutex_owner w (mutex d2) = Some t2"
    using threads_invD [OF inv assms(2)] threads_invD [OF inv assms(6)] assms
    by (metis option.inject ptr.inject)+
  with assms(10) show ?thesis by simp
qed

theorem threads_exclude_each_other_witness:
  "\<exists>th a d. threads one_holding 0 = Some th \<and> holding th \<and> thread_param th = Ptr a \<and> structs one_holding a = Some d \<and>
     mutex d = 7 \<and> (\<forall>t2 th2 a2 d2. threads one_holding t2 = Some th2 \<longrightarrow> holding th2 \<longrightarrow>
       thread_param th2 = Ptr a2 \<longrightarrow> structs one_holding a2 = Some d2 \<longrightarrow> mutex d2 = 7 \<longrightarrow> t2 = 0)"
proof -
  obtain th where th: "threads one_holding 0 = Some th" "holding th" "thread_param th = Ptr 1"
    using one_holding_eval(1,6) by (auto simp: holding_def)
  obtain d where d: "structs one_holding 1 = Some d" "mutex d = 7"
    using one_holding_eval(5) by auto
  have "t2 = 0" if "threads one_holding t2 = Some th2" "holding th2" "thread_param th2 = Ptr a2"
    "structs one_holding a2 = Some d2" "mutex d2 = 7" for t2 th2 a2 d2
    using threads_exclude_each_other [OF one_holding_reachable that(1-4) th d(1)] that(5) d(2) by simp
  with th d show ?thesis by blast
qed

text \<open>
  No thread ever follows a dangling or null pointer or releases a mutex it does not hold,
  provided a finished thread's structure is freed only by its joiner.
\<close>

theorem threads_never_fault:
  assumes "treachable w"
  shows "\<exists>r. threadfunc_step err t w = returns r"
  using step_cases [OF treachable_inv [OF assms]] by blast

theorem threads_never_fault_witness:
  "treachable one_holding \<and> (\<exists>w'. threadfunc_step False 0 one_holding = returns w')"
  using threads_never_fault [OF one_holding_reachable] one_holding_reachable by blast

text \<open>All steps of one thread, with the given answers of the two mutex calls.\<close>

definition threadfunc :: "bool \<Rightarrow> bool \<Rightarrow> nat \<Rightarrow> tworld \<Rightarrow> tworld comp" where
  "threadfunc lock_err unlock_err t w =
     foldC (\<lambda>w err. bindC (threadfunc_step err t w) (\<lambda>r. returns (case r of None \<Rightarrow> w | Some w' \<Rightarrow> w')))
       w [False, False, lock_err, False, unlock_err, False]"

text \<open>
  A thread that finds its mutex free runs to its end and leaves its parameter as its result.
  It reports success exactly when both mutex calls succeeded, and then has released the mutex and
  slept the whole seconds of its two waiting times; when only the release fails, the mutex stays
  taken.
\<close>

theorem threadfunc_completes:
  assumes "threads w t = Some th" and "pc th = At_Start" and "slept th = 0" and "thread_param th = Ptr a"
    and "structs w a = Some d" and "\<not> thread_complete_success d" and "mutex_owner w (mutex d) = None"
  shows "\<exists>w' th' d'. threadfunc lock_err unlock_err t w = returns w' \<and> threads w' t = Some th' \<and>
    pc th' = Done \<and> thread_param th' = Ptr a \<and> structs w' a = Some d' \<and>
    (thread_complete_success d' \<longleftrightarrow> \<not> lock_err \<and> \<not> unlock_err) \<and>
    mutex_owner w' (mutex d) = (if \<not> lock_err \<and> unlock_err then Some t else None) \<and>
    slept th' = unat (ms_to_sec (wait_to_obtain_ms d)) + (if lock_err then 0 else unat (ms_to_sec (wait_to_release_ms d)))"
  using assms by (auto simp: threadfunc_def threadfunc_step_def deref_def set_thread_def)

theorem threadfunc_completes_witness:
  "\<exists>w' th'. threadfunc False False 0 (started 0 1 1500 2500 no_threads) = returns w' \<and>
     threads w' 0 = Some th' \<and> pc th' = Done \<and> slept th' = 3"
proof -
  let ?w = "started 0 1 1500 2500 no_threads"
  have "map_option (\<lambda>th. (pc th, slept th, thread_param th)) (threads ?w 0) = Some (At_Start, 0, Ptr 1)"
    by code_simp
  then obtain th where th: "threads ?w 0 = Some th" "pc th = At_Start" "slept th = 0" "thread_param th = Ptr 1"
    by auto
  have "map_option (\<lambda>d. (thread_complete_success d, wait_to_obtain_ms d, wait_to_release_ms d, mutex d)) (structs ?w 1) =
      Some (False, 1500, 2500, 7)"
    by code_simp
  then obtain d where d: "structs ?w 1 = Some d" "\<not> thread_complete_success d" "wait_to_obtain_ms d = 1500"
    "wait_to_release_ms d = 2500" "mutex d = 7"
    by auto
  have free: "mutex_owner ?w (mutex d) = None" unfolding d by code_simp
  have "unat (ms_to_sec 1500) = 1" "unat (ms_to_sec 2500) = 2" by code_simp+
  with threadfunc_completes [OF th d(1,2) free, of False False] d(3,4) show ?thesis by auto
qed

text \<open>
  The waiting times are given in milliseconds but waited in whole seconds, rounded down: less
  than a second is not waited at all, and a negative time of a second or more becomes a wait of
  over sixty years.
\<close>

theorem wait_rounds_down:
  "if 0 \<le> sint ms then unat (ms_to_sec ms) = nat (sint ms) div 1000
   else if - 1000 < sint ms then unat (ms_to_sec ms) = 0
   else 2 ^ 31 \<le> unat (ms_to_sec ms)"
proof -
  let ?x = "sint ms"
  have b: "- (2 ^ 31) \<le> ?x" "?x < 2 ^ 31" by (rule sint_i32_bounds)+
  have u: "unat (ms_to_sec ms) = nat ((?x sdiv 1000) mod 2 ^ 32)"
    by (simp add: ms_to_sec_def unat_word_of_int_i32)
  show ?thesis
  proof (cases "0 \<le> ?x")
    case True
    then have "?x sdiv 1000 = ?x div 1000" by (simp add: signed_divide_int_def sgn_if)
    moreover have "(?x div 1000) mod 2 ^ 32 = ?x div 1000" using True b by (intro mod_pos_pos_trivial) auto
    ultimately show ?thesis using True by (simp add: u nat_div_distrib)
  next
    case False
    then have d: "?x sdiv 1000 = - (- ?x div 1000)" by (simp add: signed_divide_int_def sgn_if)
    show ?thesis
    proof (cases "- 1000 < ?x")
      case True
      with False have "- ?x div 1000 = 0" by (intro div_pos_pos_trivial) auto
      with False True show ?thesis by (simp add: u d)
    next
      case far: False
      have q: "1 \<le> - ?x div 1000" "- ?x div 1000 \<le> 2 ^ 31" using far b by simp_all
      have "(- (- ?x div 1000)) mod 2 ^ 32 = 2 ^ 32 - (- ?x div 1000)"
        using q by (subst mod_pos_pos_trivial [of "2 ^ 32 - (- ?x div 1000)" "2 ^ 32", symmetric]) simp_all
      with q False far show ?thesis by (simp add: u d)
    qed
  qed
qed

text \<open>
  When a thread cannot be created, the structure allocated for it stays allocated although
  no thread refers to it and the caller, which gets false, never learns its address.
\<close>

theorem failed_start_leaks:
  assumes "treachable w" and "structs w a = None"
  shows "\<exists>w'. start_thread_obtaining_mutex (Ptr a) True t m ob re w = returns (False, w') \<and>
    structs w' a \<noteq> None \<and> threads w' = threads w \<and>
    (\<forall>t' th. threads w' t' = Some th \<longrightarrow> thread_param th \<noteq> Ptr a)"
proof -
  have "thread_param th \<noteq> Ptr a" if "threads w t' = Some th" for t' th
    using threads_invD [OF treachable_inv [OF assms(1)] that] assms(2) by (metis option.distinct(1) ptr.inject)
  then show ?thesis by (auto simp: start_thread_obtaining_mutex_def Let_def)
qed

theorem failed_start_leaks_witness:
  "\<exists>w'. start_thread_obtaining_mutex (Ptr 5) True 3 7 10 10 one_holding = returns (False, w') \<and>
     structs w' 5 \<noteq> None \<and> (\<forall>t th. threads w' t = Some th \<longrightarrow> thread_param th \<noteq> Ptr 5)"
proof -
  have "structs one_holding 5 = None" by code_simp
  from failed_start_leaks [OF one_holding_reachable this, of 3 7 10 10] show ?thesis by blast
qed

end
