(* ===== verification/Writer.thy ===== *)
theory Writer
  imports Prelude
begin

text \<open>
  \<open>finder-app/writer.c\<close>: a command that creates a file and writes a string to it. The world is
  the files, the process's open descriptors and the messages sent to the system log; the answers of
  \<open>creat\<close> and \<open>write\<close> are arguments.
\<close>

section \<open>Model\<close>

datatype log_message =
    Expected_2_Arguments int
  | Could_Not_Create string
  | Error_Writing "byte list" string
  | Writing "byte list" string

record writer_world =
  files :: "string \<Rightarrow> byte list option"
  open_fds :: "i32 \<Rightarrow> string option"
  log :: "log_message list"

definition syslog :: "log_message \<Rightarrow> writer_world \<Rightarrow> writer_world" where
  "syslog m w = w\<lparr>log := writer_world.log w @ [m]\<rparr>"

text \<open>
  \<open>argv\<close> includes the program's name, so \<open>argc\<close> is its length. \<open>creat\<close> truncates the file
  and opens it on the descriptor \<open>fd\<close>; \<open>written\<close> is the answer of \<open>write\<close>, the number of bytes
  it took or -1, which the code keeps in an \<open>int\<close>. Leaving \<open>main\<close> at its end is exit status 0.
\<close>

definition writer_main :: "i32 \<Rightarrow> i64 \<Rightarrow> byte list list \<Rightarrow> writer_world \<Rightarrow> i32 \<times> writer_world" where
  "writer_main fd written argv w =
     (if length argv \<noteq> 3 then (1, syslog (Expected_2_Arguments (int (length argv) - 1)) w)
      else let writefile = argv ! 1; writestr = argv ! 2
      in if fd = - 1 then (1, syslog (Could_Not_Create writefile) w)
      else let w1 = w\<lparr>files := (files w)(writefile \<mapsto> []), open_fds := (open_fds w)(fd \<mapsto> writefile)\<rparr>;
               write_bytes = (ucast written :: i32);
               w2 = (if written = - 1 then w1
                     else w1\<lparr>files := (files w1)(writefile \<mapsto> take (unat written) writestr)\<rparr>)
      in if write_bytes = - 1 then (1, syslog (Error_Writing writestr writefile) w2)
      else let w3 = syslog (Writing writestr writefile) w2
      in (0, w3\<lparr>open_fds := (open_fds w3)(fd := None)\<rparr>))"

section \<open>Properties\<close>

text \<open>An ordinary count, narrowed to an \<open>int\<close>, is not mistaken for the error answer.\<close>

lemma narrowed_count:
  assumes "unat (n :: i64) < 2 ^ 31"
  shows "(ucast n :: i32) \<noteq> - 1" and "n \<noteq> - 1"
proof -
  have "unat (ucast n :: i32) = unat n"
    using assms by (simp add: unsigned_ucast_eq take_bit_nat_eq_self)
  moreover have "unat (- 1 :: i32) = 2 ^ 32 - 1" "unat (- 1 :: i64) = 2 ^ 64 - 1"
    by (simp_all add: unsigned_minus_1_eq_mask mask_eq_exp_minus_1)
  ultimately show "(ucast n :: i32) \<noteq> - 1" and "n \<noteq> - 1" using assms by auto
qed

text \<open>
  C40: Given two arguments and a file that can be created, the program replaces the file's contents
  by as much of the string as \<open>write\<close> took, closes it and exits with status 0; in particular a
  write that took only part of the string is reported as a success.
\<close>

theorem writer_writes_prefix:
  assumes "fd \<noteq> - 1" and "unat written < 2 ^ 31" and "open_fds w fd = None"
  shows "\<exists>w'. writer_main fd written [prog, file, str] w = (0, w') \<and>
    files w' = (files w)(file \<mapsto> take (unat written) str) \<and> open_fds w' = open_fds w \<and>
    writer_world.log w' = writer_world.log w @ [Writing str file]"
  using assms narrowed_count [OF assms(2)]
  by (simp add: writer_main_def syslog_def Let_def fun_upd_idem)

definition empty_world :: writer_world where
  "empty_world = \<lparr>files = \<lambda>f. None, open_fds = \<lambda>d. None, log = []\<rparr>"

theorem writer_writes_prefix_witness:
  "\<exists>w'. writer_main 3 2 [''writer'', ''/tmp/f'', ''abc''] empty_world = (0, w') \<and>
     files w' ''/tmp/f'' = Some ''ab'' \<and> open_fds w' 3 = None"
proof -
  have "unat (2 :: i64) < 2 ^ 31" "(3 :: i32) \<noteq> - 1" by simp_all
  moreover have "take (unat (2 :: i64)) ''abc'' = ''ab''" by code_simp
  ultimately show ?thesis
    using writer_writes_prefix [of 3 2 empty_world "''writer''" "''/tmp/f''" "''abc''"]
    by (auto simp: empty_world_def)
qed

text \<open>
  With the wrong number of arguments, or when the file cannot be created, the program touches
  no file and no descriptor, logs one error and exits with status 1.
\<close>

theorem writer_refuses_cleanly:
  assumes "length argv \<noteq> 3 \<or> fd = - 1"
  shows "\<exists>m. writer_main fd written argv w = (1, w\<lparr>log := writer_world.log w @ [m]\<rparr>) \<and>
    m = (if length argv \<noteq> 3 then Expected_2_Arguments (int (length argv) - 1) else Could_Not_Create (argv ! 1))"
  using assms by (auto simp: writer_main_def syslog_def Let_def)

theorem writer_refuses_cleanly_witness:
  "writer_main 3 0 [''writer'', ''/tmp/f''] empty_world = (1, empty_world\<lparr>log := [Expected_2_Arguments 1]\<rparr>)"
  using writer_refuses_cleanly [of "[''writer'', ''/tmp/f'']" 3 0 empty_world]
  by (simp add: empty_world_def)

text \<open>
  When \<open>write\<close> fails, the program logs it and exits with status 1, but the file has already
  been emptied and its descriptor is never closed.
\<close>

theorem writer_error_leaves_open:
  assumes "fd \<noteq> - 1"
  shows "\<exists>w'. writer_main fd (- 1) [prog, file, str] w = (1, w') \<and> files w' file = Some [] \<and>
    open_fds w' fd = Some file \<and> writer_world.log w' = writer_world.log w @ [Error_Writing str file]"
proof -
  have "(ucast (- 1 :: i64) :: i32) = - 1" by code_simp
  with assms show ?thesis by (simp add: writer_main_def syslog_def Let_def)
qed

theorem writer_error_leaves_open_witness:
  "\<exists>w'. writer_main 3 (- 1) [''writer'', ''/tmp/f'', ''abc''] (empty_world\<lparr>files := [''/tmp/f'' \<mapsto> ''old'']\<rparr>) = (1, w') \<and>
     files w' ''/tmp/f'' = Some [] \<and> open_fds w' 3 = Some ''/tmp/f''"
proof -
  have "(3 :: i32) \<noteq> - 1" by simp
  from writer_error_leaves_open [OF this, of "''writer''" "''/tmp/f''" "''abc''"] show ?thesis by blast
qed

end
