(* ===== verification/Autotest.thy ===== *)
theory Autotest
  imports Prelude
begin

text \<open>
  \<open>examples/autotest-validate/autotest-validate.c\<close>: three functions that the repository's
  automated test calls, and what that test expects of them.
\<close>

definition this_function_returns_true :: bool where
  "this_function_returns_true = True"

definition this_function_returns_false :: bool where
  "this_function_returns_false = False"

definition my_username :: "byte list" where
  "my_username = ''kbiggs''"

end
