(* ===== verification/Spec2Isabelle.thy ===== *)
theory Spec2Isabelle
  imports Driver_Seek Driver_Lifecycle Driver_Readers Socket_Device Socket_Shutdown Socket_File_Properties
    Queue_List Queue_Stailq Queue_Tailq Queue_Circleq Systemcalls Threading Writer Autotest
begin

text \<open>
  This library models the C programs of the repository: the character driver \<open>aesdchar\<close> with its
  circular buffer, the socket server \<open>aesdsocket\<close> that stores lines on it, and three small
  programs. Everything is a definition that computes, so the concrete runs in the theories are
  evaluated, and everything a piece of C code can do wrong is a value: \<open>'a comp\<close> (\<open>Prelude\<close>) is
  \<open>None\<close> for code that never returns, \<open>fails f\<close> for an undefined behaviour \<open>f\<close>, \<open>returns x\<close>
  otherwise. Integers are words of their width, bytes are \<open>char\<close>. What the operating system or
  the C library answers (allocation, copies to and from a process, \<open>recv\<close>, \<open>fork\<close>, ...) is an
  argument of the definitions; what is relied on is a named law (\<open>kernel_laws\<close>, \<open>seek_law\<close>,
  \<open>env_laws\<close>), shown satisfiable by concrete instances.

  The parts and their theories:

  \<^item> \<open>Circular_Buffer\<close>: \<open>aesd-char-driver/aesd-circular-buffer.c/.h\<close>. Ten slots, 8-bit
    offsets, 64-bit sizes. The invariant \<open>ring_wf\<close> and the abstraction \<open>ring_list\<close>; adding is
    appending to a list of at most ten, the search is \<open>locate\<close> in the concatenated entries. The
    contract for clients is the locale \<open>command_log\<close> and its extension \<open>searchable_log\<close>,
    interpreted on the code.

  \<^item> \<open>Kernel_API\<close>: the kernel's services as a record of functions, the kernel heap, user memory.
    \<open>Char_Driver\<close>: every file operation of \<open>aesd-char-driver/main.c\<close>, module loading and
    unloading. The driver finds entries and adds them through the circular buffer's functions and
    keeps the unfinished command in \<open>working_entry\<close>. Each operation is one function here: the mutex
    is in the state, taking it twice or releasing it unlocked is a fault.

  \<^item> \<open>Driver_Invariant\<close>, \<open>Driver_Refinement\<close>, \<open>Driver_Runs\<close>: the invariant \<open>dev_inv\<close> (each entry
    owns its own live block of the right size), the abstract device \<open>command_store\<close> (up to ten
    commands and the unfinished one) with \<open>store_write\<close>, all outcomes of read and write, states
    reachable by system calls. \<open>Driver_Properties\<close>, \<open>Driver_Seek\<close> and \<open>Driver_Lifecycle\<close> state
    what follows: no faults, writes implement the store, memory is freed exactly, reading returns
    the stored text, seeking, loading and unloading, and where the code departs from its purpose.

  \<^item> \<open>Driver_Concurrency\<close> cuts the same operations at their points of interleaving (the allocator,
    user memory, the mutex) and lets any number of calls of any number of processes run at once;
    run alone, the steps of a call are the operation. \<open>Driver_Interleaving\<close>: the step relation
    \<open>crun\<close> with the events inside the mutex, and the invariant \<open>cinv\<close> of the shared state and of
    every call's own buffer. \<open>Driver_Linearizable\<close>: no fault, progress, and the events are a run of
    \<open>store_write\<close> and \<open>store_read\<close> on the command store that ends in the device's store.
    \<open>Driver_Readers\<close>: what a client that reads in several calls gets while others write.

  \<^item> \<open>Slist\<close>: the \<open>SLIST\<close> macros of \<open>server/queue.h\<close> on a heap of linked nodes; the locale
    \<open>node_list\<close> is their contract and \<open>swept_list\<close> that of a loop that removes nodes on its way.
    The other macros of that header: \<open>Queue_Memory\<close> holds heads, nodes and links (addresses of
    pointer variables) and the chains they form, \<open>Queue_Interface\<close> the loops and the locales
    \<open>node_queue\<close> and \<open>fifo_queue\<close>, interpreted by \<open>Queue_List\<close> (\<open>LIST\<close>, the first locale
    only), \<open>Queue_Stailq\<close>, \<open>Queue_Tailq\<close> and \<open>Queue_Circleq\<close>, each with every macro of its family
    and its effect on the list of nodes: \<open>list_rep\<close>, \<open>stailq_rep\<close>, \<open>tailq_rep\<close>, \<open>circleq_rep\<close>.

  \<^item> \<open>Socket_Client\<close>: \<open>handle_client\<close> of \<open>server/aesdsocket.c\<close> with its C strings and its heap
    block, over any log file (\<open>log_api\<close>), in both builds of the server (\<open>char_device\<close> in
    \<open>client_env\<close> says whether \<open>USE_AESD_CHAR_DEVICE\<close> is defined); the locale \<open>line_log\<close> is what it
    relies on. \<open>Socket_Device\<close> puts the driver behind the log file and interprets the locale on it.
    \<open>Socket_Clients\<close> cuts \<open>handle_client\<close> where its threads share something, the log and
    \<open>log_mutex\<close>, and lets any number of handlers take turns (\<open>clients_run\<close>); run alone, the steps
    are \<open>handle_client\<close>, on any log with the contract \<open>pieced_log\<close>. A call on the log is one step, which
    \<open>driver_linearizable\<close> allows.
    \<open>Socket_Sharing\<close>: the invariant of all handlers and the locale \<open>shared_log\<close>, which extends
    \<open>line_log\<close> by the single read and by seeking, interpreted on the driver. \<open>Socket_Interleaving\<close>:
    whole lines in the log, what each client gets, no fault, every schedule ends.
    \<open>Socket_Server\<close>: the rest of \<open>aesdsocket.c\<close>: signals, timer, set-up in both builds, the accept
    loop with its list of threads, shutdown. Threads end at any point between the steps of the main thread.
    \<open>Socket_System\<close> runs main thread and handlers together: a thread finds its structure where the
    main thread put it and marks it at its end, the main thread frees what it has joined.
    \<open>Socket_Shutdown\<close>: no thread faults, the last loop comes to its end unless it waits for a client
    that stays silent, and then every client has been served and every line is in the log; a silent
    client keeps the server from ending.

  \<^item> The build of the server without \<open>USE_AESD_CHAR_DEVICE\<close>: \<open>Socket_File\<close> is its log, an ordinary
    file that may take a write only in part or not at all, with the interpretations of \<open>shared_log\<close>
    and \<open>pieced_log\<close> for a file that takes a write whole or not at all. \<open>Socket_Timestamp\<close>:
    \<open>print_timestamp\<close> with \<open>strftime\<close>; its text always fits. \<open>Socket_Timer\<close>: the main thread with
    the timer's block cut at the mutex and the file, run with handlers, ticks and signals
    (\<open>file_run\<close>). \<open>Socket_Stamps\<close>: each run is a run of \<open>Socket_Clients\<close> in which every time stamp
    is one more client, so the invariants of \<open>Socket_Sharing\<close> hold. \<open>Socket_File_Server\<close> and
    \<open>Socket_File_Properties\<close>: no fault, what the file holds and each client gets, ticks and time
    stamps, the last loop ends, silent clients apart, with every client served and the file removed.

  \<^item> What the properties of interleaved handlers say of clients: each does what \<open>sends_request\<close> allows. It
    sends one line or seek command with a one-digit number (without the character device any text with a newline) without a zero
    byte in one piece of fewer than 512 bytes, or closes at once, or stays silent for ever, in
    surroundings whose calls succeed (\<open>smooth\<close>). Receiving is one step, taken when the data have come.

  \<^item> \<open>Systemcalls\<close>, \<open>Threading\<close>, \<open>Writer\<close>: \<open>examples/systemcalls\<close>, \<open>examples/threading\<close> (every
    interleaving of any number of threads) and \<open>finder-app/writer.c\<close>. \<open>Autotest\<close>: the three
    functions of \<open>examples/autotest-validate\<close> that return constants.

  This theory adds what a client of server and driver together sees.

  Loops that need not end are \<open>partial_function (option)\<close> and are shown to return where they do:
  the search on well-formed buffers, reading to the end when copies succeed, \<open>SLIST_REMOVE\<close> of
  a member, the sweep and the shutdown of the server. The only fuel is the list of events of the
  server's loop and of received pieces, which are its inputs. The largest kernel block is bounded by
  \<open>KMALLOC_MAX_SIZE\<close>, so ten commands stay far below the range of a position.

  Not modelled: log output, \<open>cdev\<close> and device-number bookkeeping beyond whether they are
  registered, two threads that share one open file (each call in progress has its own copy of it),
  what interleaved clients get that split a request over several pieces, send zero bytes, lose their
  connection or have their \<open>recv\<close> interrupted by a signal, or, on the character device, send several
  lines in one piece (\<open>handle_client\<close> itself is modelled for them, and reads out of bounds for some), a
  signal while the server waits for the driver's mutex, the two circular queue macros that do not
  compile, scripts and tests.
\<close>

section \<open>The server on the driver\<close>

text \<open>
  A client of the server running on the character device that sends one line gets back
  exactly what the device then holds, up to ten commands, oldest first; and the device then holds
  what it held before with the line as its newest command, or, if the driver ran out of memory,
  exactly what it held before.
\<close>

theorem server_stores_and_returns_lines:
  assumes "copying K" and "smooth env" and "idle w"
    and "nul \<notin> set ls" and "newline \<notin> set ls" and "length ls < 511"
    and "char_device env \<Longrightarrow> take 19 (ls @ [newline]) \<noteq> ''AESDCHAR_IOCSEEKTO:''"
  shows "\<exists>res w'. handle_client env (aesdchar_log K) (Recv (ls @ [newline]) # later) w = returns (res, w') \<and> idle w' \<and>
    (world_store w' = store_write (ls @ [newline]) (world_store w) \<or> world_store w' = world_store w) \<and>
    result_retval res = 0 \<and> sent res = contents (world_store w') \<and> client_closed res"
  using aesdchar.serve_line [OF assms(2-7), of K later] assms(1) by (simp add: some_copying_def)

theorem server_stores_and_returns_lines_witness:
  "\<exists>res w'. handle_client calm_env (aesdchar_log copying_kernel) [Recv (''hi'' @ [newline])] (fresh_world []) =
      returns (res, w') \<and> sent res = contents (world_store w') \<and> (sent res = ''hi'' @ [newline] \<or> sent res = [])"
  using server_stores_and_returns_lines [OF copying_copying_kernel calm_smooth fresh_idle, of "''hi''" "[]" "[]"]
  by (auto simp: fresh_world_def zero_device_store store_write_def contents_def)

text \<open>
  C30: A client that sends the seek command with a one-digit command number gets back the stored
  text from exactly the byte it named, provided the command is stored, the byte exists in it and
  the ring has not wrapped; the device keeps what it holds.
\<close>

theorem server_seeks_to_command:
  assumes "copying K" and "copying_in K" and "smooth env" and "char_device env" and "dev_inv w" and "out_offs (buffer (device w)) = 0"
    and "is_digit x" and "\<forall>c \<in> set ys. is_digit c" and "ys \<noteq> []" and "length ys < 480" and "decimal ys < 2 ^ 32"
    and "decimal [x] < length (commands (world_store w))"
    and "decimal ys < length (commands (world_store w) ! decimal [x])"
  shows "\<exists>res w'. handle_client env (aesdchar_log K)
      (Recv (''AESDCHAR_IOCSEEKTO:'' @ [x, CHR '',''] @ ys @ [newline]) # later) w = returns (res, w') \<and>
    result_retval res = 0 \<and> world_store w' = world_store w \<and>
    sent res = drop (sum_list (map length (take (decimal [x]) (commands (world_store w)))) + decimal ys)
                    (contents (world_store w))"
proof -
  let ?c = "of_nat (decimal [x]) :: u32" and ?x = "ucast (of_nat (decimal ys) :: u64) :: u32"
  have c: "unat ?c = decimal [x]" using one_digit [OF assms(7)] by (simp add: unat_of_nat take_bit_nat_eq_self)
  have x: "unat ?x = decimal ys"
    using assms(11) by (simp add: unsigned_ucast_eq unat_of_nat_u64 take_bit_nat_eq_self)
  have max: "decimal ys \<le> ULONG_MAX" using assms(11) by (simp add: ULONG_MAX_def)
  have laws: "kernel_laws K" and copies: "\<And>m u bs. fst (copy_to_user K m u bs) = 0"
    using assms(1) by (simp_all add: copying_def)
  obtain p m where p: "aesdchar_seek K ?c ?x w = returns (p, w\<lparr>umem := m\<rparr>)"
    "unat p = sum_list (map length (take (decimal [x]) (commands (world_store w)))) + decimal ys"
    using aesdchar_seek_run [OF laws assms(2,5,6), of ?c ?x] assms(12,13) c x by auto
  have "dev_inv (w\<lparr>umem := m\<rparr>)" using assms(5) by (simp add: dev_inv_def)
  from read_all_rest [OF laws copies this, of p] p
  show ?thesis
    unfolding handle_seek [OF assms(3,4,7-9) max assms(10)]
    by (auto simp: aesdchar_log_def)
qed

lemma copying_kernel_copies_in: "copying_in copying_kernel"
  by (auto simp: copying_in_def copying_kernel_def small_kernel_def small_copy_from_user_def list_all_iff)

theorem server_seeks_to_command_witness:
  "\<exists>res w'. handle_client calm_env (aesdchar_log copying_kernel)
      [Recv (''AESDCHAR_IOCSEEKTO:1,2'' @ [newline])] two_lines = returns (res, w') \<and> sent res = [CHR ''b'', newline]"
proof -
  have "out_offs (buffer (device two_lines)) = 0" by code_simp
  moreover have d: "is_digit CHR ''1''" "\<forall>c \<in> set ''2''. is_digit c" "decimal ''1'' = 1" "decimal ''2'' = 2"
    by (simp_all add: is_digit_def decimal_def)
  moreover have "drop (3 + 2) (contents (world_store two_lines)) = [CHR ''b'', newline]"
    unfolding two_lines_store by code_simp
  ultimately show ?thesis
    using server_seeks_to_command [OF copying_copying_kernel copying_kernel_copies_in calm_smooth calm_device two_lines_inv,
        of "CHR ''1''" "''2''" "[]"]
    by (auto simp: two_lines_store line_def)
qed

end
